(* ===== verification/Prelude.thy ===== *)
theory Prelude
  imports Main "HOL-Library.Word"
begin

text \<open>
  Shared vocabulary of the development: the machine types of the C and C++ sources
  (\<open>uint64_t\<close>, \<open>size_t\<close> and pointers as 64-bit words, \<open>unsigned\<close> as 32-bit words), the
  \<open>errno\<close> values the sources return, the address intervals that PMTest tracks, the
  collections of simplification rules the component theories fill, and the generic lemmas
  on lists, folds and words that more than one component uses.
\<close>

unbundle bit_operations_syntax

type_synonym u64 = "64 word"
type_synonym u32 = "32 word"

text \<open>An address of the traced program: \<open>void *\<close> cast to \<open>size_t\<close>.\<close>

type_synonym address = u64

text \<open>A half-open interval, the \<open>right_open(lower, upper)\<close> of the sources.\<close>

type_synonym ival = "address \<times> address"

named_theorems engine_defs "the handlers of the checking engine, unfolded"
named_theorems spec_simps "rewrite rules from the concrete to the abstract state"

subsection \<open>Intervals\<close>

definition ival_set :: "'a::linorder \<times> 'a \<Rightarrow> 'a set" where
  "ival_set i = {fst i ..< snd i}"

definition overlaps :: "'a::linorder \<times> 'a \<Rightarrow> 'a \<times> 'a \<Rightarrow> bool" where
  "overlaps i j \<longleftrightarrow> max (fst i) (fst j) < min (snd i) (snd j)"

lemma ival_set_Pair [simp]: "ival_set (l, u) = {l ..< u}"
  by (simp add: ival_set_def)

lemma overlaps_iff: "overlaps i j \<longleftrightarrow> ival_set i \<inter> ival_set j \<noteq> {}"
  by (cases i; cases j) (simp add: overlaps_def conj_ac)

lemma overlaps_empty_iff: "\<not> overlaps i j \<longleftrightarrow> ival_set i \<inter> ival_set j = {}"
  by (simp add: overlaps_iff)

text \<open>The interval \<open>[a, a + n)\<close> of an access; the addition is the 64-bit one of the code.\<close>

definition range_of :: "address \<Rightarrow> u32 \<Rightarrow> ival" where
  "range_of a n = (a, a + ucast n)"

definition no_wrap :: "address \<Rightarrow> u32 \<Rightarrow> bool" where
  "no_wrap a n \<longleftrightarrow> unat a + unat n < 2 ^ 64"

lemma unat_range_upper:
  assumes "no_wrap a n"
  shows "unat (a + ucast n) = unat a + unat n"
proof -
  have "unat n < 2 ^ 32" using unsigned_less [of n, where ?'a = nat] by simp
  then have "unat (ucast n :: u64) = unat n"
    by (simp add: unsigned_ucast_eq take_bit_nat_eq_self)
  with assms show ?thesis
    by (simp add: no_wrap_def unat_word_ariths)
qed

lemma range_nonempty:
  assumes "no_wrap a n" "0 < n"
  shows "fst (range_of a n) < snd (range_of a n)"
proof -
  have "0 < unat n" using assms(2) by (simp add: unat_gt_0 word_gt_0)
  then show ?thesis
    using unat_range_upper [OF assms(1)] by (simp add: range_of_def word_less_nat_alt)
qed

subsection \<open>Folds and lists\<close>

lemma fold_invariant_list:
  assumes "P s" and "\<And>x s. x \<in> set xs \<Longrightarrow> P s \<Longrightarrow> P (f x s)"
  shows "P (fold f xs s)"
  using assms by (induction xs arbitrary: s) auto

lemma fold_refine:
  assumes "I s"
    and "\<And>x s. x \<in> set xs \<Longrightarrow> I s \<Longrightarrow> I (f x s)"
    and "\<And>x s. x \<in> set xs \<Longrightarrow> I s \<Longrightarrow> A (f x s) = g x (A s)"
  shows "A (fold f xs s) = fold g xs (A s)"
  using assms by (induction xs arbitrary: s) auto

lemma fold_nth_upt:
  "i \<le> j \<Longrightarrow> j \<le> length xs \<Longrightarrow>
   fold (\<lambda>k. f (xs ! k)) [i ..< j] s = fold f (drop i (take j xs)) s"
proof (induction j)
  case 0
  then show ?case by simp
next
  case (Suc j)
  show ?case
  proof (cases "i = Suc j")
    case True
    then show ?thesis by simp
  next
    case False
    with Suc.prems have le: "i \<le> j" "j < length xs" by auto
    then have "drop i (take (Suc j) xs) = drop i (take j xs) @ [xs ! j]"
      by (simp add: take_Suc_conv_app_nth)
    with Suc le show ?thesis by simp
  qed
qed

end
