(* ===== verification/Icl.thy ===== *)
theory Icl
  imports Prelude
begin

text \<open>
  The interval containers of the checking engine. \<open>src/include/pmtest.hh\<close> takes them from
  \<open>boost::icl\<close>, which is not part of the repository, so the engine is parametric in a record
  of their operations and the locale \<open>icl\<close> states what the documentation of the library
  promises about them: an \<open>interval_set<size_t>\<close> denotes a set of addresses, an
  \<open>interval_map\<close> with the \<open>partial_enricher\<close> trait and the \<open>inplace_assign\<close> combiner denotes
  a partial function from addresses to values on which \<open>+=\<close> overwrites. The laws speak about
  non-empty intervals only.

  The second half of the theory implements the record on ordered lists of disjoint segments,
  the representation the library documents, and interprets the locale on it. The
  witnesses of the engine's properties run on this instance.
\<close>

subsection \<open>The operations the engine calls\<close>

record ('s, 'm) containers =
  iset_new :: 's
  iset_find :: "'s \<Rightarrow> ival \<Rightarrow> ival option"
  iset_add :: "'s \<Rightarrow> ival \<Rightarrow> 's"
  iset_sub :: "'s \<Rightarrow> ival \<Rightarrow> 's"
  imap_new :: 'm
  imap_add :: "'m \<Rightarrow> ival \<Rightarrow> int \<Rightarrow> 'm"
  imap_within :: "ival \<Rightarrow> 'm \<Rightarrow> bool"
  imap_values :: "ival \<Rightarrow> 'm \<Rightarrow> int list"

text \<open>
  \<open>iset_find\<close> is \<open>find\<close> (\<open>None\<close> for \<open>end()\<close>), \<open>iset_add\<close> and \<open>iset_sub\<close> are \<open>+=\<close> and \<open>-=\<close>,
  \<open>imap_within i m\<close> is \<open>within(i, m)\<close>, and \<open>imap_values i m\<close> lists the mapped values
  (\<open>j->second\<close>) met when iterating over \<open>i & m\<close>.
\<close>

locale icl =
  fixes C :: "('s, 'm) containers"
    and aset :: "'s \<Rightarrow> address set"
    and amap :: "'m \<Rightarrow> address \<Rightarrow> int option"
    and wf_set :: "'s \<Rightarrow> bool"
    and wf_map :: "'m \<Rightarrow> bool"
  assumes new_wf: "wf_set (iset_new C)" "wf_map (imap_new C)"
    and set_new: "aset (iset_new C) = {}"
    and set_add: "wf_set s \<Longrightarrow> l < u \<Longrightarrow> aset (iset_add C s (l, u)) = aset s \<union> {l ..< u}"
    and set_sub: "wf_set s \<Longrightarrow> l < u \<Longrightarrow> aset (iset_sub C s (l, u)) = aset s - {l ..< u}"
    and set_find_None:
      "wf_set s \<Longrightarrow> l < u \<Longrightarrow> iset_find C s (l, u) = None \<longleftrightarrow> aset s \<inter> {l ..< u} = {}"
    and set_find_Some: "wf_set s \<Longrightarrow> l < u \<Longrightarrow> iset_find C s (l, u) = Some j \<Longrightarrow>
      ival_set j \<subseteq> aset s \<and> ival_set j \<inter> {l ..< u} \<noteq> {}"
    and add_wf: "wf_set s \<Longrightarrow> l < u \<Longrightarrow> wf_set (iset_add C s (l, u))"
    and sub_wf: "wf_set s \<Longrightarrow> l < u \<Longrightarrow> wf_set (iset_sub C s (l, u))"
    and map_new: "amap (imap_new C) = Map.empty"
    and map_add: "wf_map m \<Longrightarrow> l < u \<Longrightarrow>
      amap (imap_add C m (l, u) v) = (\<lambda>a. if a \<in> {l ..< u} then Some v else amap m a)"
    and map_within: "wf_map m \<Longrightarrow> l < u \<Longrightarrow> imap_within C (l, u) m \<longleftrightarrow> {l ..< u} \<subseteq> dom (amap m)"
    and map_values: "wf_map m \<Longrightarrow> l < u \<Longrightarrow>
      set (imap_values C (l, u) m) = {v. \<exists>a\<in>{l ..< u}. amap m a = Some v}"
    and map_add_wf: "wf_map m \<Longrightarrow> l < u \<Longrightarrow> wf_map (imap_add C m (l, u) v)"

subsection \<open>Ordered lists of disjoint segments\<close>

text \<open>Adding joins every segment the new one touches; subtracting cuts segments in two.\<close>

fun seg_add :: "('a::linorder \<times> 'a) list \<Rightarrow> 'a \<times> 'a \<Rightarrow> ('a \<times> 'a) list" where
  "seg_add [] (l, u) = [(l, u)]"
| "seg_add ((a, b) # xs) (l, u) =
     (if b < l then (a, b) # seg_add xs (l, u)
      else if u < a then (l, u) # (a, b) # xs
      else seg_add xs (min l a, max u b))"

definition cut_left :: "'a::linorder \<times> 'a \<Rightarrow> 'a \<times> 'a \<Rightarrow> ('a \<times> 'a) list" where
  "cut_left i j = (if fst j < min (snd j) (fst i) then [(fst j, min (snd j) (fst i))] else [])"

definition cut_right :: "'a::linorder \<times> 'a \<Rightarrow> 'a \<times> 'a \<Rightarrow> ('a \<times> 'a) list" where
  "cut_right i j = (if max (fst j) (snd i) < snd j then [(max (fst j) (snd i), snd j)] else [])"

definition seg_sub :: "('a::linorder \<times> 'a) list \<Rightarrow> 'a \<times> 'a \<Rightarrow> ('a \<times> 'a) list" where
  "seg_sub xs i = concat (map (\<lambda>j. cut_left i j @ cut_right i j) xs)"

definition seg_find :: "('a::linorder \<times> 'a) list \<Rightarrow> 'a \<times> 'a \<Rightarrow> ('a \<times> 'a) option" where
  "seg_find xs i = List.find (overlaps i) xs"

definition segs :: "('a::linorder \<times> 'a) list \<Rightarrow> 'a set" where
  "segs xs = \<Union> (set (map ival_set xs))"

definition mseg_add :: "(('a::linorder \<times> 'a) \<times> int) list \<Rightarrow> 'a \<times> 'a \<Rightarrow> int \<Rightarrow> (('a \<times> 'a) \<times> int) list" where
  "mseg_add m i v =
     concat (map (\<lambda>(j, w). map (\<lambda>k. (k, w)) (cut_left i j)) m) @ [(i, v)] @
     concat (map (\<lambda>(j, w). map (\<lambda>k. (k, w)) (cut_right i j)) m)"

definition mseg_within :: "'a::linorder \<times> 'a \<Rightarrow> (('a \<times> 'a) \<times> int) list \<Rightarrow> bool" where
  "mseg_within i m = (fold (\<lambda>(j, w) rest. seg_sub rest j) m [i] = [])"

definition mseg_values :: "'a::linorder \<times> 'a \<Rightarrow> (('a \<times> 'a) \<times> int) list \<Rightarrow> int list" where
  "mseg_values i m = map snd (filter (\<lambda>(j, w). overlaps i j) m)"

definition mseg_lookup :: "(('a::linorder \<times> 'a) \<times> int) list \<Rightarrow> 'a \<Rightarrow> int option" where
  "mseg_lookup m a = map_option snd (List.find (\<lambda>(j, w). a \<in> ival_set j) m)"

text \<open>Segments are never empty; the segments of a map do not overlap.\<close>

definition segs_ok :: "('a::linorder \<times> 'a) list \<Rightarrow> bool" where
  "segs_ok xs \<longleftrightarrow> (\<forall>i\<in>set xs. fst i < snd i)"

definition mseg_ok :: "(('a::linorder \<times> 'a) \<times> int) list \<Rightarrow> bool" where
  "mseg_ok m \<longleftrightarrow> segs_ok (map fst m) \<and>
     (\<forall>p\<in>set m. \<forall>q\<in>set m. ival_set (fst p) \<inter> ival_set (fst q) \<noteq> {} \<longrightarrow> snd p = snd q)"

definition segment_lists :: "(ival list, (ival \<times> int) list) containers" where
  "segment_lists =
     \<lparr>iset_new = [], iset_find = seg_find, iset_add = seg_add, iset_sub = seg_sub,
      imap_new = [], imap_add = mseg_add, imap_within = mseg_within,
      imap_values = mseg_values\<rparr>"

lemma segs_simps [simp]:
  "segs [] = {}" "segs (i # xs) = ival_set i \<union> segs xs" "segs (xs @ ys) = segs xs \<union> segs ys"
  by (auto simp: segs_def)

lemma segs_ok_simps [simp]:
  "segs_ok []" "segs_ok (i # xs) \<longleftrightarrow> fst i < snd i \<and> segs_ok xs"
  "segs_ok (xs @ ys) \<longleftrightarrow> segs_ok xs \<and> segs_ok ys"
  by (auto simp: segs_ok_def)

lemma seg_add_segs:
  "segs_ok xs \<Longrightarrow> l < u \<Longrightarrow> segs (seg_add xs (l, u)) = segs xs \<union> {l ..< u}"
proof (induction xs "(l, u)" arbitrary: l u rule: seg_add.induct)
  case (2 a b xs l u)
  have "{min l a ..< max u b} = {l ..< u} \<union> {a ..< b}" if "\<not> b < l" "\<not> u < a"
    using that "2.prems" by (auto simp: min_def max_def not_less split: if_splits)
  with 2 show ?case by (auto simp: min_less_iff_disj less_max_iff_disj)
qed simp

lemma seg_add_ok: "segs_ok xs \<Longrightarrow> l < u \<Longrightarrow> segs_ok (seg_add xs (l, u))"
  by (induction xs "(l, u)" arbitrary: l u rule: seg_add.induct)
    (auto simp: min_less_iff_disj less_max_iff_disj)

lemma cut_segs: "fst i < snd i \<Longrightarrow> segs (cut_left i j @ cut_right i j) = ival_set j - ival_set i"
  by (cases i; cases j) (auto simp: cut_left_def cut_right_def not_less not_le)

lemma cut_ok: "segs_ok (cut_left i j)" "segs_ok (cut_right i j)"
  by (simp_all add: cut_left_def cut_right_def)

lemma cut_subset: "k \<in> set (cut_left i j) \<or> k \<in> set (cut_right i j) \<Longrightarrow> ival_set k \<subseteq> ival_set j"
  by (cases i; cases j) (auto simp: cut_left_def cut_right_def split: if_splits)

lemma cut_disjoint:
  "fst i < snd i \<Longrightarrow> k \<in> set (cut_left i j) \<or> k \<in> set (cut_right i j) \<Longrightarrow>
   ival_set k \<inter> ival_set i = {}"
  by (cases i; cases j) (auto simp: cut_left_def cut_right_def split: if_splits)

lemma seg_sub_segs: "fst i < snd i \<Longrightarrow> segs (seg_sub xs i) = segs xs - ival_set i"
proof (induction xs)
  case (Cons j xs)
  have "segs (seg_sub (j # xs) i) = segs (cut_left i j @ cut_right i j) \<union> segs (seg_sub xs i)"
    by (simp add: seg_sub_def Un_assoc)
  with Cons show ?case by (simp add: cut_segs Un_Diff del: segs_simps(3))
qed (simp add: seg_sub_def)

lemma seg_sub_ok: "segs_ok (seg_sub xs i)"
  by (induction xs) (auto simp: seg_sub_def cut_ok)

lemma segs_empty_iff: "segs_ok xs \<Longrightarrow> segs xs = {} \<longleftrightarrow> xs = []"
  by (cases xs) auto

lemma seg_find_None: "seg_find xs i = None \<longleftrightarrow> segs xs \<inter> ival_set i = {}"
  by (induction xs) (auto simp: seg_find_def overlaps_iff)

lemma seg_find_Some:
  "seg_find xs i = Some j \<Longrightarrow> ival_set j \<subseteq> segs xs \<and> ival_set j \<inter> ival_set i \<noteq> {}"
  by (induction xs) (auto simp: seg_find_def overlaps_iff split: if_splits)

lemma find_SomeD: "List.find P xs = Some x \<Longrightarrow> x \<in> set xs \<and> P x"
  by (induction xs) (auto split: if_splits)

lemma mseg_lookup_Some:
  assumes "mseg_ok m"
  shows "mseg_lookup m a = Some v \<longleftrightarrow> (\<exists>j. (j, v) \<in> set m \<and> a \<in> ival_set j)"
proof
  assume "mseg_lookup m a = Some v"
  then obtain p where p: "List.find (\<lambda>(j, w). a \<in> ival_set j) m = Some p" "v = snd p"
    by (auto simp: mseg_lookup_def)
  from find_SomeD [OF p(1)] p(2) have "(fst p, v) \<in> set m \<and> a \<in> ival_set (fst p)"
    by (cases p) simp
  then show "\<exists>j. (j, v) \<in> set m \<and> a \<in> ival_set j" by blast
next
  assume "\<exists>j. (j, v) \<in> set m \<and> a \<in> ival_set j"
  then obtain j where j: "(j, v) \<in> set m" "a \<in> ival_set j" by blast
  then obtain p where p: "List.find (\<lambda>(j, w). a \<in> ival_set j) m = Some p"
    by (metis (mono_tags, lifting) case_prodI find_None_iff not_Some_eq)
  from find_SomeD [OF p] have "p \<in> set m" "a \<in> ival_set (fst p)"
    by (cases p; simp)+
  with j assms have "snd p = v" by (fastforce simp: mseg_ok_def)
  with p show "mseg_lookup m a = Some v" by (simp add: mseg_lookup_def)
qed

lemma segs_map_fst: "a \<in> segs (map fst m) \<longleftrightarrow> (\<exists>j w. (j, w) \<in> set m \<and> a \<in> ival_set j)"
proof -
  have "a \<in> segs (map fst m) \<longleftrightarrow> (\<exists>p\<in>set m. a \<in> ival_set (fst p))"
    unfolding segs_def by simp
  then show ?thesis by (metis fst_conv prod.collapse)
qed

lemma mseg_lookup_dom: "mseg_ok m \<Longrightarrow> dom (mseg_lookup m) = segs (map fst m)"
  unfolding set_eq_iff domIff not_None_eq mem_Collect_eq dom_def
  by (metis mseg_lookup_Some segs_map_fst)

lemma set_mseg_add:
  "set (mseg_add m i v) = insert (i, v)
     {(k, w) | k w j. (j, w) \<in> set m \<and> (k \<in> set (cut_left i j) \<or> k \<in> set (cut_right i j))}"
  by (fastforce simp: mseg_add_def)

lemma mseg_add_from:
  assumes "fst i < snd i" "r \<in> set (mseg_add m i v)"
  shows "r = (i, v) \<or> ival_set (fst r) \<inter> ival_set i = {} \<and>
    (\<exists>j. (j, snd r) \<in> set m \<and> ival_set (fst r) \<subseteq> ival_set j)"
proof (cases "r = (i, v)")
  case False
  with assms(2) have "r \<in> {(k, w) | k w j.
      (j, w) \<in> set m \<and> (k \<in> set (cut_left i j) \<or> k \<in> set (cut_right i j))}"
    unfolding set_mseg_add by blast
  then obtain j where j: "(j, snd r) \<in> set m"
    "fst r \<in> set (cut_left i j) \<or> fst r \<in> set (cut_right i j)"
    unfolding mem_Collect_eq by (metis fst_conv snd_conv)
  then show ?thesis
    using cut_subset [OF j(2)] cut_disjoint [OF assms(1) j(2)] by blast
qed simp

lemma mseg_add_ok:
  fixes i :: "'a::linorder \<times> 'a"
  assumes "mseg_ok m" "fst i < snd i"
  shows "mseg_ok (mseg_add m i v)"
proof -
  have all: "segs_ok (map fst (concat (map (\<lambda>(j, w). map (\<lambda>k. (k, w)) (f j)) m)))"
    if "\<And>j. segs_ok (f j)" for f :: "'a \<times> 'a \<Rightarrow> ('a \<times> 'a) list"
    using that by (induction m) (auto simp: o_def)
  have "segs_ok (map fst (mseg_add m i v))"
    unfolding mseg_add_def map_append segs_ok_simps
    by (intro conjI all cut_ok) (simp add: assms(2))
  moreover have "snd p = snd q"
    if pq: "p \<in> set (mseg_add m i v)" "q \<in> set (mseg_add m i v)"
      and meet: "ival_set (fst p) \<inter> ival_set (fst q) \<noteq> {}" for p q
  proof -
    have agree: "w = w'" if "(j, w) \<in> set m" "(j', w') \<in> set m" "ival_set j \<inter> ival_set j' \<noteq> {}"
      for j w j' w'
      using assms(1) that by (fastforce simp: mseg_ok_def)
    show ?thesis
      using mseg_add_from [OF assms(2) pq(1)] mseg_add_from [OF assms(2) pq(2)]
    proof (elim disjE conjE exE)
      fix j j' assume "(j, snd p) \<in> set m" "ival_set (fst p) \<subseteq> ival_set j"
        "(j', snd q) \<in> set m" "ival_set (fst q) \<subseteq> ival_set j'"
      with meet agree show ?thesis by blast
    qed (use meet in auto)
  qed
  ultimately show ?thesis by (auto simp: mseg_ok_def)
qed

lemma mseg_add_lookup:
  assumes "mseg_ok m" "fst i < snd i"
  shows "mseg_lookup (mseg_add m i v) a = (if a \<in> ival_set i then Some v else mseg_lookup m a)"
proof -
  have cut: "(\<exists>k. (k \<in> set (cut_left i j) \<or> k \<in> set (cut_right i j)) \<and> a \<in> ival_set k)
      \<longleftrightarrow> a \<in> ival_set j \<and> a \<notin> ival_set i" for j
  proof -
    have "(\<exists>k. (k \<in> set (cut_left i j) \<or> k \<in> set (cut_right i j)) \<and> a \<in> ival_set k) \<longleftrightarrow>
        a \<in> segs (cut_left i j @ cut_right i j)" by (auto simp: segs_def simp del: split_paired_Ex)
    then show ?thesis by (simp only: cut_segs [OF assms(2)] Diff_iff)
  qed
  have "mseg_lookup (mseg_add m i v) a = Some w \<longleftrightarrow>
      (\<exists>k. (k, w) \<in> set (mseg_add m i v) \<and> a \<in> ival_set k)" for w
    by (rule mseg_lookup_Some [OF mseg_add_ok [OF assms]])
  also have "\<dots> w \<longleftrightarrow> (w = v \<and> a \<in> ival_set i) \<or>
      (\<exists>j. (j, w) \<in> set m \<and> (\<exists>k. (k \<in> set (cut_left i j) \<or> k \<in> set (cut_right i j)) \<and>
        a \<in> ival_set k))" for w
    unfolding set_mseg_add by blast
  also have "\<dots> w \<longleftrightarrow> (w = v \<and> a \<in> ival_set i) \<or>
      (\<exists>j. (j, w) \<in> set m \<and> a \<in> ival_set j) \<and> a \<notin> ival_set i" for w
    unfolding cut by blast
  also have "\<dots> w \<longleftrightarrow> (if a \<in> ival_set i then w = v else mseg_lookup m a = Some w)" for w
    using mseg_lookup_Some [OF assms(1), of a w] by auto
  finally have *: "mseg_lookup (mseg_add m i v) a = Some w \<longleftrightarrow>
      (if a \<in> ival_set i then w = v else mseg_lookup m a = Some w)" for w .
  show ?thesis
    using * [of v] * [of "the (mseg_lookup m a)"] * [of "the (mseg_lookup (mseg_add m i v) a)"]
    by (cases "mseg_lookup (mseg_add m i v) a"; cases "mseg_lookup m a") (auto split: if_splits)
qed

lemma mseg_within_iff:
  assumes "mseg_ok m" "fst i < snd i"
  shows "mseg_within i m \<longleftrightarrow> ival_set i \<subseteq> dom (mseg_lookup m)"
proof -
  have *: "segs_ok (map fst m) \<Longrightarrow> segs_ok rest \<Longrightarrow>
      segs_ok (fold (\<lambda>(j, w) rest. seg_sub rest j) m rest) \<and>
      segs (fold (\<lambda>(j, w) rest. seg_sub rest j) m rest) = segs rest - segs (map fst m)" for rest
  proof (induction m arbitrary: rest)
    case (Cons p m)
    from Cons.prems Cons.IH [of "seg_sub rest (fst p)"] show ?case
      by (cases p) (simp add: seg_sub_segs seg_sub_ok Diff_Un Diff_Int2 set_diff_eq conj_assoc)
  qed simp
  have r: "segs_ok (fold (\<lambda>(j, w) rest. seg_sub rest j) m [i])"
    "segs (fold (\<lambda>(j, w) rest. seg_sub rest j) m [i]) = ival_set i - segs (map fst m)"
    using * [of "[i]"] assms unfolding mseg_ok_def by simp_all
  show ?thesis
    unfolding mseg_within_def segs_empty_iff [OF r(1), symmetric] r(2) mseg_lookup_dom [OF assms(1)]
    by (rule Diff_eq_empty_iff)
qed

lemma mseg_values_set:
  assumes "mseg_ok m"
  shows "set (mseg_values i m) = {v. \<exists>a\<in>ival_set i. mseg_lookup m a = Some v}"
proof -
  have "v \<in> set (mseg_values i m) \<longleftrightarrow> (\<exists>j. (j, v) \<in> set m \<and> overlaps i j)" for v
  proof -
    have "v \<in> set (mseg_values i m) \<longleftrightarrow> (\<exists>p\<in>set m. overlaps i (fst p) \<and> v = snd p)"
      unfolding mseg_values_def split_beta set_map set_filter image_def by blast
    then show ?thesis by (metis fst_conv snd_conv prod.collapse)
  qed
  then show ?thesis
    unfolding overlaps_iff set_eq_iff mem_Collect_eq mseg_lookup_Some [OF assms] by blast
qed

lemmas segment_lists_laws =
  seg_add_segs seg_add_ok seg_sub_segs seg_sub_ok seg_find_None mseg_add_ok mseg_add_lookup
  mseg_within_iff mseg_values_set

interpretation seglist: icl segment_lists segs mseg_lookup segs_ok mseg_ok
proof unfold_locales
  fix s :: "ival list" and m :: "(ival \<times> int) list" and l u :: address and v and j
  show "mseg_ok (imap_new segment_lists)" by (simp add: segment_lists_def mseg_ok_def)
  show "mseg_lookup (imap_new segment_lists) = Map.empty"
    by (simp add: segment_lists_def mseg_lookup_def fun_eq_iff)
  show "iset_find segment_lists s (l, u) = Some j \<Longrightarrow>
      ival_set j \<subseteq> segs s \<and> ival_set j \<inter> {l..<u} \<noteq> {}"
    using seg_find_Some [of s "(l, u)" j] by (simp add: segment_lists_def)
  assume "mseg_ok m" "l < u"
  then show "mseg_lookup (imap_add segment_lists m (l, u) v) =
      (\<lambda>a. if a \<in> {l..<u} then Some v else mseg_lookup m a)"
    by (simp add: segment_lists_def segment_lists_laws fun_eq_iff)
qed (simp_all add: segment_lists_def segment_lists_laws)

end
