(* ===== verification/Fast_Vector.thy ===== *)
theory Fast_Vector
  imports Prelude
begin

text \<open>
  \<open>FastVector\<close> of \<open>src/include/common.hh\<close>: a growable array over \<open>malloc\<close>, \<open>realloc\<close> and
  \<open>memcpy\<close>, used for traces, for the list of traces and for results. A cell is \<open>None\<close> until it is
  written, so reading uninitialised memory is visible in the model. Allocation succeeds (the code
  does not test for failure).

  The locale \<open>vector_spec\<close> is what the clients rely on; it is interpreted on the operations of
  the model.
\<close>

record 'a FastVector =
  arr_vector :: "'a option list"
  cur_size :: nat
  vector_max_size :: nat

subsection \<open>The C library calls\<close>

definition malloc_cells :: "nat \<Rightarrow> 'a option list" where
  "malloc_cells n = replicate n None"

definition realloc_cells :: "'a option list \<Rightarrow> nat \<Rightarrow> 'a option list" where
  "realloc_cells xs n = take n xs @ replicate (n - length xs) None"

definition memcpy_cells :: "'a option list \<Rightarrow> nat \<Rightarrow> 'a option list \<Rightarrow> 'a option list" where
  "memcpy_cells dst off src = take off dst @ src @ drop (off + length src) dst"

subsection \<open>The operations\<close>

definition fv_new :: "'a FastVector" where
  "fv_new = \<lparr>arr_vector = malloc_cells 200, cur_size = 0, vector_max_size = 200\<rparr>"

definition fv_size :: "'a FastVector \<Rightarrow> nat" where
  "fv_size v = cur_size v"

definition fv_index :: "'a FastVector \<Rightarrow> nat \<Rightarrow> 'a option" where
  "fv_index v i = (if i < length (arr_vector v) then arr_vector v ! i else None)"

definition fv_push_back :: "'a \<Rightarrow> 'a FastVector \<Rightarrow> 'a FastVector" where
  "fv_push_back x v =
     (let v1 = (if vector_max_size v \<le> cur_size v
                then v\<lparr>vector_max_size := vector_max_size v * 10,
                       arr_vector := realloc_cells (arr_vector v) (vector_max_size v * 10)\<rparr>
                else v)
      in v1\<lparr>arr_vector := (arr_vector v1)[cur_size v1 := Some x], cur_size := cur_size v1 + 1\<rparr>)"

definition fv_append :: "'a FastVector \<Rightarrow> 'a FastVector \<Rightarrow> 'a FastVector" where
  "fv_append inp v =
     (let v1 = (if vector_max_size v \<le> fv_size inp + cur_size v
                then v\<lparr>vector_max_size := (cur_size v + fv_size inp) * 10,
                       arr_vector := realloc_cells (arr_vector v) ((cur_size v + fv_size inp) * 10)\<rparr>
                else v)
      in v1\<lparr>arr_vector := memcpy_cells (arr_vector v1) (cur_size v1)
                            (take (fv_size inp) (arr_vector inp)),
            cur_size := cur_size v1 + fv_size inp\<rparr>)"

definition fv_append_arr :: "'a option list \<Rightarrow> nat \<Rightarrow> 'a FastVector \<Rightarrow> 'a FastVector" where
  "fv_append_arr inp n v =
     (let v1 = (if vector_max_size v \<le> n + cur_size v
                then v\<lparr>vector_max_size := (cur_size v + n) * 10,
                       arr_vector := realloc_cells (arr_vector v) ((cur_size v + n) * 10)\<rparr>
                else v)
      in v1\<lparr>arr_vector := memcpy_cells (arr_vector v1) (cur_size v1) (take n inp),
            cur_size := cur_size v1 + n\<rparr>)"

definition fv_clear :: "'a FastVector \<Rightarrow> 'a FastVector" where
  "fv_clear v = v\<lparr>cur_size := 0, vector_max_size := 200,
                  arr_vector := realloc_cells (arr_vector v) 200\<rparr>"

subsection \<open>Abstraction and invariant\<close>

text \<open>
  The capacity clause bounds what the \<open>int\<close> field \<open>vector_max_size\<close> can hold: no more than ten
  times the number of elements, or the initial 200.
\<close>

definition fv_list :: "'a FastVector \<Rightarrow> 'a list" where
  "fv_list v = map the (take (cur_size v) (arr_vector v))"

definition fv_ok :: "'a FastVector \<Rightarrow> bool" where
  "fv_ok v \<longleftrightarrow> length (arr_vector v) = vector_max_size v \<and> cur_size v \<le> vector_max_size v \<and>
     200 \<le> vector_max_size v \<and> vector_max_size v \<le> max 200 (10 * cur_size v) \<and>
     None \<notin> set (take (cur_size v) (arr_vector v))"

subsection \<open>The contract of a growable array\<close>

locale vector_spec =
  fixes new :: 'v
    and push :: "'a \<Rightarrow> 'v \<Rightarrow> 'v"
    and app :: "'v \<Rightarrow> 'v \<Rightarrow> 'v"
    and clear :: "'v \<Rightarrow> 'v"
    and vsize :: "'v \<Rightarrow> nat"
    and vindex :: "'v \<Rightarrow> nat \<Rightarrow> 'a option"
    and vlist :: "'v \<Rightarrow> 'a list"
    and vok :: "'v \<Rightarrow> bool"
  assumes new_ok: "vok new" and new_list: "vlist new = []"
    and push_ok: "vok v \<Longrightarrow> vok (push x v)" and push_list: "vok v \<Longrightarrow> vlist (push x v) = vlist v @ [x]"
    and app_ok: "vok v \<Longrightarrow> vok w \<Longrightarrow> vok (app w v)"
    and app_list: "vok v \<Longrightarrow> vok w \<Longrightarrow> vlist (app w v) = vlist v @ vlist w"
    and clear_ok: "vok v \<Longrightarrow> vok (clear v)" and clear_list: "vok v \<Longrightarrow> vlist (clear v) = []"
    and size_list: "vok v \<Longrightarrow> vsize v = length (vlist v)"
    and index_list: "vok v \<Longrightarrow> i < vsize v \<Longrightarrow> vindex v i = Some (vlist v ! i)"
begin

text \<open>Filling a vector element by element, the way every trace is built.\<close>

lemma fill_ok: "vok v \<Longrightarrow> vok (fold push xs v)"
  by (rule fold_invariant_list) (auto intro: push_ok)

lemma fill_list: "vok v \<Longrightarrow> vlist (fold push xs v) = vlist v @ xs"
  by (induction xs arbitrary: v) (simp_all add: push_ok push_list)

lemma fill_new: "vok (fold push xs new)" "vlist (fold push xs new) = xs"
  by (simp_all add: fill_ok fill_list new_ok new_list)

lemma fill_index: "i < length xs \<Longrightarrow> vindex (fold push xs new) i = Some (xs ! i)"
  using index_list [OF fill_ok [OF new_ok]] size_list [OF fill_ok [OF new_ok]]
  by (simp add: fill_list new_ok new_list)

lemma read_back: "vok v \<Longrightarrow> map (\<lambda>i. the (vindex v i)) [0 ..< vsize v] = vlist v"
  by (rule nth_equalityI) (simp_all add: size_list index_list)

end

subsection \<open>The implementation meets the contract\<close>

lemma take_all_Some: "None \<notin> set xs \<Longrightarrow> map (Some \<circ> the) xs = xs"
  by (induction xs) auto

lemma fv_push_back_ok: "fv_ok v \<Longrightarrow> fv_ok (fv_push_back x v)"
  by (auto simp: fv_ok_def fv_push_back_def Let_def realloc_cells_def take_Suc_conv_app_nth
      list_update_append split: if_splits)

lemma fv_push_back_list: "fv_ok v \<Longrightarrow> fv_list (fv_push_back x v) = fv_list v @ [x]"
  by (auto simp: fv_ok_def fv_list_def fv_push_back_def Let_def realloc_cells_def
      take_Suc_conv_app_nth list_update_append)

lemma fv_append_is_arr: "fv_append inp v = fv_append_arr (arr_vector inp) (fv_size inp) v"
  by (simp add: fv_append_def fv_append_arr_def)

lemma fv_append_arr_list:
  assumes "fv_ok v" "n \<le> length inp" "None \<notin> set (take n inp)"
  shows "fv_ok (fv_append_arr inp n v) \<and>
    fv_list (fv_append_arr inp n v) = fv_list v @ map the (take n inp)"
  using assms
  by (auto simp: fv_ok_def fv_list_def fv_append_arr_def Let_def realloc_cells_def memcpy_cells_def
      min_def)

lemma fv_append_list:
  assumes "fv_ok v" "fv_ok inp"
  shows "fv_ok (fv_append inp v) \<and> fv_list (fv_append inp v) = fv_list v @ fv_list inp"
  using fv_append_arr_list [of v "fv_size inp" "arr_vector inp"] assms
  by (auto simp: fv_append_is_arr fv_list_def fv_size_def fv_ok_def)

interpretation fv: vector_spec fv_new fv_push_back fv_append fv_clear fv_size fv_index fv_list fv_ok
proof unfold_locales
  fix v w :: "'a FastVector" and i x
  show "fv_ok (fv_new :: 'a FastVector)" "fv_list (fv_new :: 'a FastVector) = []"
    by (simp_all add: fv_new_def fv_ok_def fv_list_def malloc_cells_def)
  assume ok: "fv_ok v"
  then show "fv_ok (fv_push_back x v)" "fv_list (fv_push_back x v) = fv_list v @ [x]"
    by (simp_all add: fv_push_back_ok fv_push_back_list)
  show "fv_ok (fv_clear v)" "fv_list (fv_clear v) = []"
    using ok by (auto simp: fv_clear_def fv_ok_def fv_list_def realloc_cells_def)
  show "fv_size v = length (fv_list v)"
    using ok by (simp add: fv_size_def fv_list_def fv_ok_def)
  show "fv_index v i = Some (fv_list v ! i)" if "i < fv_size v"
  proof -
    have "arr_vector v ! i \<noteq> None"
      using ok that by (fastforce simp: fv_ok_def fv_size_def in_set_conv_nth)
    with ok that show ?thesis
      by (auto simp: fv_index_def fv_list_def fv_size_def fv_ok_def)
  qed
  assume "fv_ok w"
  with ok show "fv_ok (fv_append w v)" "fv_list (fv_append w v) = fv_list v @ fv_list w"
    by (simp_all add: fv_append_list)
qed

end
