(* ===== verification/Trace.thy ===== *)
theory Trace
  imports Fast_Vector
begin

text \<open>
  Trace entries: the \<open>MetadataType\<close> and \<open>Metadata\<close> of \<open>src/include/pmtest.hh\<close> and the twelve
  \<open>C_createMetadata_*\<close> functions of \<open>src/src/pmtest.cc\<close> that append one entry to the trace of the
  calling thread.

  \<open>new Metadata\<close> does not initialise the structure, so every creator takes the storage \<open>m0\<close> it
  was given and leaves the fields the code does not assign as they were. The \<open>size_t\<close>
  argument is stored in an \<open>unsigned int\<close> field, which keeps its low 32 bits.
\<close>

subsection \<open>Entries\<close>

datatype MetadataType =
    ASSIGN | FLUSH | COMMIT | BARRIER | FENCE | PERSIST | ORDER | TRANSACTIONDELIM | ENDING
  | TRANSACTIONBEGIN | TRANSACTIONEND | TRANSACTIONADD | EXCLUDE | INCLUDE

definition FILENAME_LEN :: nat where
  "FILENAME_LEN = 48"

record Metadata =
  addr :: address
  addr_late :: address
  mtype :: MetadataType
  msize :: u32
  msize_late :: u32
  line_num :: u32
  file_name :: "char list"

subsection \<open>The file name field\<close>

abbreviation NUL :: char where
  "NUL \<equiv> CHR 0x00"

text \<open>\<open>strncpy\<close> copies at most \<open>n\<close> characters and pads with NUL; no terminator if none fits.\<close>

definition strncpy :: "nat \<Rightarrow> string \<Rightarrow> char list" where
  "strncpy n s = take n s @ replicate (n - length s) NUL"

definition file_offset :: "string \<Rightarrow> int" where
  "file_offset s = sint (ucast ((of_nat (length s) :: u64) - of_nat FILENAME_LEN) :: u32)"

definition copy_file_name :: "string \<Rightarrow> char list" where
  "copy_file_name s =
     strncpy FILENAME_LEN (drop (if 0 < file_offset s then nat (file_offset s) else 0) s)"

text \<open>The report code copies the field into \<open>filename_temp\<close> and terminates it before printing.\<close>

definition printed_name :: "Metadata \<Rightarrow> string" where
  "printed_name m = takeWhile (\<lambda>c. c \<noteq> NUL) (file_name m @ [NUL])"

subsection \<open>Creators\<close>

definition site :: "string \<Rightarrow> u32 \<Rightarrow> Metadata \<Rightarrow> Metadata" where
  "site file line m = m\<lparr>line_num := line, file_name := copy_file_name file\<rparr>"

definition ranged :: "MetadataType \<Rightarrow> address \<Rightarrow> u64 \<Rightarrow> Metadata \<Rightarrow> Metadata" where
  "ranged t a n m = m\<lparr>mtype := t, addr := a, msize := ucast n\<rparr>"

definition C_createMetadata_Assign ::
  "bool \<Rightarrow> Metadata \<Rightarrow> Metadata FastVector \<Rightarrow> address \<Rightarrow> u64 \<Rightarrow> string \<Rightarrow> u32 \<Rightarrow> Metadata FastVector" where
  "C_createMetadata_Assign existVeriInstance m0 vec a n file line =
     (if existVeriInstance then fv_push_back (site file line (ranged ASSIGN a n m0)) vec else vec)"

definition C_createMetadata_Flush ::
  "bool \<Rightarrow> Metadata \<Rightarrow> Metadata FastVector \<Rightarrow> address \<Rightarrow> u64 \<Rightarrow> string \<Rightarrow> u32 \<Rightarrow> Metadata FastVector" where
  "C_createMetadata_Flush existVeriInstance m0 vec a n file line =
     (if existVeriInstance then fv_push_back (site file line (ranged FLUSH a n m0)) vec else vec)"

definition C_createMetadata_Commit ::
  "bool \<Rightarrow> Metadata \<Rightarrow> Metadata FastVector \<Rightarrow> string \<Rightarrow> u32 \<Rightarrow> Metadata FastVector" where
  "C_createMetadata_Commit existVeriInstance m0 vec file line =
     (if existVeriInstance then fv_push_back (site file line (m0\<lparr>mtype := COMMIT\<rparr>)) vec else vec)"

definition C_createMetadata_Barrier ::
  "bool \<Rightarrow> Metadata \<Rightarrow> Metadata FastVector \<Rightarrow> string \<Rightarrow> u32 \<Rightarrow> Metadata FastVector" where
  "C_createMetadata_Barrier existVeriInstance m0 vec file line =
     (if existVeriInstance then fv_push_back (site file line (m0\<lparr>mtype := BARRIER\<rparr>)) vec else vec)"

definition C_createMetadata_Fence ::
  "bool \<Rightarrow> Metadata \<Rightarrow> Metadata FastVector \<Rightarrow> string \<Rightarrow> u32 \<Rightarrow> Metadata FastVector" where
  "C_createMetadata_Fence existVeriInstance m0 vec file line =
     (if existVeriInstance then fv_push_back (site file line (m0\<lparr>mtype := FENCE\<rparr>)) vec else vec)"

definition C_createMetadata_Persist ::
  "bool \<Rightarrow> Metadata \<Rightarrow> Metadata FastVector \<Rightarrow> address \<Rightarrow> u64 \<Rightarrow> string \<Rightarrow> u32 \<Rightarrow> Metadata FastVector" where
  "C_createMetadata_Persist existVeriInstance m0 vec a n file line =
     (if existVeriInstance then fv_push_back (site file line (ranged PERSIST a n m0)) vec else vec)"

definition C_createMetadata_Order ::
  "bool \<Rightarrow> Metadata \<Rightarrow> Metadata FastVector \<Rightarrow> address \<Rightarrow> u64 \<Rightarrow> address \<Rightarrow> u64 \<Rightarrow> string \<Rightarrow> u32 \<Rightarrow>
   Metadata FastVector" where
  "C_createMetadata_Order existVeriInstance m0 vec a n a_late n_late file line =
     (if existVeriInstance
      then fv_push_back (site file line
             ((ranged ORDER a n m0)\<lparr>addr_late := a_late, msize_late := ucast n_late\<rparr>)) vec
      else vec)"

definition C_createMetadata_TransactionBegin ::
  "bool \<Rightarrow> Metadata \<Rightarrow> Metadata FastVector \<Rightarrow> string \<Rightarrow> u32 \<Rightarrow> Metadata FastVector" where
  "C_createMetadata_TransactionBegin existVeriInstance m0 vec file line =
     (if existVeriInstance
      then fv_push_back (site file line (m0\<lparr>mtype := TRANSACTIONBEGIN\<rparr>)) vec else vec)"

definition C_createMetadata_TransactionEnd ::
  "bool \<Rightarrow> Metadata \<Rightarrow> Metadata FastVector \<Rightarrow> string \<Rightarrow> u32 \<Rightarrow> Metadata FastVector" where
  "C_createMetadata_TransactionEnd existVeriInstance m0 vec file line =
     (if existVeriInstance
      then fv_push_back (site file line (m0\<lparr>mtype := TRANSACTIONEND\<rparr>)) vec else vec)"

definition C_createMetadata_TransactionAdd ::
  "bool \<Rightarrow> Metadata \<Rightarrow> Metadata FastVector \<Rightarrow> address \<Rightarrow> u64 \<Rightarrow> string \<Rightarrow> u32 \<Rightarrow> Metadata FastVector" where
  "C_createMetadata_TransactionAdd existVeriInstance m0 vec a n file line =
     (if existVeriInstance
      then fv_push_back (site file line (ranged TRANSACTIONADD a n m0)) vec else vec)"

text \<open>The bodies of the last two are compiled only under \<open>PMTEST_EXCLUDE\<close>.\<close>

definition C_createMetadata_Exclude ::
  "bool \<Rightarrow> bool \<Rightarrow> Metadata \<Rightarrow> Metadata FastVector \<Rightarrow> address \<Rightarrow> u64 \<Rightarrow> string \<Rightarrow> u32 \<Rightarrow>
   Metadata FastVector" where
  "C_createMetadata_Exclude pmtest_exclude existVeriInstance m0 vec a n file line =
     (if pmtest_exclude \<and> existVeriInstance
      then fv_push_back (site file line (ranged EXCLUDE a n m0)) vec else vec)"

definition C_createMetadata_Include ::
  "bool \<Rightarrow> bool \<Rightarrow> Metadata \<Rightarrow> Metadata FastVector \<Rightarrow> address \<Rightarrow> u64 \<Rightarrow> string \<Rightarrow> u32 \<Rightarrow>
   Metadata FastVector" where
  "C_createMetadata_Include pmtest_exclude existVeriInstance m0 vec a n file line =
     (if pmtest_exclude \<and> existVeriInstance
      then fv_push_back (site file line (ranged INCLUDE a n m0)) vec else vec)"

lemmas create_defs =
  C_createMetadata_Assign_def C_createMetadata_Flush_def C_createMetadata_Commit_def
  C_createMetadata_Barrier_def C_createMetadata_Fence_def C_createMetadata_Persist_def
  C_createMetadata_Order_def C_createMetadata_TransactionBegin_def
  C_createMetadata_TransactionEnd_def C_createMetadata_TransactionAdd_def
  C_createMetadata_Exclude_def C_createMetadata_Include_def

subsection \<open>What is printed\<close>

lemma file_offset_small:
  assumes "length s < 2 ^ 31"
  shows "file_offset s = int (length s) - 48"
proof -
  have "of_nat (length s) - of_nat FILENAME_LEN = (word_of_int (int (length s) - 48) :: u64)"
    by (simp add: FILENAME_LEN_def)
  then have "file_offset s = signed_take_bit 31 (uint (word_of_int (int (length s) - 48) :: u64))"
    by (simp only: file_offset_def signed_ucast_eq) simp
  also have "\<dots> = signed_take_bit 31 (int (length s) - 48)"
    by (simp only: uint_word_of_int_eq signed_take_bit_take_bit) simp
  also have "\<dots> = int (length s) - 48"
    using assms by (simp add: signed_take_bit_int_eq_self)
  finally show ?thesis .
qed

lemma takeWhile_not_NUL_pad:
  "NUL \<notin> set s \<Longrightarrow> takeWhile (\<lambda>c. c \<noteq> NUL) (s @ replicate n NUL @ [NUL]) = s"
  by (cases n) (auto simp: takeWhile_tail takeWhile_eq_all_conv)

lemma printed_name_site:
  assumes "length file < 2 ^ 31" "NUL \<notin> set file"
  shows "printed_name (site file line m) = drop (length file - 48) file"
proof -
  let ?d = "drop (length file - 48) file"
  have "copy_file_name file = take 48 ?d @ replicate (48 - length ?d) NUL"
    using file_offset_small [OF assms(1)]
    by (cases "48 < length file") (simp_all add: copy_file_name_def strncpy_def FILENAME_LEN_def nat_diff_distrib)
  moreover have "take 48 ?d = ?d" by simp
  moreover have "NUL \<notin> set ?d" using assms(2) in_set_dropD by metis
  ultimately show ?thesis
    using takeWhile_not_NUL_pad [of ?d] by (simp add: printed_name_def site_def)
qed

end
