(* ===== verification/Engine.thy ===== *)
theory Engine
  imports Icl Trace
begin

text \<open>
  The checking engine: \<open>PMTest::VeriProc\<close> of \<open>src/src/pmtest.cc\<close> and the handlers it calls, one
  definition each. Every local container of \<open>VeriProc\<close> is a field of the record \<open>vstate\<close>;
  what the handlers print is appended to \<open>stdout\<close> (the last message goes to \<open>std::cerr\<close>). The two compile-time switches of the build,
  \<open>PMTEST_EXCLUDE\<close> and \<open>PMTEST_WARN\<close>, are fields of \<open>config\<close>. The \<open>LOG\<close> calls print nothing in the
  default build and are left out. The operations of the interval containers come from the
  record \<open>C\<close> (theory \<open>Icl\<close>).

  Timestamps and the transaction depth are C \<open>int\<close>s; they are mathematical integers here, and the
  bounds lemmas of \<open>Engine_Spec\<close> show that they cannot leave the range of \<open>int\<close> on a trace whose
  length fits an \<open>int\<close>. \<open>VeriProc_TransactionEnd\<close> also writes \<open>_PERSIST\<close> into the \<open>type\<close> field of the
  entries it checks; these entries have been processed and no handler reads the field again.
\<close>

record config =
  pmtest_exclude :: bool
  pmtest_warn :: bool

datatype report =
    AssignError string u32 address address
  | FlushWarning string u32 address address
  | PersistError string u32 address address
  | OrderError string u32 address address address address
  | OrderUnassigned string u32
  | TransactionAddWarning string u32 address address
  | TransactionEndError

record ('s, 'm) vstate =
  ExcludeInfo :: 's
  PersistInfo :: 's
  TransactionAddInfo :: 's
  OrderInfo :: 'm
  TransactionPersistInfo :: "Metadata FastVector"
  timestamp :: int
  transactionCount :: int
  stdout :: "report list"

definition emit :: "report \<Rightarrow> ('s, 'm) vstate \<Rightarrow> ('s, 'm) vstate" where
  "emit r st = st\<lparr>stdout := stdout st @ [r]\<rparr>"

subsection \<open>Timestamps\<close>

definition INT_MAX :: int where
  "INT_MAX = 2 ^ 31 - 1"

definition timestamp_atleast :: "int \<Rightarrow> int" where
  "timestamp_atleast t = (if 0 \<le> t then - t else t)"

definition timestamp_exactly :: "int \<Rightarrow> int" where
  "timestamp_exactly t = (if t \<le> 0 then - t else t)"

definition timestamp_isexacttime :: "int \<Rightarrow> bool" where
  "timestamp_isexacttime t \<longleftrightarrow> 0 \<le> t"

subsection \<open>Handlers\<close>

definition excluded :: "('s, 'm) containers \<Rightarrow> config \<Rightarrow> ('s, 'm) vstate \<Rightarrow> ival \<Rightarrow> bool" where
  "excluded C cfg st i \<longleftrightarrow> pmtest_exclude cfg \<and> iset_find C (ExcludeInfo st) i \<noteq> None"

definition VeriProc_Assign ::
  "('s, 'm) containers \<Rightarrow> config \<Rightarrow> Metadata \<Rightarrow> ('s, 'm) vstate \<Rightarrow> int \<times> ('s, 'm) vstate" where
  "VeriProc_Assign C cfg cur st =
     (if 0 < msize cur then
        let i = range_of (addr cur) (msize cur) in
        if excluded C cfg st i then (-2, st)
        else
          let st1 = st\<lparr>PersistInfo := iset_add C (PersistInfo st) i,
                       OrderInfo := imap_add C (OrderInfo st) i (timestamp_atleast (timestamp st))\<rparr>
          in if 0 < transactionCount st1 then
               let st2 = st1\<lparr>TransactionPersistInfo :=
                               fv_push_back cur (TransactionPersistInfo st1)\<rparr>
               in if iset_find C (TransactionAddInfo st2) i = None
                  then (-1, emit (AssignError (printed_name cur) (line_num cur) (fst i) (snd i)) st2)
                  else (0, st2)
             else (0, st1)
      else (0, st))"

definition VeriProc_Flush ::
  "('s, 'm) containers \<Rightarrow> config \<Rightarrow> Metadata \<Rightarrow> ('s, 'm) vstate \<Rightarrow> int \<times> ('s, 'm) vstate" where
  "VeriProc_Flush C cfg cur st =
     (if 0 < msize cur then
        let i = range_of (addr cur) (msize cur) in
        if excluded C cfg st i then (-2, st)
        else
          let st1 = (if pmtest_warn cfg \<and> iset_find C (PersistInfo st) i = None
                     then emit (FlushWarning (printed_name cur) (line_num cur) (fst i) (snd i)) st
                     else st\<lparr>PersistInfo := iset_sub C (PersistInfo st) i\<rparr>)
          in (0, st1\<lparr>OrderInfo := imap_add C (OrderInfo st1) i (timestamp_exactly (timestamp st1))\<rparr>)
      else (0, st))"

definition VeriProc_Fence :: "Metadata \<Rightarrow> ('s, 'm) vstate \<Rightarrow> int \<times> ('s, 'm) vstate" where
  "VeriProc_Fence cur st = (0, st\<lparr>timestamp := timestamp st + 1\<rparr>)"

definition VeriProc_Persist ::
  "('s, 'm) containers \<Rightarrow> config \<Rightarrow> Metadata \<Rightarrow> ('s, 'm) vstate \<Rightarrow> int \<times> ('s, 'm) vstate" where
  "VeriProc_Persist C cfg cur st =
     (if 0 < msize cur then
        let i = range_of (addr cur) (msize cur) in
        if excluded C cfg st i then (-2, st)
        else (case iset_find C (PersistInfo st) i of
                Some j \<Rightarrow> (-1, emit (PersistError (printed_name cur) (line_num cur)
                                       (max (fst i) (fst j)) (min (snd i) (snd j))) st)
              | None \<Rightarrow> (0, st))
      else (0, st))"

fun early_max_loop :: "int list \<Rightarrow> int \<Rightarrow> int" where
  "early_max_loop [] early_max = early_max"
| "early_max_loop (v # vs) early_max =
     (if \<not> timestamp_isexacttime v then INT_MAX else early_max_loop vs (max early_max v))"

fun late_min_loop :: "int list \<Rightarrow> int \<Rightarrow> int" where
  "late_min_loop [] late_min = late_min"
| "late_min_loop (v # vs) late_min = late_min_loop vs (min late_min (timestamp_exactly v))"

definition VeriProc_Order ::
  "('s, 'm) containers \<Rightarrow> config \<Rightarrow> Metadata \<Rightarrow> ('s, 'm) vstate \<Rightarrow> int \<times> ('s, 'm) vstate" where
  "VeriProc_Order C cfg cur st =
     (if 0 < msize cur \<and> 0 < msize_late cur then
        let i = range_of (addr cur) (msize cur);
            i_late = range_of (addr_late cur) (msize_late cur)
        in if excluded C cfg st i then (-2, st)
           else if excluded C cfg st i_late then (-2, st)
           else if imap_within C i (OrderInfo st) \<and> imap_within C i_late (OrderInfo st) then
             let early_max = early_max_loop (imap_values C i (OrderInfo st)) 0;
                 late_min = late_min_loop (imap_values C i_late (OrderInfo st)) INT_MAX
             in if late_min \<le> early_max
                then (-1, emit (OrderError (printed_name cur) (line_num cur)
                                   (fst i) (snd i) (fst i_late) (snd i_late)) st)
                else (0, st)
           else (-1, emit (OrderUnassigned (printed_name cur) (line_num cur)) st)
      else (0, st))"

definition VeriProc_TransactionBegin :: "Metadata \<Rightarrow> ('s, 'm) vstate \<Rightarrow> ('s, 'm) vstate" where
  "VeriProc_TransactionBegin cur st =
     (let st1 = (if transactionCount st = 0
                 then st\<lparr>TransactionPersistInfo := fv_clear (TransactionPersistInfo st)\<rparr> else st)
      in st1\<lparr>transactionCount := transactionCount st1 + 1\<rparr>)"

definition VeriProc_TransactionEnd ::
  "('s, 'm) containers \<Rightarrow> config \<Rightarrow> Metadata \<Rightarrow> ('s, 'm) vstate \<Rightarrow> ('s, 'm) vstate" where
  "VeriProc_TransactionEnd C cfg cur st =
     (let st1 = st\<lparr>transactionCount := transactionCount st - 1\<rparr>
      in if transactionCount st1 = 0
         then fold (\<lambda>i s. snd (VeriProc_Persist C cfg
                ((the (fv_index (TransactionPersistInfo st1) i))\<lparr>mtype := PERSIST\<rparr>) s))
                [0 ..< fv_size (TransactionPersistInfo st1)] st1
         else st1)"

definition VeriProc_TransactionAdd ::
  "('s, 'm) containers \<Rightarrow> config \<Rightarrow> Metadata \<Rightarrow> ('s, 'm) vstate \<Rightarrow> ('s, 'm) vstate" where
  "VeriProc_TransactionAdd C cfg cur st =
     (if 0 < transactionCount st \<and> 0 < msize cur then
        let i = range_of (addr cur) (msize cur);
            st1 = (if pmtest_warn cfg \<and> iset_find C (TransactionAddInfo st) i \<noteq> None
                   then emit (TransactionAddWarning (printed_name cur) (line_num cur)
                                 (fst i) (snd i)) st
                   else st)
        in st1\<lparr>TransactionAddInfo := iset_add C (TransactionAddInfo st1) i\<rparr>
      else st)"

definition VeriProc_Exclude ::
  "('s, 'm) containers \<Rightarrow> Metadata \<Rightarrow> ('s, 'm) vstate \<Rightarrow> ('s, 'm) vstate" where
  "VeriProc_Exclude C cur st =
     (if 0 < msize cur
      then st\<lparr>ExcludeInfo := iset_add C (ExcludeInfo st) (range_of (addr cur) (msize cur))\<rparr>
      else st)"

definition VeriProc_Include ::
  "('s, 'm) containers \<Rightarrow> Metadata \<Rightarrow> ('s, 'm) vstate \<Rightarrow> ('s, 'm) vstate" where
  "VeriProc_Include C cur st =
     (if 0 < msize cur
      then st\<lparr>ExcludeInfo := iset_sub C (ExcludeInfo st) (range_of (addr cur) (msize cur))\<rparr>
      else st)"

subsection \<open>The main loop\<close>

text \<open>The \<open>switch\<close> over the entries of a frame that is closed by a fence.\<close>

definition veri_step ::
  "('s, 'm) containers \<Rightarrow> config \<Rightarrow> Metadata \<Rightarrow> ('s, 'm) vstate \<Rightarrow> ('s, 'm) vstate" where
  "veri_step C cfg m st =
     (case mtype m of
        ASSIGN \<Rightarrow> snd (VeriProc_Assign C cfg m st)
      | FLUSH \<Rightarrow> snd (VeriProc_Flush C cfg m st)
      | FENCE \<Rightarrow> snd (VeriProc_Fence m st)
      | PERSIST \<Rightarrow> snd (VeriProc_Persist C cfg m st)
      | ORDER \<Rightarrow> snd (VeriProc_Order C cfg m st)
      | TRANSACTIONBEGIN \<Rightarrow> VeriProc_TransactionBegin m st
      | TRANSACTIONEND \<Rightarrow> VeriProc_TransactionEnd C cfg m st
      | TRANSACTIONADD \<Rightarrow> VeriProc_TransactionAdd C cfg m st
      | EXCLUDE \<Rightarrow> VeriProc_Exclude C m st
      | INCLUDE \<Rightarrow> VeriProc_Include C m st
      | _ \<Rightarrow> st)"

text \<open>The second \<open>switch\<close>, over the entries after the last fence: flushes do nothing.\<close>

definition veri_tail_step ::
  "('s, 'm) containers \<Rightarrow> config \<Rightarrow> Metadata \<Rightarrow> ('s, 'm) vstate \<Rightarrow> ('s, 'm) vstate" where
  "veri_tail_step C cfg m st = (if mtype m = FLUSH then st else veri_step C cfg m st)"

text \<open>The outer \<open>for\<close> loop: \<open>prev\<close> is the start of the open frame.\<close>

function veri_frames ::
  "('s, 'm) containers \<Rightarrow> config \<Rightarrow> Metadata list \<Rightarrow> nat \<Rightarrow> nat \<Rightarrow> ('s, 'm) vstate \<Rightarrow>
   nat \<times> ('s, 'm) vstate" where
  "veri_frames C cfg tr prev cur st =
     (if cur < length tr then
        if mtype (tr ! cur) = FENCE
        then veri_frames C cfg tr cur (Suc cur)
               (fold (\<lambda>i. veri_step C cfg (tr ! i)) [prev ..< cur] st)
        else veri_frames C cfg tr prev (Suc cur) st
      else (prev, st))"
  by pat_completeness auto
termination
  by (relation "measure (\<lambda>(C, cfg, tr, prev, cur, st). length tr - cur)") auto

declare veri_frames.simps [simp del]

definition veri_init :: "('s, 'm) containers \<Rightarrow> ('s, 'm) vstate" where
  "veri_init C =
     \<lparr>ExcludeInfo = iset_new C, PersistInfo = iset_new C, TransactionAddInfo = iset_new C,
      OrderInfo = imap_new C, TransactionPersistInfo = fv_new, timestamp = 1,
      transactionCount = 0, stdout = []\<rparr>"

definition veri_finish :: "('s, 'm) vstate \<Rightarrow> ('s, 'm) vstate" where
  "veri_finish st = (if 0 < transactionCount st then emit TransactionEndError st else st)"

definition VeriProc ::
  "('s, 'm) containers \<Rightarrow> config \<Rightarrow> Metadata FastVector \<Rightarrow> ('s, 'm) vstate" where
  "VeriProc C cfg veriptr =
     (let tr = map (\<lambda>i. the (fv_index veriptr i)) [0 ..< fv_size veriptr];
          (prev, st) = veri_frames C cfg tr 0 0 (veri_init C)
      in veri_finish (fold (\<lambda>i. veri_tail_step C cfg (tr ! i)) [prev ..< length tr] st))"

lemmas handler_defs [engine_defs] =
  VeriProc_Assign_def VeriProc_Flush_def VeriProc_Fence_def VeriProc_Persist_def
  VeriProc_Order_def VeriProc_TransactionBegin_def VeriProc_TransactionAdd_def
  VeriProc_Exclude_def VeriProc_Include_def excluded_def emit_def

subsection \<open>Timestamps encode exactness in the sign\<close>

lemma timestamp_simps [simp]:
  "timestamp_exactly t = \<bar>t\<bar>" "timestamp_atleast t = - \<bar>t\<bar>" "timestamp_isexacttime t \<longleftrightarrow> 0 \<le> t"
  by (simp_all add: timestamp_exactly_def timestamp_atleast_def timestamp_isexacttime_def)

subsection \<open>The frame loop is a sequential run without the last flushes\<close>

text \<open>
  The entries that take effect: all up to the last fence, and after it all but the flushes.
\<close>

definition last_fence :: "Metadata list \<Rightarrow> nat" where
  "last_fence tr = length tr - length (takeWhile (\<lambda>m. mtype m \<noteq> FENCE) (rev tr)) - 1"

definition effective :: "Metadata list \<Rightarrow> Metadata list" where
  "effective tr =
     take (last_fence tr) tr @ filter (\<lambda>m. mtype m \<noteq> FLUSH) (drop (last_fence tr) tr)"

lemma last_fence_snoc:
  "last_fence (tr @ [m]) = (if mtype m = FENCE then length tr else last_fence tr)"
proof (cases "mtype m = FENCE")
  case False
  then show ?thesis by (simp add: last_fence_def)
qed (simp add: last_fence_def)

lemma last_fence_le: "last_fence tr \<le> length tr"
  by (simp add: last_fence_def)

lemma veri_frames_run:
  assumes "cur \<le> length tr" "prev \<le> cur" "prev = last_fence (take cur tr)"
  shows "veri_frames C cfg tr prev cur (fold (veri_step C cfg) (take prev tr) st) =
    (last_fence tr, fold (veri_step C cfg) (take (last_fence tr) tr) st)"
  using assms
proof (induction "length tr - cur" arbitrary: cur prev)
  case 0
  then show ?case by (simp add: veri_frames.simps)
next
  case (Suc n)
  then have cur: "cur < length tr" by simp
  have split: "take prev tr @ drop prev (take cur tr) = take cur tr"
    using Suc.prems by (metis append_take_drop_id min.absorb1 take_take)
  have "fold (\<lambda>i. veri_step C cfg (tr ! i)) [prev ..< cur]
      (fold (veri_step C cfg) (take prev tr) st) =
      fold (veri_step C cfg) (take prev tr @ drop prev (take cur tr)) st"
    using fold_nth_upt [OF Suc.prems(2,1), of "veri_step C cfg"] by simp
  note frame = this [unfolded split]
  have "last_fence (take (Suc cur) tr) = (if mtype (tr ! cur) = FENCE then cur else prev)"
    using cur Suc.prems(3) by (simp add: take_Suc_conv_app_nth last_fence_snoc)
  then show ?case
    using Suc.hyps(1) [of "Suc cur" cur] Suc.hyps(1) [of "Suc cur" prev] Suc.hyps(2) Suc.prems cur frame
    by (subst veri_frames.simps) auto
qed

lemma fold_tail_step:
  "fold (veri_tail_step C cfg) xs st = fold (veri_step C cfg) (filter (\<lambda>m. mtype m \<noteq> FLUSH) xs) st"
  by (induction xs arbitrary: st) (simp_all add: veri_tail_step_def)

lemma VeriProc_run:
  assumes "fv_ok v"
  shows "VeriProc C cfg v =
    veri_finish (fold (veri_step C cfg) (effective (fv_list v)) (veri_init C))"
proof -
  let ?tr = "fv_list v"
  have tr: "map (\<lambda>i. the (fv_index v i)) [0 ..< fv_size v] = ?tr"
    by (rule fv.read_back [OF assms])
  have "veri_frames C cfg ?tr 0 0 (veri_init C) =
      (last_fence ?tr, fold (veri_step C cfg) (take (last_fence ?tr) ?tr) (veri_init C))"
    using veri_frames_run [of 0 ?tr 0 C cfg "veri_init C"] by (simp add: last_fence_def)
  moreover have "fold (\<lambda>i. veri_tail_step C cfg (?tr ! i)) [last_fence ?tr ..< length ?tr] st =
      fold (veri_tail_step C cfg) (drop (last_fence ?tr) ?tr) st" for st
    using fold_nth_upt [of "last_fence ?tr" "length ?tr" ?tr] last_fence_le by simp
  ultimately show ?thesis
    by (simp add: VeriProc_def tr effective_def fold_tail_step Let_def)
qed

end
