(* ===== verification/Engine_Spec.thy ===== *)
theory Engine_Spec
  imports Engine
begin

text \<open>
  What the engine promises, byte by byte. The abstract state \<open>astate\<close> has no intervals: it holds
  the set of bytes that are modified and not written back, the set of logged bytes, the set of
  excluded bytes and a timestamp per byte. The first part shows that every handler
  implements the corresponding step of this specification on any interval containers that
  satisfy the locale \<open>icl\<close>. The second part reads the abstract state off the trace: the
  verdict on a byte is decided by the last assignment or flush that covers it and by the number of
  fences before it.
\<close>

subsection \<open>The byte-level specification\<close>

record astate =
  a_excl :: "address set"
  a_dirty :: "address set"
  a_logged :: "address set"
  a_stamp :: "address \<Rightarrow> int option"
  a_tx :: "Metadata list"
  a_now :: int
  a_depth :: int

definition bytes :: "Metadata \<Rightarrow> address set" where
  "bytes m = (if 0 < msize m then ival_set (range_of (addr m) (msize m)) else {})"

definition bytes_late :: "Metadata \<Rightarrow> address set" where
  "bytes_late m = (if 0 < msize_late m then ival_set (range_of (addr_late m) (msize_late m)) else {})"

text \<open>An entry takes part in the checking unless it is empty or meets an excluded byte.\<close>

definition tracked :: "config \<Rightarrow> astate \<Rightarrow> address set \<Rightarrow> bool" where
  "tracked cfg a B \<longleftrightarrow> B \<noteq> {} \<and> \<not> (pmtest_exclude cfg \<and> a_excl a \<inter> B \<noteq> {})"

definition mark :: "address set \<Rightarrow> int \<Rightarrow> (address \<Rightarrow> int option) \<Rightarrow> address \<Rightarrow> int option" where
  "mark B t f = (\<lambda>x. if x \<in> B then Some t else f x)"

definition spec_step :: "config \<Rightarrow> Metadata \<Rightarrow> astate \<Rightarrow> astate" where
  "spec_step cfg m a =
     (case mtype m of
        ASSIGN \<Rightarrow>
          if tracked cfg a (bytes m)
          then a\<lparr>a_dirty := a_dirty a \<union> bytes m, a_stamp := mark (bytes m) (- \<bar>a_now a\<bar>) (a_stamp a),
                 a_tx := (if 0 < a_depth a then a_tx a @ [m] else a_tx a)\<rparr>
          else a
      | FLUSH \<Rightarrow>
          if tracked cfg a (bytes m)
          then a\<lparr>a_dirty := a_dirty a - bytes m, a_stamp := mark (bytes m) \<bar>a_now a\<bar> (a_stamp a)\<rparr>
          else a
      | FENCE \<Rightarrow> a\<lparr>a_now := a_now a + 1\<rparr>
      | TRANSACTIONBEGIN \<Rightarrow>
          a\<lparr>a_tx := (if a_depth a = 0 then [] else a_tx a), a_depth := a_depth a + 1\<rparr>
      | TRANSACTIONEND \<Rightarrow> a\<lparr>a_depth := a_depth a - 1\<rparr>
      | TRANSACTIONADD \<Rightarrow>
          if 0 < a_depth a then a\<lparr>a_logged := a_logged a \<union> bytes m\<rparr> else a
      | EXCLUDE \<Rightarrow> a\<lparr>a_excl := a_excl a \<union> bytes m\<rparr>
      | INCLUDE \<Rightarrow> a\<lparr>a_excl := a_excl a - bytes m\<rparr>
      | _ \<Rightarrow> a)"

definition spec_init :: astate where
  "spec_init = \<lparr>a_excl = {}, a_dirty = {}, a_logged = {}, a_stamp = Map.empty, a_tx = [],
                a_now = 1, a_depth = 0\<rparr>"

text \<open>The verdicts of the two checkers on the abstract state.\<close>

definition persist_ok :: "astate \<Rightarrow> address set \<Rightarrow> bool" where
  "persist_ok a B \<longleftrightarrow> a_dirty a \<inter> B = {}"

definition order_ok :: "astate \<Rightarrow> address set \<Rightarrow> address set \<Rightarrow> bool" where
  "order_ok a E L \<longleftrightarrow>
     (\<forall>x\<in>E. \<exists>s. a_stamp a x = Some s \<and> 0 \<le> s \<and>
        (\<forall>y\<in>L. \<exists>t. a_stamp a y = Some t \<and> s < \<bar>t\<bar>))"

subsection \<open>Abstraction and well-formed states\<close>

definition abs_state ::
  "('s \<Rightarrow> address set) \<Rightarrow> ('m \<Rightarrow> address \<Rightarrow> int option) \<Rightarrow> ('s, 'm) vstate \<Rightarrow> astate" where
  "abs_state aset amap st =
     \<lparr>a_excl = aset (ExcludeInfo st), a_dirty = aset (PersistInfo st),
      a_logged = aset (TransactionAddInfo st), a_stamp = amap (OrderInfo st),
      a_tx = fv_list (TransactionPersistInfo st), a_now = timestamp st,
      a_depth = transactionCount st\<rparr>"

text \<open>No access wraps around the end of the address space.\<close>

definition wf_entry :: "Metadata \<Rightarrow> bool" where
  "wf_entry m \<longleftrightarrow> no_wrap (addr m) (msize m) \<and>
     (mtype m = ORDER \<longrightarrow> no_wrap (addr_late m) (msize_late m))"

definition wf_vstate :: "('s \<Rightarrow> bool) \<Rightarrow> ('m \<Rightarrow> bool) \<Rightarrow> ('s, 'm) vstate \<Rightarrow> bool" where
  "wf_vstate wf_set wf_map st \<longleftrightarrow>
     wf_set (ExcludeInfo st) \<and> wf_set (PersistInfo st) \<and> wf_set (TransactionAddInfo st) \<and>
     wf_map (OrderInfo st) \<and> fv_ok (TransactionPersistInfo st) \<and>
     (\<forall>m\<in>set (fv_list (TransactionPersistInfo st)). no_wrap (addr m) (msize m))"

lemma bytes_nonempty:
  assumes "no_wrap (addr m) (msize m)" "0 < msize m"
  obtains l u where "range_of (addr m) (msize m) = (l, u)" "l < u" "bytes m = {l ..< u}"
  using range_nonempty [OF assms] assms(2) by (cases "range_of (addr m) (msize m)") (simp add: bytes_def)

lemma bytes_empty_iff: "no_wrap (addr m) (msize m) \<Longrightarrow> bytes m = {} \<longleftrightarrow> \<not> 0 < msize m"
  by (cases "0 < msize m") (auto simp: bytes_def elim: bytes_nonempty)

subsection \<open>Every handler implements its step\<close>

context icl
begin

abbreviation "good st \<equiv> wf_vstate wf_set wf_map st"
abbreviation "\<alpha> st \<equiv> abs_state aset amap st"

lemma init_good: "good (veri_init C)"
  by (simp add: wf_vstate_def veri_init_def new_wf fv.new_ok fv.new_list)

lemma init_abs: "\<alpha> (veri_init C) = spec_init"
  by (simp add: abs_state_def veri_init_def spec_init_def set_new map_new fv.new_list)

lemma excluded_iff:
  "good st \<Longrightarrow> l < u \<Longrightarrow> \<not> excluded C cfg st (l, u) \<longleftrightarrow> tracked cfg (\<alpha> st) {l ..< u}"
  by (auto simp: excluded_def tracked_def wf_vstate_def abs_state_def set_find_None)

lemma assign_step:
  assumes "good st" "no_wrap (addr m) (msize m)" "mtype m = ASSIGN"
  shows "good (snd (VeriProc_Assign C cfg m st)) \<and>
    \<alpha> (snd (VeriProc_Assign C cfg m st)) = spec_step cfg m (\<alpha> st)"
proof (cases "0 < msize m")
  case True
  obtain l u where r: "range_of (addr m) (msize m) = (l, u)" "l < u" "bytes m = {l ..< u}"
    using bytes_nonempty assms(2) True by blast
  show ?thesis
  proof (cases "excluded C cfg st (l, u)")
    case True
    with assms r show ?thesis
      using excluded_iff [OF assms(1) r(2), of cfg] \<open>0 < msize m\<close>
      by (simp add: VeriProc_Assign_def spec_step_def)
  next
    case False
    with assms r \<open>0 < msize m\<close> show ?thesis
      using excluded_iff [OF assms(1) r(2), of cfg]
      by (auto simp: VeriProc_Assign_def spec_step_def Let_def emit_def abs_state_def wf_vstate_def
          set_add map_add add_wf map_add_wf fv.push_ok fv.push_list mark_def)
  qed
next
  case False
  with assms show ?thesis
    by (simp add: VeriProc_Assign_def spec_step_def tracked_def bytes_def)
qed

lemma flush_step:
  assumes "good st" "no_wrap (addr m) (msize m)" "mtype m = FLUSH"
  shows "good (snd (VeriProc_Flush C cfg m st)) \<and>
    \<alpha> (snd (VeriProc_Flush C cfg m st)) = spec_step cfg m (\<alpha> st)"
proof (cases "0 < msize m")
  case True
  obtain l u where r: "range_of (addr m) (msize m) = (l, u)" "l < u" "bytes m = {l ..< u}"
    using bytes_nonempty assms(2) True by blast
  have untouched: "aset (PersistInfo st) - {l ..< u} = aset (PersistInfo st)"
    if "iset_find C (PersistInfo st) (l, u) = None"
    using that assms(1) set_find_None [OF _ r(2)] by (auto simp: wf_vstate_def)
  show ?thesis
  proof (cases "excluded C cfg st (l, u)")
    case True
    with assms r show ?thesis
      using excluded_iff [OF assms(1) r(2), of cfg] \<open>0 < msize m\<close>
      by (simp add: VeriProc_Flush_def spec_step_def)
  next
    case False
    with assms r \<open>0 < msize m\<close> show ?thesis
      using excluded_iff [OF assms(1) r(2), of cfg] untouched
      by (auto simp: VeriProc_Flush_def spec_step_def Let_def emit_def abs_state_def wf_vstate_def
          set_sub map_add sub_wf map_add_wf mark_def)
  qed
next
  case False
  with assms show ?thesis
    by (simp add: VeriProc_Flush_def spec_step_def tracked_def bytes_def)
qed

text \<open>The checkers print and return a code; they change nothing else.\<close>

lemma persist_state: "\<exists>out. snd (VeriProc_Persist C cfg m st) = st\<lparr>stdout := out\<rparr>"
  by (cases "iset_find C (PersistInfo st) (range_of (addr m) (msize m))")
    (auto simp: VeriProc_Persist_def Let_def emit_def intro: exI [of _ "stdout st"])

lemma order_state: "\<exists>out. snd (VeriProc_Order C cfg m st) = st\<lparr>stdout := out\<rparr>"
  by (auto simp: VeriProc_Order_def Let_def emit_def intro: exI [of _ "stdout st"])

lemma stdout_irrelevant [simp]: "good (st\<lparr>stdout := out\<rparr>) = good st" "\<alpha> (st\<lparr>stdout := out\<rparr>) = \<alpha> st"
  by (simp_all add: wf_vstate_def abs_state_def)

lemma persist_fold_state:
  "\<exists>out. fold (\<lambda>i s. snd (VeriProc_Persist C cfg (f i) s)) is st = st\<lparr>stdout := out\<rparr>"
proof (induction "is" arbitrary: st)
  case Nil
  then show ?case by (auto intro: exI [of _ "stdout st"])
next
  case (Cons i "is")
  then show ?case
    using persist_state [of cfg "f i" st] by (auto) (metis vstate.update_convs(8) vstate.surjective)
qed

lemma tx_end_step:
  assumes "good st" "mtype m = TRANSACTIONEND"
  shows "good (VeriProc_TransactionEnd C cfg m st) \<and>
    \<alpha> (VeriProc_TransactionEnd C cfg m st) = spec_step cfg m (\<alpha> st)"
proof -
  let ?st = "st\<lparr>transactionCount := transactionCount st - 1\<rparr>"
  have "\<exists>out. VeriProc_TransactionEnd C cfg m st = ?st\<lparr>stdout := out\<rparr>"
    using persist_fold_state [of cfg
        "\<lambda>i. (the (fv_index (TransactionPersistInfo ?st) i))\<lparr>mtype := PERSIST\<rparr>"
        "[0 ..< fv_size (TransactionPersistInfo ?st)]" ?st]
    by (cases "transactionCount st = 1")
      (auto simp: VeriProc_TransactionEnd_def Let_def intro: exI [of _ "stdout st"])
  then obtain out where "VeriProc_TransactionEnd C cfg m st = ?st\<lparr>stdout := out\<rparr>" ..
  with assms show ?thesis
    by (simp add: wf_vstate_def abs_state_def spec_step_def)
qed

lemma tx_add_step:
  assumes "good st" "no_wrap (addr m) (msize m)" "mtype m = TRANSACTIONADD"
  shows "good (VeriProc_TransactionAdd C cfg m st) \<and>
    \<alpha> (VeriProc_TransactionAdd C cfg m st) = spec_step cfg m (\<alpha> st)"
proof (cases "0 < msize m")
  case True
  obtain l u where r: "range_of (addr m) (msize m) = (l, u)" "l < u" "bytes m = {l ..< u}"
    using bytes_nonempty assms(2) True by blast
  with assms True show ?thesis
    by (auto simp: VeriProc_TransactionAdd_def spec_step_def Let_def emit_def abs_state_def
        wf_vstate_def set_add add_wf)
next
  case False
  with assms show ?thesis
    by (simp add: VeriProc_TransactionAdd_def spec_step_def bytes_def abs_state_def)
qed

lemma exclude_step:
  assumes "good st" "no_wrap (addr m) (msize m)" "mtype m = EXCLUDE"
  shows "good (VeriProc_Exclude C m st) \<and> \<alpha> (VeriProc_Exclude C m st) = spec_step cfg m (\<alpha> st)"
proof (cases "0 < msize m")
  case True
  obtain l u where r: "range_of (addr m) (msize m) = (l, u)" "l < u" "bytes m = {l ..< u}"
    using bytes_nonempty assms(2) True by blast
  with assms True show ?thesis
    by (simp add: VeriProc_Exclude_def spec_step_def abs_state_def wf_vstate_def set_add add_wf)
next
  case False
  with assms show ?thesis
    by (simp add: VeriProc_Exclude_def spec_step_def abs_state_def bytes_def)
qed

lemma include_step:
  assumes "good st" "no_wrap (addr m) (msize m)" "mtype m = INCLUDE"
  shows "good (VeriProc_Include C m st) \<and> \<alpha> (VeriProc_Include C m st) = spec_step cfg m (\<alpha> st)"
proof (cases "0 < msize m")
  case True
  obtain l u where r: "range_of (addr m) (msize m) = (l, u)" "l < u" "bytes m = {l ..< u}"
    using bytes_nonempty assms(2) True by blast
  with assms True show ?thesis
    by (simp add: VeriProc_Include_def spec_step_def abs_state_def wf_vstate_def set_sub sub_wf)
next
  case False
  with assms show ?thesis
    by (simp add: VeriProc_Include_def spec_step_def abs_state_def bytes_def)
qed

lemma tx_begin_step:
  assumes "good st" "mtype m = TRANSACTIONBEGIN"
  shows "good (VeriProc_TransactionBegin m st) \<and>
    \<alpha> (VeriProc_TransactionBegin m st) = spec_step cfg m (\<alpha> st)"
  using assms by (auto simp: VeriProc_TransactionBegin_def spec_step_def abs_state_def wf_vstate_def
      fv.clear_ok fv.clear_list Let_def)

lemma veri_step_refines:
  assumes "good st" "no_wrap (addr m) (msize m)"
  shows "good (veri_step C cfg m st) \<and> \<alpha> (veri_step C cfg m st) = spec_step cfg m (\<alpha> st)"
proof (cases "mtype m")
  case FENCE
  with assms show ?thesis
    by (simp add: veri_step_def VeriProc_Fence_def spec_step_def wf_vstate_def abs_state_def)
next
  case PERSIST
  with assms persist_state [of cfg m st] show ?thesis
    by (auto simp: veri_step_def spec_step_def)
next
  case ORDER
  with assms order_state [of cfg m st] show ?thesis
    by (auto simp: veri_step_def spec_step_def)
next
  case ASSIGN
  with assms assign_step show ?thesis by (simp add: veri_step_def)
next
  case FLUSH
  with assms flush_step show ?thesis by (simp add: veri_step_def)
next
  case TRANSACTIONBEGIN
  with assms tx_begin_step show ?thesis by (simp add: veri_step_def)
next
  case TRANSACTIONEND
  with assms tx_end_step show ?thesis by (simp add: veri_step_def)
next
  case TRANSACTIONADD
  with assms tx_add_step show ?thesis by (simp add: veri_step_def)
next
  case EXCLUDE
  with assms exclude_step show ?thesis by (simp add: veri_step_def)
next
  case INCLUDE
  with assms include_step show ?thesis by (simp add: veri_step_def)
qed (use assms in \<open>simp_all add: veri_step_def spec_step_def\<close>)

lemma run_refines:
  assumes "good st" "\<forall>m\<in>set es. no_wrap (addr m) (msize m)"
  shows "good (fold (veri_step C cfg) es st) \<and>
    \<alpha> (fold (veri_step C cfg) es st) = fold (spec_step cfg) es (\<alpha> st)"
  using assms by (induction es arbitrary: st) (auto simp: veri_step_refines)

subsection \<open>The verdicts of the checkers\<close>

lemma persist_verdict:
  assumes "good st" "no_wrap (addr m) (msize m)"
  shows "fst (VeriProc_Persist C cfg m st) =
    (if bytes m = {} then 0 else if \<not> tracked cfg (\<alpha> st) (bytes m) then -2
     else if persist_ok (\<alpha> st) (bytes m) then 0 else -1)"
proof (cases "0 < msize m")
  case True
  obtain l u where r: "range_of (addr m) (msize m) = (l, u)" "l < u" "bytes m = {l ..< u}"
    using bytes_nonempty assms(2) True by blast
  then have "iset_find C (PersistInfo st) (l, u) = None \<longleftrightarrow> persist_ok (\<alpha> st) {l ..< u}"
    using assms(1) by (simp add: set_find_None persist_ok_def abs_state_def wf_vstate_def)
  with r True excluded_iff [OF assms(1) r(2), of cfg] show ?thesis
    by (auto simp: VeriProc_Persist_def split: option.splits)
next
  case False
  then show ?thesis by (simp add: VeriProc_Persist_def bytes_def)
qed

lemma early_max_loop_less:
  "k \<le> INT_MAX \<Longrightarrow> early_max_loop vs acc < k \<longleftrightarrow> acc < k \<and> (\<forall>v\<in>set vs. 0 \<le> v \<and> v < k)"
  by (induction vs arbitrary: acc) auto

lemma late_min_loop_greater:
  "k < late_min_loop vs acc \<longleftrightarrow> k < acc \<and> (\<forall>v\<in>set vs. k < \<bar>v\<bar>)"
  by (induction vs arbitrary: acc) auto

lemma late_min_loop_le: "late_min_loop vs acc \<le> acc"
  using late_min_loop_greater [of acc vs acc] by simp

lemma order_values:
  assumes "\<forall>v\<in>set es. v < INT_MAX" "es \<noteq> []"
  shows "early_max_loop es 0 < late_min_loop ls INT_MAX \<longleftrightarrow>
    (\<forall>v\<in>set es. 0 \<le> v \<and> (\<forall>w\<in>set ls. v < \<bar>w\<bar>))"
proof -
  have "early_max_loop es 0 < late_min_loop ls INT_MAX \<longleftrightarrow>
      0 < late_min_loop ls INT_MAX \<and> (\<forall>v\<in>set es. 0 \<le> v \<and> v < late_min_loop ls INT_MAX)"
    by (rule early_max_loop_less [OF late_min_loop_le])
  also have "\<dots> \<longleftrightarrow> (\<forall>v\<in>set es. 0 \<le> v \<and> v < late_min_loop ls INT_MAX)"
    using assms(2) by (metis hd_in_set order_le_less_trans)
  also have "\<dots> \<longleftrightarrow> (\<forall>v\<in>set es. 0 \<le> v \<and> (\<forall>w\<in>set ls. v < \<bar>w\<bar>))"
    using assms(1) by (simp add: late_min_loop_greater)
  finally show ?thesis .
qed

lemma stamps_compare:
  assumes "A \<subseteq> dom f" "B \<subseteq> dom f"
  shows "(\<forall>v\<in>{v. \<exists>a\<in>A. f a = Some v}. 0 \<le> v \<and> (\<forall>w\<in>{v. \<exists>b\<in>B. f b = Some v}. v < \<bar>w\<bar>)) \<longleftrightarrow>
    (\<forall>x\<in>A. \<exists>s. f x = Some s \<and> 0 \<le> s \<and> (\<forall>y\<in>B. \<exists>t. f y = Some t \<and> s < \<bar>t :: int\<bar>))"
    (is "?l \<longleftrightarrow> ?r")
proof
  assume l: ?l
  show ?r
  proof
    fix x assume "x \<in> A"
    with assms(1) obtain s where s: "f x = Some s" by blast
    with l \<open>x \<in> A\<close> have "0 \<le> s" "\<And>y t. y \<in> B \<Longrightarrow> f y = Some t \<Longrightarrow> s < \<bar>t\<bar>" by blast+
    with s assms(2) show "\<exists>s. f x = Some s \<and> 0 \<le> s \<and> (\<forall>y\<in>B. \<exists>t. f y = Some t \<and> s < \<bar>t\<bar>)" by blast
  qed
next
  assume ?r
  then show ?l by fastforce
qed

lemma order_verdict:
  assumes "good st" "no_wrap (addr m) (msize m)" "no_wrap (addr_late m) (msize_late m)"
    and small: "\<And>x s. a_stamp (\<alpha> st) x = Some s \<Longrightarrow> s < INT_MAX"
    and ne: "bytes m \<noteq> {}" "bytes_late m \<noteq> {}"
  shows "fst (VeriProc_Order C cfg m st) =
    (if \<not> tracked cfg (\<alpha> st) (bytes m) \<or> \<not> tracked cfg (\<alpha> st) (bytes_late m) then -2
     else if order_ok (\<alpha> st) (bytes m) (bytes_late m) then 0 else -1)"
proof -
  have sz: "0 < msize m" "0 < msize_late m" using ne by (auto simp: bytes_def bytes_late_def split: if_splits)
  obtain l u where r: "range_of (addr m) (msize m) = (l, u)" "l < u" "bytes m = {l ..< u}"
    using bytes_nonempty assms(2) sz by blast
  obtain l' u' where r': "range_of (addr_late m) (msize_late m) = (l', u')" "l' < u'"
    "bytes_late m = {l' ..< u'}"
    using range_nonempty [OF assms(3) sz(2)] sz(2)
    by (cases "range_of (addr_late m) (msize_late m)") (simp add: bytes_late_def)
  let ?m = "OrderInfo st" and ?E = "imap_values C (l, u) (OrderInfo st)"
    and ?L = "imap_values C (l', u') (OrderInfo st)"
  have wf: "wf_map ?m" using assms(1) by (simp add: wf_vstate_def)
  have ok: "order_ok (\<alpha> st) (bytes m) (bytes_late m) \<longleftrightarrow>
      imap_within C (l, u) ?m \<and> imap_within C (l', u') ?m \<and>
      early_max_loop ?E 0 < late_min_loop ?L INT_MAX"
  proof (cases "imap_within C (l, u) ?m \<and> imap_within C (l', u') ?m")
    case True
    then have dom: "{l ..< u} \<subseteq> dom (amap ?m)" "{l' ..< u'} \<subseteq> dom (amap ?m)"
      using map_within [OF wf] r(2) r'(2) by auto
    have E: "set ?E = {v. \<exists>a\<in>{l ..< u}. amap ?m a = Some v}" by (rule map_values [OF wf r(2)])
    have L: "set ?L = {v. \<exists>a\<in>{l' ..< u'}. amap ?m a = Some v}" by (rule map_values [OF wf r'(2)])
    have "?E \<noteq> []"
    proof -
      have l: "l \<in> {l ..< u}" using r(2) by simp
      with dom(1) obtain v where "amap ?m l = Some v" by blast
      with E l have "v \<in> set ?E" by blast
      then show ?thesis by auto
    qed
    moreover have "\<forall>v\<in>set ?E. v < INT_MAX"
      using small by (auto simp: E abs_state_def)
    ultimately have "early_max_loop ?E 0 < late_min_loop ?L INT_MAX \<longleftrightarrow>
        (\<forall>v\<in>set ?E. 0 \<le> v \<and> (\<forall>w\<in>set ?L. v < \<bar>w\<bar>))"
      by (rule order_values [rotated])
    also have "\<dots> \<longleftrightarrow> order_ok (\<alpha> st) {l ..< u} {l' ..< u'}"
      unfolding E L order_ok_def abs_state_def using stamps_compare [OF dom] by simp
    finally show ?thesis using True r(3) r'(3) by simp
  next
    case False
    then have "(\<exists>x\<in>{l ..< u}. amap ?m x = None) \<or> (\<exists>y\<in>{l' ..< u'}. amap ?m y = None)"
      unfolding map_within [OF wf r(2)] map_within [OF wf r'(2)] subset_iff dom_def mem_Collect_eq
      by metis
    moreover have "l \<in> {l ..< u}" using r(2) by simp
    ultimately have "\<not> order_ok (\<alpha> st) {l ..< u} {l' ..< u'}"
      unfolding order_ok_def abs_state_def astate.simps by (metis option.distinct(1))
    with False r(3) r'(3) show ?thesis by auto
  qed
  show ?thesis
    using r r' sz ok excluded_iff [OF assms(1) r(2), of cfg] excluded_iff [OF assms(1) r'(2), of cfg]
    by (auto simp: VeriProc_Order_def Let_def)
qed

end

end
