(* ===== verification/Engine_Trace.thy ===== *)
theory Engine_Trace
  imports Engine_Spec
begin

text \<open>
  The verdicts of the checkers read off the trace. For a byte, what counts is the last entry
  that assigns or flushes it (\<open>last_touch\<close>) and the number of fences before that entry
  (\<open>epoch\<close>). The properties at the end of the theory state this for the handlers of \<open>pmtest.cc\<close>
  on any implementation of the interval containers.
\<close>

definition touches :: "Metadata \<Rightarrow> address \<Rightarrow> bool" where
  "touches m x \<longleftrightarrow> (mtype m = ASSIGN \<or> mtype m = FLUSH) \<and> x \<in> bytes m"

definition fences :: "Metadata list \<Rightarrow> nat" where
  "fences es = length (filter (\<lambda>m. mtype m = FENCE) es)"

definition epoch :: "Metadata list \<Rightarrow> nat \<Rightarrow> int" where
  "epoch es i = 1 + int (fences (take i es))"

definition last_touch :: "Metadata list \<Rightarrow> address \<Rightarrow> nat option" where
  "last_touch es x =
     (case filter (\<lambda>i. touches (es ! i) x) (rev [0 ..< length es]) of
        [] \<Rightarrow> None | i # _ \<Rightarrow> Some i)"

definition stamp_of :: "Metadata list \<Rightarrow> address \<Rightarrow> int option" where
  "stamp_of es x =
     map_option (\<lambda>i. if mtype (es ! i) = ASSIGN then - epoch es i else epoch es i) (last_touch es x)"

definition plain_trace :: "Metadata list \<Rightarrow> bool" where
  "plain_trace es \<longleftrightarrow> (\<forall>m\<in>set es. wf_entry m \<and> mtype m \<noteq> EXCLUDE)"

text \<open>The state the engine is in after processing the entries \<open>es\<close>.\<close>

abbreviation after :: "('s, 'm) containers \<Rightarrow> config \<Rightarrow> Metadata list \<Rightarrow> ('s, 'm) vstate" where
  "after C cfg es \<equiv> fold (veri_step C cfg) es (veri_init C)"

subsection \<open>Last touch\<close>

lemma last_touch_Nil [simp]: "last_touch [] x = None"
  by (simp add: last_touch_def)

lemma last_touch_snoc:
  "last_touch (es @ [m]) x = (if touches m x then Some (length es) else last_touch es x)"
proof -
  have "filter (\<lambda>i. touches ((es @ [m]) ! i) x) (rev [0 ..< length es]) =
      filter (\<lambda>i. touches (es ! i) x) (rev [0 ..< length es])"
    by (rule filter_cong) (auto simp: nth_append)
  then show ?thesis by (simp add: last_touch_def)
qed

lemma last_touch_less: "last_touch es x = Some i \<Longrightarrow> i < length es"
  by (induction es rule: rev_induct) (auto simp: last_touch_snoc split: if_splits)

lemma last_touch_Some:
  "last_touch es x = Some i \<Longrightarrow> touches (es ! i) x \<and> (\<forall>j. i < j \<and> j < length es \<longrightarrow> \<not> touches (es ! j) x)"
  by (induction es rule: rev_induct)
    (auto simp: last_touch_snoc nth_append less_Suc_eq dest: last_touch_less split: if_splits)

lemma last_touch_None: "last_touch es x = None \<longleftrightarrow> (\<forall>m\<in>set es. \<not> touches m x)"
  by (induction es rule: rev_induct) (auto simp: last_touch_snoc)

lemma fences_snoc [simp]: "fences (es @ [m]) = fences es + (if mtype m = FENCE then 1 else 0)"
  by (simp add: fences_def)

lemma fences_le: "fences es \<le> length es"
  by (simp add: fences_def)

lemma epoch_append: "i \<le> length es \<Longrightarrow> epoch (es @ xs) i = epoch es i"
  by (simp add: epoch_def)

lemma epoch_bounds: "1 \<le> epoch es i" "epoch es i \<le> 1 + int (length es)"
  using fences_le [of "take i es"] by (simp_all add: epoch_def)

lemma epoch_pos [simp]: "0 < epoch es i" "\<bar>epoch es i\<bar> = epoch es i" "epoch es i \<noteq> 0"
  "0 \<le> epoch es i" "\<not> epoch es i < 0" "\<not> epoch es i \<le> 0"
  using epoch_bounds(1) [of es i] by simp_all

lemma epoch_mono: "i \<le> j \<Longrightarrow> epoch es i \<le> epoch es j"
proof -
  assume "i \<le> j"
  then have "take j es = take i es @ drop i (take j es)"
    by (metis append_take_drop_id min.absorb1 take_take)
  then have "fences (take i es) \<le> fences (take j es)"
    by (metis (no_types, lifting) fences_def filter_append le_add1 length_append)
  then show ?thesis by (simp add: epoch_def)
qed

lemma stamp_of_snoc:
  "stamp_of (es @ [m]) x =
     (if touches m x then Some (if mtype m = ASSIGN then - (1 + int (fences es)) else 1 + int (fences es))
      else stamp_of es x)"
proof (cases "touches m x")
  case True
  then show ?thesis by (simp add: stamp_of_def last_touch_snoc epoch_def)
next
  case False
  have "epoch (es @ [m]) i = epoch es i \<and> (es @ [m]) ! i = es ! i" if "last_touch es x = Some i" for i
    using last_touch_less [OF that] by (simp add: epoch_append nth_append)
  with False show ?thesis
    by (cases "last_touch es x") (simp_all add: stamp_of_def last_touch_snoc)
qed

lemma stamp_of_bounds:
  "stamp_of es x = Some s \<Longrightarrow> 1 \<le> \<bar>s\<bar> \<and> \<bar>s\<bar> \<le> 1 + int (length es)"
  by (auto simp: stamp_of_def epoch_bounds split: if_splits)

subsection \<open>The specification state of a trace\<close>

lemma spec_run:
  assumes "\<forall>m\<in>set es. mtype m \<noteq> EXCLUDE"
  shows "a_excl (fold (spec_step cfg) es spec_init) = {} \<and>
    a_now (fold (spec_step cfg) es spec_init) = 1 + int (fences es) \<and>
    a_stamp (fold (spec_step cfg) es spec_init) = stamp_of es \<and>
    a_dirty (fold (spec_step cfg) es spec_init) = {x. \<exists>s. stamp_of es x = Some s \<and> s < 0}"
  using assms
proof (induction es rule: rev_induct)
  case Nil
  then show ?case by (simp add: spec_init_def fences_def stamp_of_def fun_eq_iff)
next
  case (snoc m es)
  define a where "a = fold (spec_step cfg) es spec_init"
  from snoc have IH: "a_excl a = {}" "a_now a = 1 + int (fences es)" "a_stamp a = stamp_of es"
    "a_dirty a = {x. \<exists>s. stamp_of es x = Some s \<and> s < 0}" and ne: "mtype m \<noteq> EXCLUDE"
    by (simp_all add: a_def)
  have tr: "tracked cfg a (bytes m) \<longleftrightarrow> bytes m \<noteq> {}" by (simp add: tracked_def IH)
  have goal: "a_excl (spec_step cfg m a) = {} \<and> a_now (spec_step cfg m a) = 1 + int (fences (es @ [m])) \<and>
      a_stamp (spec_step cfg m a) = stamp_of (es @ [m]) \<and>
      a_dirty (spec_step cfg m a) = {x. \<exists>s. stamp_of (es @ [m]) x = Some s \<and> s < 0}"
  proof (cases "mtype m = ASSIGN \<or> mtype m = FLUSH")
    case True
    show ?thesis
    proof (cases "bytes m = {}")
      case True
      then have "stamp_of (es @ [m]) = stamp_of es" by (simp add: fun_eq_iff stamp_of_snoc touches_def)
      with True \<open>mtype m = ASSIGN \<or> mtype m = FLUSH\<close> show ?thesis
        by (auto simp: spec_step_def tr [unfolded True, simplified] IH)
    next
      case False
      have t: "touches m x \<longleftrightarrow> x \<in> bytes m" for x
        using \<open>mtype m = ASSIGN \<or> mtype m = FLUSH\<close> by (auto simp: touches_def)
      from True show ?thesis
        using False by (elim disjE)
          (auto simp: spec_step_def tr IH mark_def fun_eq_iff stamp_of_snoc t split: if_splits)
    qed
  next
    case False
    then have "stamp_of (es @ [m]) = stamp_of es" by (simp add: fun_eq_iff stamp_of_snoc touches_def)
    with False ne show ?thesis
      by (cases "mtype m") (simp_all add: spec_step_def IH)
  qed
  then show ?case by (simp add: a_def)
qed

lemma dirty_last_touch:
  "stamp_of es x = Some s \<and> s < 0 \<longleftrightarrow>
   (\<exists>i. last_touch es x = Some i \<and> mtype (es ! i) = ASSIGN \<and> s = - epoch es i)"
  by (auto simp: stamp_of_def split: if_splits)

lemma exact_last_touch:
  "stamp_of es x = Some s \<and> 0 \<le> s \<longleftrightarrow>
   (\<exists>i. last_touch es x = Some i \<and> mtype (es ! i) = FLUSH \<and> s = epoch es i)"
  using last_touch_Some [of es x] by (auto simp: stamp_of_def touches_def split: if_splits)

lemma any_last_touch:
  "(\<exists>t. stamp_of es x = Some t \<and> k < \<bar>t\<bar>) \<longleftrightarrow> (\<exists>j. last_touch es x = Some j \<and> k < epoch es j)"
  by (cases "last_touch es x") (simp_all add: stamp_of_def)

lemma order_ok_trace:
  assumes "a_stamp a = stamp_of es"
  shows "order_ok a E L \<longleftrightarrow>
    (\<forall>x\<in>E. \<exists>i. last_touch es x = Some i \<and> mtype (es ! i) = FLUSH \<and>
       (\<forall>y\<in>L. \<exists>j. last_touch es y = Some j \<and> epoch es i < epoch es j))"
proof -
  have "order_ok a E L \<longleftrightarrow>
      (\<forall>x\<in>E. \<exists>s. (stamp_of es x = Some s \<and> 0 \<le> s) \<and>
         (\<forall>y\<in>L. \<exists>t. stamp_of es y = Some t \<and> s < \<bar>t\<bar>))"
    by (simp add: order_ok_def assms conj_assoc)
  then show ?thesis unfolding exact_last_touch any_last_touch by blast
qed

context icl
begin

lemma run_abs:
  assumes "plain_trace es"
  shows "good (after C cfg es)" "\<alpha> (after C cfg es) = fold (spec_step cfg) es spec_init"
  using run_refines [OF init_good, of es cfg] assms
  by (simp_all add: plain_trace_def wf_entry_def init_abs)

lemma run_tracked:
  assumes "plain_trace es"
  shows "tracked cfg' (\<alpha> (after C cfg es)) B \<longleftrightarrow> B \<noteq> {}"
  using spec_run [of es cfg] assms
  by (simp add: run_abs tracked_def plain_trace_def)

lemma run_stamp:
  assumes "plain_trace es"
  shows "a_stamp (\<alpha> (after C cfg es)) = stamp_of es"
    "a_dirty (\<alpha> (after C cfg es)) = {x. \<exists>s. stamp_of es x = Some s \<and> s < 0}"
  using spec_run [of es cfg] assms by (simp_all add: run_abs plain_trace_def)

lemma run_persist:
  assumes "plain_trace es" "no_wrap (addr q) (msize q)"
  shows "fst (VeriProc_Persist C cfg q (after C cfg es)) = -1 \<longleftrightarrow>
    (\<exists>x\<in>bytes q. \<exists>i. last_touch es x = Some i \<and> mtype (es ! i) = ASSIGN)"
proof -
  have "fst (VeriProc_Persist C cfg q (after C cfg es)) = -1 \<longleftrightarrow>
      (\<exists>x\<in>bytes q. \<exists>s. stamp_of es x = Some s \<and> s < 0)"
    unfolding persist_verdict [OF run_abs(1) [OF assms(1)] assms(2)] run_tracked [OF assms(1)]
      persist_ok_def run_stamp [OF assms(1)]
    by auto
  then show ?thesis unfolding dirty_last_touch by blast
qed

lemma run_small:
  assumes "plain_trace es" "int (length es) < INT_MAX - 1" "a_stamp (\<alpha> (after C cfg es)) x = Some s"
  shows "s < INT_MAX"
  using stamp_of_bounds [of es x s] assms by (auto simp: run_stamp)

lemma run_order:
  assumes "plain_trace es" "int (length es) < INT_MAX - 1" "wf_entry q" "mtype q = ORDER"
    "bytes q \<noteq> {}" "bytes_late q \<noteq> {}"
  shows "fst (VeriProc_Order C cfg q (after C cfg es)) =
    (if order_ok (\<alpha> (after C cfg es)) (bytes q) (bytes_late q) then 0 else -1)"
proof -
  have nw: "no_wrap (addr q) (msize q)" "no_wrap (addr_late q) (msize_late q)"
    using assms(3,4) by (simp_all add: wf_entry_def)
  show ?thesis
    using order_verdict [OF run_abs(1) [OF assms(1)] nw run_small [OF assms(1,2)] assms(5,6)]
      assms(5,6) by (simp add: run_tracked [OF assms(1)])
qed

end

subsection \<open>Properties\<close>

definition entry :: "MetadataType \<Rightarrow> address \<Rightarrow> u32 \<Rightarrow> Metadata" where
  "entry t a n = \<lparr>addr = a, addr_late = 0, mtype = t, msize = n, msize_late = 0, line_num = 0,
                  file_name = []\<rparr>"

definition order_entry :: "address \<Rightarrow> u32 \<Rightarrow> address \<Rightarrow> u32 \<Rightarrow> Metadata" where
  "order_entry a n a_late n_late =
     (entry ORDER a n)\<lparr>addr_late := a_late, msize_late := n_late\<rparr>"

definition default_config :: config where
  "default_config = \<lparr>pmtest_exclude = True, pmtest_warn = False\<rparr>"

text \<open>C2: \<open>isPersist\<close> is exact. Whatever interval library is used, the check of a range reports an
  error after the entries \<open>es\<close> if and only if some byte of the range was last touched by an
  assignment, that is, was modified and not flushed since.\<close>

theorem persist_check_exact:
  assumes "icl C aset amap wf_set wf_map" "plain_trace es" "no_wrap (addr q) (msize q)"
  shows "fst (VeriProc_Persist C cfg q (after C cfg es)) = -1 \<longleftrightarrow>
    (\<exists>x\<in>bytes q. \<exists>i. last_touch es x = Some i \<and> mtype (es ! i) = ASSIGN)"
  by (rule icl.run_persist [OF assms])

theorem persist_check_exact_witness:
  "let es = [entry ASSIGN 64 8, entry FLUSH 64 4, entry FENCE 0 0]; q = entry PERSIST 64 8
   in icl segment_lists segs mseg_lookup segs_ok mseg_ok \<and> plain_trace es \<and>
      no_wrap (addr q) (msize q) \<and>
      fst (VeriProc_Persist segment_lists default_config q (after segment_lists default_config es)) = -1"
proof -
  let ?es = "[entry ASSIGN 64 8, entry FLUSH 64 4, entry FENCE 0 0]" and ?q = "entry PERSIST 64 8"
  have p: "plain_trace ?es" by (simp add: plain_trace_def wf_entry_def entry_def no_wrap_def)
  have w: "no_wrap (addr ?q) (msize ?q)" by (simp add: entry_def no_wrap_def)
  have "68 \<in> bytes ?q" by (simp add: bytes_def entry_def range_of_def)
  moreover have "last_touch ?es 68 = Some 0"
    by (simp add: last_touch_def touches_def entry_def bytes_def range_of_def upt_rec)
  ultimately have "fst (VeriProc_Persist segment_lists default_config ?q
      (after segment_lists default_config ?es)) = -1"
    unfolding persist_check_exact [OF seglist.icl_axioms p w] by (force simp: entry_def)
  with p w seglist.icl_axioms show ?thesis by simp
qed

end
