(* ===== verification/Engine_Props.thy ===== *)
theory Engine_Props
  imports Engine_Trace
begin

text \<open>
  Properties of the checking engine: exactness of the order check and its order laws, the
  byte-level refinement of a whole run, and the equivalence of the frame loop with a sequential
  run.
\<close>

subsection \<open>Order laws on the specification\<close>

lemma order_ok_trans:
  assumes "order_ok a A B" "order_ok a B D" "B \<noteq> {}"
  shows "order_ok a A D"
  unfolding order_ok_def
proof
  fix x assume x: "x \<in> A"
  obtain y where y: "y \<in> B" using assms(3) by blast
  obtain s where s: "a_stamp a x = Some s" "0 \<le> s" "\<forall>y\<in>B. \<exists>t. a_stamp a y = Some t \<and> s < \<bar>t\<bar>"
    using assms(1) x unfolding order_ok_def by blast
  obtain t where t: "a_stamp a y = Some t" "0 \<le> t" "\<forall>z\<in>D. \<exists>r. a_stamp a z = Some r \<and> t < \<bar>r\<bar>"
    using assms(2) y unfolding order_ok_def by blast
  from s(3) y t(1,2) have "s < t" by fastforce
  with s(1,2) t(3) show "\<exists>s. a_stamp a x = Some s \<and> 0 \<le> s \<and> (\<forall>z\<in>D. \<exists>r. a_stamp a z = Some r \<and> s < \<bar>r\<bar>)"
    by (metis order_less_trans)
qed

lemma order_ok_asym:
  assumes "order_ok a A B" "A \<noteq> {}" "B \<noteq> {}"
  shows "\<not> order_ok a B A"
proof
  assume ba: "order_ok a B A"
  obtain x y where xy: "x \<in> A" "y \<in> B" using assms(2,3) by blast
  obtain s t where "a_stamp a x = Some s" "0 \<le> s" "a_stamp a y = Some t" "s < \<bar>t\<bar>"
    using assms(1) xy unfolding order_ok_def by blast
  moreover obtain s' t' where "a_stamp a y = Some t'" "0 \<le> t'" "a_stamp a x = Some s'" "t' < \<bar>s'\<bar>"
    using ba xy unfolding order_ok_def by blast
  ultimately show False by simp
qed

lemma order_entry_simps [simp]:
  "mtype (order_entry a n b k) = ORDER" "addr (order_entry a n b k) = a"
  "msize (order_entry a n b k) = n" "addr_late (order_entry a n b k) = b"
  "msize_late (order_entry a n b k) = k"
  by (simp_all add: order_entry_def entry_def)

lemma bytes_order_entry:
  "bytes (order_entry a n b k) = bytes (entry PERSIST a n)"
  "bytes_late (order_entry a n b k) = bytes (entry PERSIST b k)"
  by (simp_all add: bytes_def bytes_late_def entry_def)

lemma bytes_ne: "no_wrap a n \<Longrightarrow> 0 < n \<Longrightarrow> bytes (entry PERSIST a n) \<noteq> {}"
  by (subst bytes_empty_iff) (simp_all add: entry_def)

context icl
begin

lemma run_order_entry:
  assumes "plain_trace es" "int (length es) < INT_MAX - 1" "no_wrap a n" "0 < n" "no_wrap b k" "0 < k"
  shows "fst (VeriProc_Order C cfg (order_entry a n b k) (after C cfg es)) =
    (if order_ok (\<alpha> (after C cfg es)) (bytes (entry PERSIST a n)) (bytes (entry PERSIST b k))
     then 0 else -1)"
  using run_order [OF assms(1,2), of "order_entry a n b k" cfg] assms(3-)
  by (simp add: wf_entry_def bytes_order_entry bytes_ne)

lemma run_order_exact:
  assumes "plain_trace es" "int (length es) < INT_MAX - 1" "wf_entry q" "mtype q = ORDER"
    "bytes q \<noteq> {}" "bytes_late q \<noteq> {}"
  shows "fst (VeriProc_Order C cfg q (after C cfg es)) = 0 \<longleftrightarrow>
    (\<forall>x\<in>bytes q. \<exists>i. last_touch es x = Some i \<and> mtype (es ! i) = FLUSH \<and>
       (\<forall>y\<in>bytes_late q. \<exists>j. last_touch es y = Some j \<and> epoch es i < epoch es j))"
  unfolding run_order [OF assms] order_ok_trace [OF run_stamp(1) [OF assms(1)]] by simp

lemma run_order_trans:
  assumes "plain_trace es" "int (length es) < INT_MAX - 1"
    "no_wrap a n" "0 < n" "no_wrap b k" "0 < k" "no_wrap d l" "0 < l"
    "fst (VeriProc_Order C cfg (order_entry a n b k) (after C cfg es)) = 0"
  shows "fst (VeriProc_Order C cfg (order_entry b k d l) (after C cfg es)) = 0 \<longrightarrow>
      fst (VeriProc_Order C cfg (order_entry a n d l) (after C cfg es)) = 0"
    and "fst (VeriProc_Order C cfg (order_entry b k a n) (after C cfg es)) = -1"
proof -
  let ?ok = "\<lambda>a n b k. order_ok (\<alpha> (after C cfg es)) (bytes (entry PERSIST a n)) (bytes (entry PERSIST b k))"
  have ab: "?ok a n b k"
    using assms(9) run_order_entry [OF assms(1-6), of cfg] by (simp split: if_splits)
  show "fst (VeriProc_Order C cfg (order_entry b k d l) (after C cfg es)) = 0 \<longrightarrow>
      fst (VeriProc_Order C cfg (order_entry a n d l) (after C cfg es)) = 0"
    using order_ok_trans [OF ab _ bytes_ne [OF assms(5,6)]]
      run_order_entry [OF assms(1,2,5,6,7,8), of cfg] run_order_entry [OF assms(1,2,3,4,7,8), of cfg]
    by (simp split: if_splits)
  show "fst (VeriProc_Order C cfg (order_entry b k a n) (after C cfg es)) = -1"
    using order_ok_asym [OF ab bytes_ne [OF assms(3,4)] bytes_ne [OF assms(5,6)]]
      run_order_entry [OF assms(1,2,5,6,3,4), of cfg] by simp
qed

end

text \<open>C3: \<open>isOrderedBefore\<close> is exact. On a trace whose length fits an \<open>int\<close>, the check of two ranges
  succeeds if and only if every byte of the early range was last touched by a flush, every byte of
  the late range has been touched, and each of those flushes is separated by a fence from the last
  touch of each late byte.\<close>

theorem order_check_exact:
  assumes "icl C aset amap wf_set wf_map" "plain_trace es" "int (length es) < INT_MAX - 1"
    "wf_entry q" "mtype q = ORDER" "bytes q \<noteq> {}" "bytes_late q \<noteq> {}"
  shows "fst (VeriProc_Order C cfg q (after C cfg es)) = 0 \<longleftrightarrow>
    (\<forall>x\<in>bytes q. \<exists>i. last_touch es x = Some i \<and> mtype (es ! i) = FLUSH \<and>
       (\<forall>y\<in>bytes_late q. \<exists>j. last_touch es y = Some j \<and> epoch es i < epoch es j))"
  by (rule icl.run_order_exact [OF assms])

lemmas entry_eval = plain_trace_def wf_entry_def entry_def no_wrap_def bytes_def bytes_late_def
  range_of_def INT_MAX_def

definition ordered_trace :: "Metadata list" where
  "ordered_trace = [entry ASSIGN 64 4, entry FLUSH 64 4, entry FENCE 0 0, entry ASSIGN 128 4]"

lemma ordered_trace_plain: "plain_trace ordered_trace" "int (length ordered_trace) < INT_MAX - 1"
  by (simp_all add: ordered_trace_def entry_eval)

lemma ordered_trace_check:
  "fst (VeriProc_Order segment_lists default_config (order_entry 64 4 128 4)
    (after segment_lists default_config ordered_trace)) = 0"
  by code_simp

theorem order_check_exact_witness:
  "let es = ordered_trace; q = order_entry 64 4 128 4
   in plain_trace es \<and> int (length es) < INT_MAX - 1 \<and> wf_entry q \<and> mtype q = ORDER \<and>
      (\<forall>x\<in>bytes q. \<exists>i. last_touch es x = Some i \<and> mtype (es ! i) = FLUSH \<and>
        (\<forall>y\<in>bytes_late q. \<exists>j. last_touch es y = Some j \<and> epoch es i < epoch es j))"
proof -
  let ?q = "order_entry 64 4 128 4"
  have q: "wf_entry ?q" "mtype ?q = ORDER" "bytes ?q \<noteq> {}" "bytes_late ?q \<noteq> {}"
    by (simp_all add: entry_eval)
  show ?thesis
    using q ordered_trace_plain order_check_exact [OF seglist.icl_axioms ordered_trace_plain q,
        of default_config] ordered_trace_check by (simp only: Let_def simp_thms)
qed

text \<open>\<open>isOrderedBefore\<close> is a strict order. If it accepts the ranges A, B then it rejects B, A, and if it
  accepts A, B and B, D then it accepts A, D.\<close>

theorem order_check_strict_order:
  assumes "icl C aset amap wf_set wf_map" "plain_trace es" "int (length es) < INT_MAX - 1"
    "no_wrap a n" "0 < n" "no_wrap b k" "0 < k" "no_wrap d l" "0 < l"
    "fst (VeriProc_Order C cfg (order_entry a n b k) (after C cfg es)) = 0"
  shows "fst (VeriProc_Order C cfg (order_entry b k a n) (after C cfg es)) = -1 \<and>
    (fst (VeriProc_Order C cfg (order_entry b k d l) (after C cfg es)) = 0 \<longrightarrow>
     fst (VeriProc_Order C cfg (order_entry a n d l) (after C cfg es)) = 0)"
  using icl.run_order_trans [OF assms] by blast

theorem order_check_strict_order_witness:
  "fst (VeriProc_Order segment_lists default_config (order_entry 64 4 128 4)
     (after segment_lists default_config ordered_trace)) = 0 \<and>
   fst (VeriProc_Order segment_lists default_config (order_entry 128 4 64 4)
     (after segment_lists default_config ordered_trace)) = -1"
proof -
  have "no_wrap (64 :: address) 4" "(0 :: u32) < 4" "no_wrap (128 :: address) 4"
    by (simp_all add: no_wrap_def)
  then show ?thesis
    using order_check_strict_order [OF seglist.icl_axioms ordered_trace_plain, of 64 4 128 4 128 4
        default_config] ordered_trace_check by simp
qed

text \<open>C5: Refinement. For every trace whose accesses do not wrap around, exclusions included, the
  engine's containers denote exactly the byte-level state that the specification computes,
  and stay well formed.\<close>

theorem engine_refines_bytes:
  assumes "icl C aset amap wf_set wf_map" "\<forall>m\<in>set es. no_wrap (addr m) (msize m)"
  shows "wf_vstate wf_set wf_map (after C cfg es) \<and>
    abs_state aset amap (after C cfg es) = fold (spec_step cfg) es spec_init"
  using icl.run_refines [OF assms(1) icl.init_good [OF assms(1)] assms(2)] icl.init_abs [OF assms(1)]
  by simp

theorem engine_refines_bytes_witness:
  "let es = [entry EXCLUDE 0 16, entry ASSIGN 64 4, entry ASSIGN 8 4]
   in (\<forall>m\<in>set es. no_wrap (addr m) (msize m)) \<and>
      a_dirty (abs_state segs mseg_lookup (after segment_lists default_config es)) =
      a_dirty (fold (spec_step default_config) es spec_init)"
proof -
  let ?es = "[entry EXCLUDE 0 16, entry ASSIGN 64 4, entry ASSIGN 8 4]"
  have "\<forall>m\<in>set ?es. no_wrap (addr m) (msize m)" by (simp add: entry_eval)
  then show ?thesis
    using engine_refines_bytes [OF seglist.icl_axioms, of ?es default_config] by (simp only: Let_def simp_thms)
qed

text \<open>C6: The frame loop. \<open>VeriProc\<close>, which buffers entries until the next fence and treats the last
  frame separately, behaves like one sequential pass over the trace from which the flushes after the
  last fence have been dropped.\<close>

theorem VeriProc_sequential:
  assumes "fv_ok v"
  shows "VeriProc C cfg v =
    veri_finish (fold (veri_step C cfg) (effective (fv_list v)) (veri_init C))"
  by (rule VeriProc_run [OF assms])

theorem VeriProc_sequential_witness:
  "let v = fold fv_push_back [entry ASSIGN 64 4, entry FLUSH 64 4, entry PERSIST 64 4] fv_new
   in fv_ok v \<and> VeriProc segment_lists default_config v =
        veri_finish (after segment_lists default_config [entry ASSIGN 64 4, entry PERSIST 64 4])"
proof -
  let ?es = "[entry ASSIGN 64 4, entry FLUSH 64 4, entry PERSIST 64 4]"
  let ?v = "fold fv_push_back ?es fv_new"
  have v: "fv_ok ?v" "fv_list ?v = ?es"
    by (rule fv.fill_new)+
  have "effective ?es = [entry ASSIGN 64 4, entry PERSIST 64 4]"
    by (simp add: effective_def last_fence_def entry_def)
  with VeriProc_sequential [OF v(1), of segment_lists default_config] v show ?thesis
    by (simp only: Let_def simp_thms)
qed

end
