(* ===== verification/Tx_Props.thy ===== *)
theory Tx_Props
  imports Engine_Props
begin

text \<open>
  The transaction checker and the other observable behaviour of the engine: bounds of its
  counters, what a closing \<open>TX_CHECKER_END\<close> prints, when an assignment inside a transaction is
  rejected, exclusion, the traces documented in \<open>src/src/README.md\<close>, and what happens to the
  checker when a transaction is ended too often.
\<close>

subsection \<open>Counters\<close>

lemma veri_step_counters:
  "timestamp (veri_step C cfg m st) = timestamp st + (if mtype m = FENCE then 1 else 0) \<and>
   \<bar>transactionCount (veri_step C cfg m st) - transactionCount st\<bar> \<le> 1"
proof -
  have persist: "timestamp (snd (VeriProc_Persist C cfg m st)) = timestamp st \<and>
      transactionCount (snd (VeriProc_Persist C cfg m st)) = transactionCount st" for m st
    by (auto simp: VeriProc_Persist_def Let_def emit_def split: option.splits)
  have fold: "timestamp (fold (\<lambda>i s. snd (VeriProc_Persist C cfg (f i) s)) is st) = timestamp st \<and>
      transactionCount (fold (\<lambda>i s. snd (VeriProc_Persist C cfg (f i) s)) is st) = transactionCount st"
    for f "is" st
    by (induction "is" arbitrary: st) (simp_all add: persist)
  show ?thesis
    by (cases "mtype m")
      (simp_all add: veri_step_def VeriProc_Assign_def VeriProc_Flush_def VeriProc_Fence_def persist
        VeriProc_Order_def VeriProc_TransactionBegin_def VeriProc_TransactionEnd_def fold
        VeriProc_TransactionAdd_def VeriProc_Exclude_def VeriProc_Include_def Let_def emit_def)
qed

lemma fences_Cons: "fences (m # es) = (if mtype m = FENCE then 1 else 0) + fences es"
  by (simp add: fences_def)

lemma run_counters:
  "timestamp (fold (veri_step C cfg) es st) = timestamp st + int (fences es) \<and>
   \<bar>transactionCount (fold (veri_step C cfg) es st) - transactionCount st\<bar> \<le> int (length es)"
proof (induction es arbitrary: st)
  case Nil
  then show ?case by (simp add: fences_def)
next
  case (Cons m es)
  show ?case
    using Cons.IH [of "veri_step C cfg m st"] veri_step_counters [of C cfg m st]
    by (auto simp: fences_Cons)
qed

lemma fences_effective: "fences (effective es) = fences es"
proof -
  have "fences (filter (\<lambda>m. mtype m \<noteq> FLUSH) xs) = fences xs" for xs
    by (induction xs) (auto simp: fences_def)
  moreover have "fences (xs @ ys) = fences xs + fences ys" for xs ys
    by (simp add: fences_def)
  ultimately show ?thesis
    unfolding effective_def by (metis append_take_drop_id)
qed

lemma effective_length: "length (effective es) \<le> length es"
proof -
  have "length (effective es) \<le> length (take (last_fence es) es) + length (drop (last_fence es) es)"
    unfolding effective_def length_append by (simp add: length_filter_le del: length_drop length_take)
  then show ?thesis by simp
qed

text \<open>No counter overflows. At the end of \<open>VeriProc\<close> the timestamp is one more than the number
  of fences, and the transaction depth is bounded by the length of the trace, so a trace with
  fewer than \<open>INT_MAX\<close> entries keeps both inside a C \<open>int\<close>, at any point of the run.\<close>

theorem VeriProc_counters:
  assumes "fv_ok v" "int (fv_size v) < INT_MAX"
  shows "timestamp (VeriProc C cfg v) = 1 + int (fences (fv_list v)) \<and>
    timestamp (VeriProc C cfg v) \<le> INT_MAX \<and>
    \<bar>transactionCount (VeriProc C cfg v)\<bar> < INT_MAX"
proof -
  let ?st = "fold (veri_step C cfg) (effective (fv_list v)) (veri_init C)"
  have fin: "timestamp (veri_finish st) = timestamp st"
    "transactionCount (veri_finish st) = transactionCount st" for st :: "('a, 'b) vstate"
    by (simp_all add: veri_finish_def emit_def)
  have "timestamp ?st = 1 + int (fences (fv_list v))"
    "\<bar>transactionCount ?st\<bar> \<le> int (length (effective (fv_list v)))"
    using run_counters [of C cfg "effective (fv_list v)" "veri_init C"]
    by (simp_all add: veri_init_def fences_effective)
  moreover have "int (length (effective (fv_list v))) < INT_MAX" "int (fences (fv_list v)) < INT_MAX"
    using effective_length [of "fv_list v"] fences_le [of "fv_list v"] assms fv.size_list [OF assms(1)]
    by simp_all
  ultimately show ?thesis by (simp add: VeriProc_run [OF assms(1)] fin)
qed

theorem VeriProc_counters_witness:
  "fv_ok (fv_push_back (entry FENCE 0 0) fv_new) \<and>
   timestamp (VeriProc segment_lists default_config (fv_push_back (entry FENCE 0 0) fv_new)) = 2"
proof -
  let ?v = "fv_push_back (entry FENCE 0 0) fv_new"
  have v: "fv_ok ?v" "fv_list ?v = [entry FENCE 0 0]"
    by (simp_all add: fv.push_ok fv.push_list fv.new_ok fv.new_list)
  then have "int (fv_size ?v) < INT_MAX" by (simp add: fv.size_list INT_MAX_def)
  with VeriProc_counters [OF v(1), of segment_lists default_config] v show ?thesis
    by (simp add: fences_def entry_def)
qed

subsection \<open>Transactions\<close>

definition persist_fails :: "config \<Rightarrow> astate \<Rightarrow> Metadata \<Rightarrow> bool" where
  "persist_fails cfg a m \<longleftrightarrow> tracked cfg a (bytes m) \<and> \<not> persist_ok a (bytes m)"

text \<open>The file and line of a persistence error; no other report has one.\<close>

fun persist_site :: "report \<Rightarrow> (string \<times> u32) option" where
  "persist_site (PersistError f l _ _) = Some (f, l)"
| "persist_site _ = None"

context icl
begin

lemma persist_output:
  assumes "good st" "no_wrap (addr m) (msize m)"
  shows "\<exists>out. snd (VeriProc_Persist C cfg m st) = st\<lparr>stdout := stdout st @ out\<rparr> \<and>
    map persist_site out = (if persist_fails cfg (\<alpha> st) m then [Some (printed_name m, line_num m)] else [])"
proof (cases "0 < msize m")
  case True
  obtain l u where r: "range_of (addr m) (msize m) = (l, u)" "l < u" "bytes m = {l ..< u}"
    using bytes_nonempty assms(2) True by blast
  have none: "iset_find C (PersistInfo st) (l, u) = None \<longleftrightarrow> persist_ok (\<alpha> st) {l ..< u}"
    using assms(1) r(2) by (simp add: set_find_None persist_ok_def abs_state_def wf_vstate_def)
  show ?thesis
  proof (cases "persist_fails cfg (\<alpha> st) m")
    case True
    then obtain j where "iset_find C (PersistInfo st) (l, u) = Some j" "\<not> excluded C cfg st (l, u)"
      using none r excluded_iff [OF assms(1) r(2), of cfg] by (auto simp: persist_fails_def)
    with True \<open>0 < msize m\<close> r show ?thesis
      by (auto simp: VeriProc_Persist_def emit_def
          intro: exI [of _ "[PersistError (printed_name m) (line_num m) (max l (fst j)) (min u (snd j))]"])
  next
    case False
    then have "excluded C cfg st (l, u) \<or> iset_find C (PersistInfo st) (l, u) = None"
      using none r excluded_iff [OF assms(1) r(2), of cfg] by (auto simp: persist_fails_def)
    with False \<open>0 < msize m\<close> r show ?thesis
      by (auto simp: VeriProc_Persist_def Let_def intro: exI [of _ "[]"])
  qed
next
  case False
  then show ?thesis
    by (auto simp: VeriProc_Persist_def persist_fails_def tracked_def bytes_def intro: exI [of _ "[]"])
qed

lemma persist_fold_output:
  assumes "good st" "\<forall>m\<in>set ms. no_wrap (addr m) (msize m)"
  shows "\<exists>out. fold (\<lambda>m s. snd (VeriProc_Persist C cfg m s)) ms st = st\<lparr>stdout := stdout st @ out\<rparr> \<and>
    map persist_site out =
      map (\<lambda>m. Some (printed_name m, line_num m)) (filter (persist_fails cfg (\<alpha> st)) ms)"
  using assms
proof (induction ms arbitrary: st)
  case Nil
  then show ?case by (auto intro: exI [of _ "[]"])
next
  case (Cons m ms)
  obtain out where out: "snd (VeriProc_Persist C cfg m st) = st\<lparr>stdout := stdout st @ out\<rparr>"
    "map persist_site out = (if persist_fails cfg (\<alpha> st) m then [Some (printed_name m, line_num m)] else [])"
    using persist_output [of st m cfg] Cons.prems by auto
  obtain out' where out': "fold (\<lambda>m s. snd (VeriProc_Persist C cfg m s)) ms
      (st\<lparr>stdout := stdout st @ out\<rparr>) = st\<lparr>stdout := stdout st @ out @ out'\<rparr>"
    "map persist_site out' =
      map (\<lambda>m. Some (printed_name m, line_num m)) (filter (persist_fails cfg (\<alpha> st)) ms)"
    using Cons.IH [of "st\<lparr>stdout := stdout st @ out\<rparr>"] Cons.prems by auto
  from out out' show ?case
    by (auto intro: exI [of _ "out @ out'"])
qed

lemma tx_end_output:
  assumes "good st" "transactionCount st = 1"
  shows "\<exists>out. stdout (VeriProc_TransactionEnd C cfg m st) = stdout st @ out \<and>
    map persist_site out = map (\<lambda>m. Some (printed_name m, line_num m))
      (filter (persist_fails cfg (\<alpha> st)) (fv_list (TransactionPersistInfo st)))"
proof -
  let ?tx = "TransactionPersistInfo st" and ?st = "st\<lparr>transactionCount := transactionCount st - 1\<rparr>"
  let ?ms = "map (\<lambda>m. m\<lparr>mtype := PERSIST\<rparr>) (fv_list ?tx)"
  have ok: "fv_ok ?tx" "good ?st" "\<forall>m\<in>set ?ms. no_wrap (addr m) (msize m)"
    using assms(1) by (auto simp: wf_vstate_def)
  have "fold (\<lambda>i s. snd (VeriProc_Persist C cfg ((the (fv_index ?tx i))\<lparr>mtype := PERSIST\<rparr>) s))
      [0 ..< fv_size ?tx] ?st =
      fold (\<lambda>m s. snd (VeriProc_Persist C cfg (m\<lparr>mtype := PERSIST\<rparr>) s))
        (map (\<lambda>i. the (fv_index ?tx i)) [0 ..< fv_size ?tx]) ?st"
    by (simp add: fold_map o_def)
  also have "\<dots> = fold (\<lambda>m s. snd (VeriProc_Persist C cfg m s)) ?ms ?st"
    unfolding fv.read_back [OF ok(1)] by (simp add: fold_map o_def)
  finally have run: "VeriProc_TransactionEnd C cfg m st =
      fold (\<lambda>m s. snd (VeriProc_Persist C cfg m s)) ?ms ?st"
    using assms(2) by (simp add: VeriProc_TransactionEnd_def)
  have fails: "persist_fails cfg (\<alpha> ?st) (m\<lparr>mtype := PERSIST\<rparr>) = persist_fails cfg (\<alpha> st) m" for m
    by (simp add: persist_fails_def bytes_def tracked_def persist_ok_def abs_state_def)
  show ?thesis
    using persist_fold_output [OF ok(2,3), of cfg]
    by (auto simp: run filter_map o_def fails printed_name_def)
qed

lemma assign_verdict:
  assumes "good st" "no_wrap (addr m) (msize m)"
  shows "fst (VeriProc_Assign C cfg m st) = -1 \<longleftrightarrow>
    tracked cfg (\<alpha> st) (bytes m) \<and> 0 < a_depth (\<alpha> st) \<and> a_logged (\<alpha> st) \<inter> bytes m = {}"
proof (cases "0 < msize m")
  case True
  obtain l u where r: "range_of (addr m) (msize m) = (l, u)" "l < u" "bytes m = {l ..< u}"
    using bytes_nonempty assms(2) True by blast
  moreover have "iset_find C (TransactionAddInfo st) (l, u) = None \<longleftrightarrow> a_logged (\<alpha> st) \<inter> {l ..< u} = {}"
    using assms(1) r(2) by (simp add: set_find_None abs_state_def wf_vstate_def)
  ultimately show ?thesis
    using True excluded_iff [OF assms(1) r(2), of cfg]
    by (auto simp: VeriProc_Assign_def Let_def abs_state_def)
next
  case False
  then show ?thesis by (simp add: VeriProc_Assign_def tracked_def bytes_def)
qed

lemma excluded_ignored:
  assumes "good st" "no_wrap (addr m) (msize m)" "pmtest_exclude cfg"
    "bytes m \<inter> a_excl (\<alpha> st) \<noteq> {}" "mtype m \<in> {ASSIGN, FLUSH, PERSIST}"
  shows "veri_step C cfg m st = st"
proof -
  have sz: "0 < msize m" using assms(4) by (auto simp: bytes_def split: if_splits)
  obtain l u where r: "range_of (addr m) (msize m) = (l, u)" "l < u" "bytes m = {l ..< u}"
    using bytes_nonempty assms(2) sz by blast
  have "excluded C cfg st (l, u)"
    using excluded_iff [OF assms(1) r(2), of cfg] assms(3,4) r(3) by (auto simp: tracked_def)
  with sz r assms(5) show ?thesis
    by (auto simp: veri_step_def VeriProc_Assign_def VeriProc_Flush_def VeriProc_Persist_def)
qed

end

subsection \<open>Properties\<close>

text \<open>C7: The transaction checker. When the outermost transaction ends, the engine reports exactly those
  assignments made since it began whose bytes are not excluded and not all written back, in
  program order, as persistence errors with the file and line of the assignment, and nothing else.\<close>

theorem tx_end_reports_exact:
  assumes "icl C aset amap wf_set wf_map" "\<forall>m\<in>set es. no_wrap (addr m) (msize m)"
    "transactionCount (after C cfg es) = 1"
  shows "\<exists>out. stdout (VeriProc_TransactionEnd C cfg m (after C cfg es)) = stdout (after C cfg es) @ out \<and>
    map persist_site out = map (\<lambda>m. Some (printed_name m, line_num m))
      (filter (persist_fails cfg (fold (spec_step cfg) es spec_init))
        (a_tx (fold (spec_step cfg) es spec_init)))"
proof -
  have run: "wf_vstate wf_set wf_map (after C cfg es)"
    "abs_state aset amap (after C cfg es) = fold (spec_step cfg) es spec_init"
    using icl.run_refines [OF assms(1) icl.init_good [OF assms(1)] assms(2)] icl.init_abs [OF assms(1)]
    by simp_all
  then have "a_tx (fold (spec_step cfg) es spec_init) = fv_list (TransactionPersistInfo (after C cfg es))"
    by (simp add: abs_state_def flip: run(2))
  with icl.tx_end_output [OF assms(1) run(1) assms(3), of cfg m] run(2) show ?thesis by simp
qed

definition leaky_tx :: "Metadata list" where
  "leaky_tx = [entry TRANSACTIONBEGIN 0 0, entry TRANSACTIONADD 64 8, entry ASSIGN 64 4,
               entry ASSIGN 68 4, entry FLUSH 64 4, entry FENCE 0 0]"

theorem tx_end_reports_exact_witness:
  "list_all (\<lambda>m. no_wrap (addr m) (msize m)) leaky_tx \<and>
   (\<exists>out. stdout (VeriProc_TransactionEnd segment_lists default_config (entry TRANSACTIONEND 0 0)
       (after segment_lists default_config leaky_tx)) =
       stdout (after segment_lists default_config leaky_tx) @ out \<and>
     map persist_site out = map (\<lambda>m. Some (printed_name m, line_num m))
       (filter (persist_fails default_config (fold (spec_step default_config) leaky_tx spec_init))
         (a_tx (fold (spec_step default_config) leaky_tx spec_init))))"
proof -
  have w: "\<forall>m\<in>set leaky_tx. no_wrap (addr m) (msize m)" by (simp add: leaky_tx_def entry_eval)
  have t: "transactionCount (after segment_lists default_config leaky_tx) = 1" by code_simp
  show ?thesis
    using w tx_end_reports_exact [OF seglist.icl_axioms w t, of "entry TRANSACTIONEND 0 0"]
    by (simp only: list_all_iff simp_thms)
qed

text \<open>C8: Writes inside a transaction. After any trace, an assignment is rejected if and only if it is
  tracked, a transaction is open, and none of its bytes was ever added to the log.\<close>

theorem assign_check_exact:
  assumes "icl C aset amap wf_set wf_map" "\<forall>m\<in>set es. no_wrap (addr m) (msize m)"
    "no_wrap (addr q) (msize q)" "a = fold (spec_step cfg) es spec_init"
  shows "fst (VeriProc_Assign C cfg q (after C cfg es)) = -1 \<longleftrightarrow>
    tracked cfg a (bytes q) \<and> 0 < a_depth a \<and> a_logged a \<inter> bytes q = {}"
  using icl.assign_verdict [OF assms(1) _ assms(3), of "after C cfg es" cfg]
    icl.run_refines [OF assms(1) icl.init_good [OF assms(1)] assms(2)] icl.init_abs [OF assms(1)] assms(4)
  by simp

theorem assign_check_exact_witness:
  "let q = entry ASSIGN 128 8; a = fold (spec_step default_config) leaky_tx spec_init
   in no_wrap (addr q) (msize q) \<and>
      tracked default_config a (bytes q) \<and> 0 < a_depth a \<and> a_logged a \<inter> bytes q = {}"
proof -
  let ?q = "entry ASSIGN 128 8" and ?a = "fold (spec_step default_config) leaky_tx spec_init"
  have w: "\<forall>m\<in>set leaky_tx. no_wrap (addr m) (msize m)" "no_wrap (addr ?q) (msize ?q)"
    by (simp_all add: leaky_tx_def entry_eval)
  have "fst (VeriProc_Assign segment_lists default_config ?q
      (after segment_lists default_config leaky_tx)) = -1" by code_simp
  then show ?thesis
    using w assign_check_exact [OF seglist.icl_axioms w, of ?a default_config] by (simp only: Let_def simp_thms)
qed

text \<open>Exclusion. With \<open>PMTEST_EXCLUDE\<close> on, an assignment, flush or persistence check that meets an
  excluded byte leaves the whole state of the engine unchanged and prints nothing.\<close>

theorem excluded_entries_ignored:
  assumes "icl C aset amap wf_set wf_map" "\<forall>m\<in>set es. no_wrap (addr m) (msize m)"
    "no_wrap (addr q) (msize q)" "pmtest_exclude cfg"
    "bytes q \<inter> a_excl (fold (spec_step cfg) es spec_init) \<noteq> {}" "mtype q \<in> {ASSIGN, FLUSH, PERSIST}"
  shows "after C cfg (es @ [q]) = after C cfg es"
proof -
  have run: "wf_vstate wf_set wf_map (after C cfg es)"
    "abs_state aset amap (after C cfg es) = fold (spec_step cfg) es spec_init"
    using icl.run_refines [OF assms(1) icl.init_good [OF assms(1)] assms(2)] icl.init_abs [OF assms(1)]
    by simp_all
  show ?thesis
    using icl.excluded_ignored [OF assms(1) run(1) assms(3,4) _ assms(6)] assms(5) run(2) by simp
qed

theorem excluded_entries_ignored_witness:
  "let es = [entry EXCLUDE 64 8]; q = entry ASSIGN 68 16
   in bytes q \<inter> a_excl (fold (spec_step default_config) es spec_init) \<noteq> {} \<and>
      after segment_lists default_config (es @ [q]) = after segment_lists default_config es"
proof -
  let ?es = "[entry EXCLUDE 64 8]" and ?q = "entry ASSIGN 68 16"
  have w: "\<forall>m\<in>set ?es. no_wrap (addr m) (msize m)" "no_wrap (addr ?q) (msize ?q)"
    "pmtest_exclude default_config" "mtype ?q \<in> {ASSIGN, FLUSH, PERSIST}"
    by (simp_all add: entry_eval default_config_def)
  have "68 \<in> bytes ?q" "68 \<in> bytes (entry EXCLUDE 64 8)" by (simp_all add: entry_eval)
  then have m: "bytes ?q \<inter> a_excl (fold (spec_step default_config) ?es spec_init) \<noteq> {}"
    by (auto simp: spec_step_def entry_def spec_init_def)
  show ?thesis
    using m excluded_entries_ignored [OF seglist.icl_axioms w(1-3) m w(4)] by (simp only: Let_def simp_thms)
qed

subsection \<open>Documented verdicts\<close>

definition verdicts :: "Metadata list \<Rightarrow> report list" where
  "verdicts es = stdout (VeriProc segment_lists default_config (fold fv_push_back es fv_new))"

lemma verdicts_run:
  "verdicts es = stdout (veri_finish (after segment_lists default_config (effective es)))"
  by (simp add: verdicts_def VeriProc_run fv.fill_new)

text \<open>The three traces that \<open>src/src/README.md\<close> gives as examples (with A at 64 and B at 128) get the
  verdicts stated there: both checks fail, only the order check fails, both checks fail.\<close>

theorem readme_examples:
  "verdicts [entry ASSIGN 64 4, entry FENCE 0 0, entry ASSIGN 128 4, entry FLUSH 64 4,
             entry PERSIST 64 4, order_entry 64 4 128 4] =
     [PersistError [] 0 64 68, OrderError [] 0 64 68 128 132] \<and>
   verdicts [entry ASSIGN 64 4, entry FENCE 0 0, entry ASSIGN 128 4, entry ASSIGN 64 4,
             entry FLUSH 64 4, entry FENCE 0 0, entry PERSIST 64 4, order_entry 64 4 128 4] =
     [OrderError [] 0 64 68 128 132] \<and>
   verdicts [entry ASSIGN 64 4, entry ASSIGN 128 4, entry FENCE 0 0, entry ASSIGN 128 4,
             entry PERSIST 128 4, order_entry 64 4 128 4] =
     [PersistError [] 0 128 132, OrderError [] 0 64 68 128 132]"
  unfolding verdicts_run by code_simp

subsection \<open>A transaction that is ended too often\<close>

definition is_tx_mark :: "Metadata \<Rightarrow> bool" where
  "is_tx_mark m \<longleftrightarrow> mtype m = TRANSACTIONBEGIN \<or> mtype m = TRANSACTIONEND"

text \<open>Other entries do not change the depth.\<close>

lemma step_depth: "\<not> is_tx_mark m \<Longrightarrow> transactionCount (veri_step C cfg m st) = transactionCount st"
  by (cases "mtype m")
    (simp_all add: veri_step_def is_tx_mark_def handler_defs Let_def split: option.split)

lemma fold_depth: "list_all (\<lambda>m. \<not> is_tx_mark m) ms \<Longrightarrow> transactionCount (fold (veri_step C cfg) ms st) = transactionCount st"
  by (induction ms arbitrary: st) (simp_all add: step_depth)

text \<open>At depth 0 nothing is checked or recorded, and the end of a transaction that is not the outermost prints nothing.\<close>

lemma assign_outside: "\<not> 0 < transactionCount st \<Longrightarrow> fst (VeriProc_Assign C cfg m st) \<noteq> -1"
  by (simp add: VeriProc_Assign_def Let_def)

lemma end_elsewhere: "transactionCount st \<noteq> 1 \<Longrightarrow> VeriProc_TransactionEnd C cfg m st = st\<lparr>transactionCount := transactionCount st - 1\<rparr>"
  by (simp add: VeriProc_TransactionEnd_def Let_def)

text \<open>Transactions one after the other, each without inner transactions.\<close>

fun flat_tx :: "Metadata \<times> Metadata list \<times> Metadata \<Rightarrow> bool" where
  "flat_tx (b, body, e) \<longleftrightarrow> mtype b = TRANSACTIONBEGIN \<and> list_all (\<lambda>m. \<not> is_tx_mark m) body \<and> mtype e = TRANSACTIONEND"

definition tx_entries :: "(Metadata \<times> Metadata list \<times> Metadata) list \<Rightarrow> Metadata list" where
  "tx_entries txs = concat (map (\<lambda>(b, body, e). b # body @ [e]) txs)"

lemma mark_depth:
  "mtype m = TRANSACTIONBEGIN \<Longrightarrow> transactionCount (veri_step C cfg m st) = transactionCount st + 1"
  "mtype m = TRANSACTIONEND \<Longrightarrow> transactionCount st \<noteq> 1 \<Longrightarrow> veri_step C cfg m st = st\<lparr>transactionCount := transactionCount st - 1\<rparr>"
  by (simp_all add: veri_step_def VeriProc_TransactionBegin_def end_elsewhere Let_def)

lemma flat_txs_depth:
  "list_all flat_tx txs \<Longrightarrow> transactionCount st = -1 \<Longrightarrow> transactionCount (fold (veri_step C cfg) (tx_entries txs) st) = -1"
proof (induction txs arbitrary: st)
  case (Cons t txs)
  obtain b body e where t: "t = (b, body, e)" by (cases t)
  then have "transactionCount (fold (veri_step C cfg) (b # body @ [e]) st) = -1"
    using Cons.prems by (simp add: fold_depth mark_depth)
  then show ?case using Cons.IH Cons.prems(1) t by (simp add: tx_entries_def)
qed (simp add: tx_entries_def)

text \<open>C10: A stray end switches the transaction checker off. After any trace in which every transaction has been ended, one more end prints nothing, and from then on every
  transaction without inner ones is unchecked, whatever it does and however many came before: no assignment in it is rejected, its end prints nothing, and the trace is finished without
  the report of an unbalanced transaction.\<close>

theorem stray_end_disables_checker:
  assumes "transactionCount (after C cfg es) = 0" "mtype e = TRANSACTIONEND" "list_all flat_tx txs" "mtype b = TRANSACTIONBEGIN"
    "list_all (\<lambda>m. \<not> is_tx_mark m) body" "st = after C cfg (es @ [e] @ tx_entries txs @ [b] @ body)"
  shows "stdout (after C cfg (es @ [e])) = stdout (after C cfg es) \<and> fst (VeriProc_Assign C cfg q st) \<noteq> -1 \<and>
    stdout (VeriProc_TransactionEnd C cfg e' st) = stdout st \<and>
    veri_finish (VeriProc_TransactionEnd C cfg e' st) = VeriProc_TransactionEnd C cfg e' st"
proof -
  have e: "after C cfg (es @ [e]) = (after C cfg es)\<lparr>transactionCount := -1\<rparr>" using assms(1,2) by (simp add: mark_depth)
  then have "transactionCount (after C cfg ((es @ [e]) @ tx_entries txs)) = -1"
    using flat_txs_depth [OF assms(3), of "after C cfg (es @ [e])" C cfg] by simp
  then have "transactionCount st = 0" using assms(4,5) by (simp add: assms(6) fold_depth mark_depth)
  then show ?thesis using e by (simp add: assign_outside end_elsewhere veri_finish_def)
qed

theorem stray_end_disables_checker_witness:
  "let st = after segment_lists default_config [entry TRANSACTIONEND 0 0, entry TRANSACTIONBEGIN 0 0, entry ASSIGN 64 8]
   in transactionCount (veri_init segment_lists) = 0 \<and> fst (VeriProc_Assign segment_lists default_config (entry ASSIGN 128 8) st) \<noteq> -1 \<and>
      stdout (VeriProc_TransactionEnd segment_lists default_config (entry TRANSACTIONEND 0 0) st) = stdout st"
proof -
  have h: "transactionCount (after segment_lists default_config []) = 0" "mtype (entry TRANSACTIONEND 0 0) = TRANSACTIONEND" "list_all flat_tx []"
    "mtype (entry TRANSACTIONBEGIN 0 0) = TRANSACTIONBEGIN" "list_all (\<lambda>m. \<not> is_tx_mark m) [entry ASSIGN 64 8]"
    by (simp_all add: entry_def is_tx_mark_def veri_init_def)
  have "[entry TRANSACTIONEND 0 0, entry TRANSACTIONBEGIN 0 0, entry ASSIGN 64 8] =
      [] @ [entry TRANSACTIONEND 0 0] @ tx_entries [] @ [entry TRANSACTIONBEGIN 0 0] @ [entry ASSIGN 64 8]" by (simp add: tx_entries_def)
  then show ?thesis using h(1) stray_end_disables_checker [OF h refl, of "entry ASSIGN 128 8" "entry TRANSACTIONEND 0 0"]
    unfolding Let_def by simp
qed

end
