(* ===== verification/Persistency.thy ===== *)
theory Persistency
  imports Tx_Props
begin

text \<open>
  What the two checkers mean for the memory. The persistency model is the one \<open>src/src/README.md\<close> describes: time is divided into epochs by fences; the bytes
  stored by an assignment of epoch T reach the persistent memory at some epoch \<open>\<ge> T\<close>, and a flush of epoch T that covers them forces this to happen no later
  than T, except in the last section of the trace, which no fence closes: nothing is known about the flushes there. A schedule says, for every assignment and
  byte, in which epoch the write-back happens; the hardware may choose any valid schedule.
\<close>

definition assigns :: "Metadata list \<Rightarrow> nat \<Rightarrow> address \<Rightarrow> bool" where
  "assigns es i x \<longleftrightarrow> i < length es \<and> mtype (es ! i) = ASSIGN \<and> x \<in> bytes (es ! i)"

definition flushes :: "Metadata list \<Rightarrow> nat \<Rightarrow> address \<Rightarrow> bool" where
  "flushes es j x \<longleftrightarrow> j < length es \<and> mtype (es ! j) = FLUSH \<and> x \<in> bytes (es ! j)"

text \<open>A fence after the entry completes it.\<close>

definition completed :: "Metadata list \<Rightarrow> nat \<Rightarrow> bool" where
  "completed es j \<longleftrightarrow> (\<exists>m\<in>set (drop (Suc j) es). mtype m = FENCE)"

text \<open>Only completed flushes force a write-back. At entry \<open>n\<close> of the trace, the entries before it count.\<close>

definition valid_schedule_at :: "Metadata list \<Rightarrow> nat \<Rightarrow> (nat \<Rightarrow> address \<Rightarrow> int) \<Rightarrow> bool" where
  "valid_schedule_at es n w \<longleftrightarrow>
     (\<forall>i x. i < n \<and> assigns es i x \<longrightarrow> epoch es i \<le> w i x \<and>
        (\<forall>j. i < j \<and> j < n \<and> flushes es j x \<and> completed es j \<longrightarrow> w i x \<le> epoch es j))"

definition valid_schedule :: "Metadata list \<Rightarrow> (nat \<Rightarrow> address \<Rightarrow> int) \<Rightarrow> bool" where
  "valid_schedule es w \<longleftrightarrow> valid_schedule_at es (length es) w"

lemma valid_scheduleD:
  assumes "valid_schedule es w" "assigns es i x"
  shows "epoch es i \<le> w i x" "i < j \<Longrightarrow> flushes es j x \<Longrightarrow> completed es j \<Longrightarrow> w i x \<le> epoch es j"
  using assms by (auto simp: valid_schedule_def valid_schedule_at_def assigns_def flushes_def)

text \<open>Two extreme choices of the hardware: to write back at once, and to delay for as long as no flush forces it.\<close>

definition eager_schedule :: "Metadata list \<Rightarrow> nat \<Rightarrow> address \<Rightarrow> int" where
  "eager_schedule es i x = epoch es i"

definition lazy_schedule :: "Metadata list \<Rightarrow> nat \<Rightarrow> nat \<Rightarrow> address \<Rightarrow> int" where
  "lazy_schedule es n i x =
     (if \<exists>j. i < j \<and> j < n \<and> flushes es j x \<and> completed es j then epoch es i else epoch es n + 1)"

lemma eager_schedule_valid: "valid_schedule es (eager_schedule es)"
  by (auto simp: valid_schedule_def valid_schedule_at_def eager_schedule_def intro: epoch_mono)

lemma lazy_schedule_valid: "valid_schedule_at es n (lazy_schedule es n)"
  unfolding valid_schedule_at_def
proof (intro allI impI conjI)
  fix i x assume "i < n \<and> assigns es i x"
  then have "epoch es i \<le> epoch es n" by (simp add: epoch_mono)
  then show "epoch es i \<le> lazy_schedule es n i x" by (simp add: lazy_schedule_def)
  fix j assume "i < j \<and> j < n \<and> flushes es j x \<and> completed es j"
  then show "lazy_schedule es n i x \<le> epoch es j"
    using epoch_mono [of i j es] by (auto simp: lazy_schedule_def)
qed

lemma later_epoch_completed:
  assumes "epoch es i < epoch es k" "mtype (es ! i) \<noteq> FENCE" "i < length es"
  shows "completed es i"
proof -
  have "i < k" using assms(1) epoch_mono [of k i es] by (cases "i < k") auto
  then have "take k es = take i es @ drop i (take k es)" by (metis append_take_drop_id min.absorb1 less_imp_le take_take)
  then have "fences (take k es) = fences (take i es) + fences (drop i (take k es))"
    by (metis fences_def filter_append length_append)
  then have "filter (\<lambda>m. mtype m = FENCE) (drop i (take k es)) \<noteq> []" using assms(1) by (auto simp: epoch_def fences_def)
  then obtain m where m: "m \<in> set (drop i (take k es))" "mtype m = FENCE" by (auto simp: filter_empty_conv)
  then have "m \<in> set (drop i es)" by (metis drop_take in_set_takeD)
  then have "m \<in> set (drop (Suc i) es)" using m(2) assms(2,3) by (auto simp flip: Cons_nth_drop_Suc)
  then show ?thesis using m(2) by (auto simp: completed_def)
qed

lemma assigns_before_last:
  assumes "assigns es i x"
  obtains k where "last_touch es x = Some k" "i \<le> k" "k < length es"
proof (cases "last_touch es x")
  case None
  with assms show ?thesis by (auto simp: last_touch_None assigns_def touches_def)
next
  case (Some k)
  with last_touch_Some [OF Some] assms have "i \<le> k"
    by (meson assigns_def not_le touches_def)
  with Some last_touch_less [OF Some] that show ?thesis by blast
qed

lemma flushed_bound:
  assumes "valid_schedule es w" "assigns es i x" "last_touch es x = Some k" "mtype (es ! k) = FLUSH" "completed es k"
  shows "w i x \<le> epoch es k"
proof -
  obtain k' where k': "last_touch es x = Some k'" "i \<le> k'" using assigns_before_last [OF assms(2)] .
  with assms(3) have "i \<le> k" by simp
  moreover have "i \<noteq> k" using assms(2,4) by (auto simp: assigns_def)
  moreover have "flushes es k x"
    using last_touch_Some [OF assms(3)] last_touch_less [OF assms(3)] assms(4)
    by (simp add: flushes_def touches_def)
  ultimately show ?thesis using valid_scheduleD(2) [OF assms(1,2)] assms(5) by simp
qed

subsection \<open>The entries that \<open>VeriProc\<close> has processed at a query\<close>

definition effective_between :: "Metadata list \<Rightarrow> nat \<Rightarrow> nat \<Rightarrow> Metadata list" where
  "effective_between tr a b = map ((!) tr) (filter (\<lambda>i. mtype (tr ! i) \<noteq> FLUSH \<or> completed tr i) [a ..< b])"

lemma completed_iff: "i < length tr \<Longrightarrow> completed tr i \<longleftrightarrow> i < last_fence tr"
proof (induction tr rule: rev_induct)
  case (snoc m tr)
  show ?case
  proof (cases "i < length tr")
    case True
    then show ?thesis using snoc.IH by (auto simp: completed_def last_fence_snoc)
  next
    case False
    then show ?thesis using snoc.prems last_fence_le [of tr] by (auto simp: completed_def last_fence_snoc)
  qed
qed simp

lemma map_nth_from: "a \<le> length xs \<Longrightarrow> map ((!) xs) [a ..< length xs] = drop a xs"
  by (intro nth_equalityI) simp_all

lemma effective_split:
  assumes "n \<le> length tr"
  shows "effective tr = effective_between tr 0 n @ effective_between tr n (length tr)"
proof -
  let ?P = "\<lambda>i. mtype (tr ! i) \<noteq> FLUSH \<or> completed tr i" and ?L = "last_fence tr"
  have s: "effective_between tr 0 (length tr) = effective_between tr 0 m @ effective_between tr m (length tr)" if "m \<le> length tr" for m
    using upt_add_eq_append [of 0 m "length tr - m"] that by (simp add: effective_between_def)
  have "filter ?P [0 ..< ?L] = [0 ..< ?L]" using completed_iff [of _ tr] last_fence_le [of tr] by (intro filter_True) auto
  then have a: "effective_between tr 0 ?L = take ?L tr"
    using last_fence_le [of tr] by (simp add: effective_between_def) (intro nth_equalityI; simp)
  have "filter ?P [?L ..< length tr] = filter (\<lambda>i. mtype (tr ! i) \<noteq> FLUSH) [?L ..< length tr]"
    using completed_iff [of _ tr] by (intro filter_cong) auto
  then have "effective_between tr ?L (length tr) = filter (\<lambda>m. mtype m \<noteq> FLUSH) (map ((!) tr) [?L ..< length tr])"
    by (simp add: effective_between_def filter_map o_def)
  then have "effective_between tr ?L (length tr) = filter (\<lambda>m. mtype m \<noteq> FLUSH) (drop ?L tr)"
    by (simp add: map_nth_from last_fence_le)
  then have "effective tr = effective_between tr 0 (length tr)" using s [OF last_fence_le] a by (simp add: effective_def)
  then show ?thesis using s [OF assms] by simp
qed

lemma effective_between_Suc: "effective_between tr 0 (Suc n) =
    effective_between tr 0 n @ (if mtype (tr ! n) \<noteq> FLUSH \<or> completed tr n then [tr ! n] else [])"
  by (simp add: effective_between_def)

lemma plain_effective: "plain_trace tr \<Longrightarrow> b \<le> length tr \<Longrightarrow> plain_trace (effective_between tr a b)"
  by (auto simp: plain_trace_def effective_between_def)

text \<open>A byte is dirty at a query when an assignment before it has no completed flush in between.\<close>

lemma effective_dirty:
  assumes "n \<le> length tr" "es = effective_between tr 0 n"
  shows "(\<exists>k. last_touch es x = Some k \<and> mtype (es ! k) = ASSIGN) \<longleftrightarrow>
    (\<exists>i<n. assigns tr i x \<and> (\<forall>j. i < j \<and> j < n \<and> flushes tr j x \<longrightarrow> \<not> completed tr j))"
  using assms
proof (induction n arbitrary: es)
  case 0
  then show ?case by (simp add: effective_between_def)
next
  case (Suc n)
  let ?D = "\<lambda>n. \<exists>i<n. assigns tr i x \<and> (\<forall>j. i < j \<and> j < n \<and> flushes tr j x \<longrightarrow> \<not> completed tr j)"
  define es' where "es' = effective_between tr 0 n"
  have n: "n < length tr" using Suc.prems by simp
  have IH: "(\<exists>k. last_touch es' x = Some k \<and> mtype (es' ! k) = ASSIGN) \<longleftrightarrow> ?D n"
    using Suc.IH [of es'] n by (simp add: es'_def)
  have D: "?D (Suc n) \<longleftrightarrow> assigns tr n x \<or> ?D n \<and> (flushes tr n x \<longrightarrow> \<not> completed tr n)"
    by (auto simp: less_Suc_eq)
  have L: "(\<exists>k. last_touch (es' @ [m]) x = Some k \<and> mtype ((es' @ [m]) ! k) = ASSIGN) \<longleftrightarrow>
      (if touches m x then mtype m = ASSIGN else ?D n)" for m
  proof (cases "touches m x")
    case False
    have "(es' @ [m]) ! k = es' ! k" if "last_touch es' x = Some k" for k using last_touch_less [OF that] by (simp add: nth_append)
    then show ?thesis using False IH by (auto simp: last_touch_snoc)
  qed (simp add: last_touch_snoc)
  show ?case
  proof (cases "mtype (tr ! n) \<noteq> FLUSH \<or> completed tr n")
    case True
    then have "es = es' @ [tr ! n]" using Suc.prems(2) by (simp add: effective_between_Suc es'_def)
    then show ?thesis using L [of "tr ! n"] D True n by (auto simp: touches_def assigns_def flushes_def)
  next
    case False
    then have "es = es'" using Suc.prems(2) by (simp add: effective_between_Suc es'_def)
    then show ?thesis using IH D False by (auto simp: assigns_def)
  qed
qed

lemma effective_at:
  assumes "n < length tr" "mtype (tr ! n) \<noteq> FLUSH"
  shows "effective tr = effective_between tr 0 n @ tr ! n # effective_between tr (Suc n) (length tr)"
  using effective_split [of n tr] assms by (simp add: effective_between_def upt_rec [of n])

subsection \<open>Properties\<close>

text \<open>C1: \<open>isPersist\<close> is sound and complete for the persistency model. \<open>VeriProc\<close> reaches the query at entry \<open>n\<close> of a trace in the state after the entries before
  it, without the flushes that no fence of the trace completes; and the query passes if and only if under every valid write-back schedule every earlier assignment
  to every byte of the range has reached persistent memory by the epoch of the query. A flush in the last section does not count.\<close>

theorem persist_check_sound_complete:
  assumes "icl C aset amap wf_set wf_map" "fv_ok v" "tr = fv_list v" "plain_trace tr" "n < length tr" "mtype (tr ! n) = PERSIST"
    "st = after C cfg (effective_between tr 0 n)"
  shows "VeriProc C cfg v =
      veri_finish (fold (veri_step C cfg) (effective_between tr (Suc n) (length tr)) (snd (VeriProc_Persist C cfg (tr ! n) st))) \<and>
    (fst (VeriProc_Persist C cfg (tr ! n) st) \<noteq> -1 \<longleftrightarrow>
      (\<forall>w. valid_schedule_at tr n w \<longrightarrow> (\<forall>x\<in>bytes (tr ! n). \<forall>i<n. assigns tr i x \<longrightarrow> w i x \<le> epoch tr n)))"
    (is "?run \<and> (?pass \<longleftrightarrow> ?persisted)")
proof (rule conjI)
  have "effective tr = effective_between tr 0 n @ tr ! n # effective_between tr (Suc n) (length tr)"
    by (rule effective_at) (simp_all add: assms(5,6))
  then show ?run using VeriProc_run [OF assms(2), of C cfg] assms(3,6,7) by (simp add: veri_step_def)
  let ?es = "effective_between tr 0 n" and ?forced = "\<lambda>i x. \<exists>j. i < j \<and> j < n \<and> flushes tr j x \<and> completed tr j"
  have "no_wrap (addr (tr ! n)) (msize (tr ! n))" using assms(4,5) nth_mem [OF assms(5)] by (auto simp: plain_trace_def wf_entry_def)
  moreover have "plain_trace ?es" by (rule plain_effective [OF assms(4)]) (use assms(5) in simp)
  ultimately have "?pass \<longleftrightarrow> \<not> (\<exists>x\<in>bytes (tr ! n). \<exists>k. last_touch ?es x = Some k \<and> mtype (?es ! k) = ASSIGN)"
    using icl.run_persist [OF assms(1), of ?es] by (simp add: assms(7))
  also have "\<dots> \<longleftrightarrow> (\<forall>x\<in>bytes (tr ! n). \<forall>i<n. assigns tr i x \<longrightarrow> ?forced i x)"
    using effective_dirty [OF less_imp_le [OF assms(5)] refl] by blast
  also have "\<dots> \<longleftrightarrow> ?persisted"
  proof
    assume f: "\<forall>x\<in>bytes (tr ! n). \<forall>i<n. assigns tr i x \<longrightarrow> ?forced i x"
    show ?persisted
    proof (intro allI ballI impI)
      fix w x i assume w: "valid_schedule_at tr n w" and i: "x \<in> bytes (tr ! n)" "i < n" "assigns tr i x"
      then obtain j where j: "i < j" "j < n" "flushes tr j x" "completed tr j" using f by blast
      then have "w i x \<le> epoch tr j" using w i unfolding valid_schedule_at_def by blast
      also have "\<dots> \<le> epoch tr n" using j(2) by (simp add: epoch_mono)
      finally show "w i x \<le> epoch tr n" .
    qed
  next
    assume p: ?persisted
    show "\<forall>x\<in>bytes (tr ! n). \<forall>i<n. assigns tr i x \<longrightarrow> ?forced i x"
    proof (intro ballI allI impI, rule ccontr)
      fix x i assume i: "x \<in> bytes (tr ! n)" "i < n" "assigns tr i x" and nf: "\<not> ?forced i x"
      have "lazy_schedule tr n i x = epoch tr n + 1" unfolding lazy_schedule_def by (rule if_not_P [OF nf])
      moreover have "lazy_schedule tr n i x \<le> epoch tr n" using p lazy_schedule_valid i by blast
      ultimately show False by simp
    qed
  qed
  finally show "?pass \<longleftrightarrow> ?persisted" .
qed

definition flushed_trace :: "Metadata list" where
  "flushed_trace = [entry ASSIGN 64 4, entry FLUSH 64 4, entry FENCE 0 0, entry ASSIGN 128 4, entry FLUSH 128 4, entry PERSIST 64 4, entry PERSIST 128 4]"

theorem persist_check_sound_complete_witness:
  "let tr = flushed_trace
   in plain_trace tr \<and> (\<forall>w. valid_schedule_at tr 5 w \<longrightarrow> (\<forall>x\<in>bytes (tr ! 5). \<forall>i<5. assigns tr i x \<longrightarrow> w i x \<le> epoch tr 5)) \<and>
      \<not> (\<forall>w. valid_schedule_at tr 6 w \<longrightarrow> (\<forall>x\<in>bytes (tr ! 6). \<forall>i<6. assigns tr i x \<longrightarrow> w i x \<le> epoch tr 6))"
proof -
  let ?v = "fold fv_push_back flushed_trace fv_new"
  have v: "fv_ok ?v" "fv_list ?v = flushed_trace" by (rule fv.fill_new)+
  have p: "plain_trace flushed_trace" by (simp add: flushed_trace_def entry_eval)
  have n: "5 < length flushed_trace" "mtype (flushed_trace ! 5) = PERSIST" "6 < length flushed_trace" "mtype (flushed_trace ! 6) = PERSIST"
    by (simp_all add: flushed_trace_def entry_def)
  have "fst (VeriProc_Persist segment_lists default_config (flushed_trace ! 5)
      (after segment_lists default_config (effective_between flushed_trace 0 5))) \<noteq> -1" by code_simp
  moreover have "fst (VeriProc_Persist segment_lists default_config (flushed_trace ! 6)
      (after segment_lists default_config (effective_between flushed_trace 0 6))) = -1" by code_simp
  ultimately show ?thesis
    using p persist_check_sound_complete [OF seglist.icl_axioms v(1) v(2) [symmetric] p n(1,2) refl, of default_config]
      persist_check_sound_complete [OF seglist.icl_axioms v(1) v(2) [symmetric] p n(3,4) refl, of default_config]
    by (simp only: Let_def simp_thms)
qed

text \<open>C4: \<open>isOrderedBefore\<close> is sound where the late range has not been written back early. If the check
  accepts A, B, then under every valid schedule every assignment to a byte of A reaches memory in
  an earlier epoch than the last assignment to a byte of B, provided that byte was assigned in the
  epoch of its last touch (it is unflushed, or flushed in the epoch it was assigned in).\<close>

theorem order_check_sound:
  assumes "icl C aset amap wf_set wf_map" "plain_trace es" "int (length es) < INT_MAX - 1"
    "wf_entry q" "mtype q = ORDER" "bytes q \<noteq> {}" "bytes_late q \<noteq> {}"
    "fst (VeriProc_Order C cfg q (after C cfg es)) = 0"
    "valid_schedule es w" "x \<in> bytes q" "assigns es i x" "y \<in> bytes_late q" "assigns es j y"
    "last_touch es y = Some k" "epoch es k = epoch es j"
  shows "w i x < w j y"
proof -
  obtain n where n: "last_touch es x = Some n" "mtype (es ! n) = FLUSH" "epoch es n < epoch es k"
    using icl.run_order_exact [OF assms(1-7), of cfg] assms(8,10,12,14) by fastforce
  have "completed es n" by (rule later_epoch_completed [OF n(3)]) (simp_all add: n(2) last_touch_less [OF n(1)])
  from flushed_bound [OF assms(9,11) n(1,2) this] have "w i x \<le> epoch es n" .
  also have "\<dots> < epoch es j" using n(3) assms(15) by simp
  also have "\<dots> \<le> w j y" using valid_scheduleD(1) [OF assms(9,13)] .
  finally show ?thesis .
qed

theorem order_check_sound_witness:
  "let w = eager_schedule ordered_trace
   in valid_schedule ordered_trace w \<and> w 0 64 < w 3 128"
proof -
  let ?q = "order_entry 64 4 128 4"
  have q: "wf_entry ?q" "mtype ?q = ORDER" "bytes ?q \<noteq> {}" "bytes_late ?q \<noteq> {}"
    by (simp_all add: entry_eval)
  have xy: "64 \<in> bytes ?q" "assigns ordered_trace 0 64" "128 \<in> bytes_late ?q"
    "assigns ordered_trace 3 128" "last_touch ordered_trace 128 = Some 3"
    by (simp_all add: entry_eval assigns_def ordered_trace_def last_touch_def touches_def upt_rec)
  show ?thesis
    using eager_schedule_valid [of ordered_trace] order_check_sound [OF seglist.icl_axioms
        ordered_trace_plain q ordered_trace_check eager_schedule_valid xy refl]
    by (simp only: Let_def simp_thms)
qed







end
