(* ===== verification/Worker_Pool.thy ===== *)
theory Worker_Pool
  imports Engine
begin

text \<open>
  The worker pool of \<open>src/src/pmtest.cc\<close>: \<open>PMTest::initVeri\<close>, \<open>execVeri\<close>, \<open>getVeri\<close>, \<open>termVeri\<close> and
  \<open>VeriWorker\<close>, as the interleaving of one client thread with \<open>n = MAX_THREAD_POOL_SIZE\<close> workers.

  Every read or write of a shared variable is a step of its own. A thread is a program counter;
  \<open>worker_next\<close> is the next step of a worker and \<open>main_next\<close> the next step of the client thread inside a
  call, both \<open>None\<close> when the thread has to wait. The mutex \<open>VeriQueueMutex[i]\<close> is contended only by worker
  \<open>i\<close> and the client, and the client holds it only for single operations, so it is the set \<open>holds\<close> of
  counters at which the worker has the lock, and a client step that takes the lock waits for the worker to
  leave that set. A worker in \<open>VeriQueueCV[i].wait\<close> is at \<open>Waiting\<close>; a notification moves it to \<open>Woken\<close>, and
  so may a spurious wake-up. \<open>VeriResult temp\<close> is never initialised in the source, so the result that a worker
  stores is a parameter of its step. What \<open>VeriProc\<close> prints for a trace is the parameter \<open>pr\<close>.
\<close>

subsection \<open>State\<close>

datatype ResultType = PASS | FAIL

record VeriResult =
  vresult :: ResultType

datatype 't wpc =
    NotStarted | Spin | Lock | CondTerm | CondGet | CondQueue | Waiting | Woken
  | CheckTerm | CheckCompleted | CheckGet | CheckQueue | SetCompleted
  | Take | Proc 't | Store | Exited

record ('t, 'o) worker =
  wpc :: "'t wpc"
  termSignal :: bool
  getResultSignal :: bool
  completedStateMap :: bool
  VeriQueue :: "'t list"
  ResultVector :: "VeriResult FastVector"
  verified :: "'t list"
  wout :: "'o list"

datatype 't mpc =
    InitCreate nat | InitTerm nat | InitGet nat | InitCompleted nat
  | Idle
  | ExecPush 't | ExecNotify
  | GetSignal nat | GetPoll nat nat | GetNotify nat
  | GetMerge nat "VeriResult FastVector" | GetReset nat "VeriResult FastVector"
  | GetNotifyEnd nat "VeriResult FastVector" | GetClear nat "VeriResult FastVector"
  | GetDone "VeriResult FastVector"
  | TermSignal nat | TermNotify nat | TermJoin nat | Deleted

record ('t, 'o) pool =
  mpc :: "'t mpc"
  assignTo :: nat
  WorkerInfo :: "nat \<Rightarrow> ('t, 'o) worker"
  sent :: "'t list"

subsection \<open>Workers\<close>

definition holds :: "'t wpc \<Rightarrow> bool" where
  "holds p = (case p of CondTerm \<Rightarrow> True | CondGet \<Rightarrow> True | CondQueue \<Rightarrow> True | CheckTerm \<Rightarrow> True
     | CheckCompleted \<Rightarrow> True | CheckGet \<Rightarrow> True | CheckQueue \<Rightarrow> True | SetCompleted \<Rightarrow> True
     | Take \<Rightarrow> True | _ \<Rightarrow> False)"

definition worker_next ::
  "('t \<Rightarrow> 'o list) \<Rightarrow> VeriResult \<Rightarrow> ('t, 'o) worker \<Rightarrow> ('t, 'o) worker option" where
  "worker_next pr temp w =
     (case wpc w of
        NotStarted \<Rightarrow> None
      | Spin \<Rightarrow> if termSignal w then None else Some (w\<lparr>wpc := Lock\<rparr>)
      | Lock \<Rightarrow> Some (w\<lparr>wpc := CondTerm\<rparr>)
      | CondTerm \<Rightarrow> Some (w\<lparr>wpc := if termSignal w then CheckTerm else CondGet\<rparr>)
      | CondGet \<Rightarrow> Some (w\<lparr>wpc := if getResultSignal w then CheckTerm else CondQueue\<rparr>)
      | CondQueue \<Rightarrow> Some (w\<lparr>wpc := if VeriQueue w \<noteq> [] then CheckTerm else Waiting\<rparr>)
      | Waiting \<Rightarrow> None
      | Woken \<Rightarrow> Some (w\<lparr>wpc := CondTerm\<rparr>)
      | CheckTerm \<Rightarrow> Some (w\<lparr>wpc := if termSignal w then Exited else CheckCompleted\<rparr>)
      | CheckCompleted \<Rightarrow> Some (w\<lparr>wpc := if completedStateMap w then Take else CheckGet\<rparr>)
      | CheckGet \<Rightarrow> Some (w\<lparr>wpc := if getResultSignal w then CheckQueue else Take\<rparr>)
      | CheckQueue \<Rightarrow> Some (w\<lparr>wpc := if VeriQueue w = [] then SetCompleted else Take\<rparr>)
      | SetCompleted \<Rightarrow> Some (w\<lparr>completedStateMap := True, wpc := Lock\<rparr>)
      | Take \<Rightarrow> (case VeriQueue w of
                   [] \<Rightarrow> Some (w\<lparr>wpc := Lock\<rparr>)
                 | veriptr # q \<Rightarrow> Some (w\<lparr>VeriQueue := q, wpc := Proc veriptr\<rparr>))
      | Proc veriptr \<Rightarrow> Some (w\<lparr>verified := verified w @ [veriptr], wout := wout w @ pr veriptr,
                               wpc := Store\<rparr>)
      | Store \<Rightarrow> Some (w\<lparr>ResultVector := fv_push_back temp (ResultVector w), wpc := Lock\<rparr>)
      | Exited \<Rightarrow> None)"

definition notify :: "('t, 'o) worker \<Rightarrow> ('t, 'o) worker" where
  "notify w = (if wpc w = Waiting then w\<lparr>wpc := Woken\<rparr> else w)"

subsection \<open>The client thread\<close>

definition upd_worker ::
  "nat \<Rightarrow> (('t, 'o) worker \<Rightarrow> ('t, 'o) worker) \<Rightarrow> ('t, 'o) pool \<Rightarrow> ('t, 'o) pool" where
  "upd_worker i f s = s\<lparr>WorkerInfo := (WorkerInfo s)(i := f (WorkerInfo s i))\<rparr>"

definition goto :: "'t mpc \<Rightarrow> ('t, 'o) pool \<Rightarrow> ('t, 'o) pool" where
  "goto p s = s\<lparr>mpc := p\<rparr>"

text \<open>A step that needs \<open>VeriQueueMutex[i]\<close> is possible only when the worker does not hold it.\<close>

definition locked :: "nat \<Rightarrow> (('t, 'o) pool \<Rightarrow> ('t, 'o) pool) \<Rightarrow> ('t, 'o) pool \<Rightarrow> ('t, 'o) pool option" where
  "locked i f s = (if holds (wpc (WorkerInfo s i)) then None else Some (f s))"

definition initVeri_next :: "nat \<Rightarrow> ('t, 'o) pool \<Rightarrow> ('t, 'o) pool option" where
  "initVeri_next n s =
     (case mpc s of
        InitCreate i \<Rightarrow> Some (if i < n then goto (InitCreate (Suc i)) (upd_worker i (\<lambda>w. w\<lparr>wpc := Spin\<rparr>) s)
                              else goto (InitTerm 0) s)
      | InitTerm i \<Rightarrow> Some (if i < n then goto (InitTerm (Suc i)) (upd_worker i (\<lambda>w. w\<lparr>termSignal := False\<rparr>) s)
                            else goto (InitGet 0) s)
      | InitGet i \<Rightarrow> Some (if i < n then goto (InitGet (Suc i)) (upd_worker i (\<lambda>w. w\<lparr>getResultSignal := False\<rparr>) s)
                           else goto (InitCompleted 0) s)
      | InitCompleted i \<Rightarrow>
          Some (if i < n then goto (InitCompleted (Suc i)) (upd_worker i (\<lambda>w. w\<lparr>completedStateMap := False\<rparr>) s)
                else goto Idle (s\<lparr>assignTo := 0\<rparr>))
      | _ \<Rightarrow> None)"

definition execVeri_next :: "nat \<Rightarrow> ('t, 'o) pool \<Rightarrow> ('t, 'o) pool option" where
  "execVeri_next n s =
     (case mpc s of
        ExecPush input \<Rightarrow> locked (assignTo s) (\<lambda>s. goto ExecNotify
          (upd_worker (assignTo s) (\<lambda>w. w\<lparr>VeriQueue := VeriQueue w @ [input]\<rparr>) (s\<lparr>sent := sent s @ [input]\<rparr>))) s
      | ExecNotify \<Rightarrow> Some (goto Idle
          ((upd_worker (assignTo s) notify s)\<lparr>assignTo := (assignTo s + 1) mod n\<rparr>))
      | _ \<Rightarrow> None)"

definition getVeri_next :: "nat \<Rightarrow> ('t, 'o) pool \<Rightarrow> ('t, 'o) pool option" where
  "getVeri_next n s =
     (case mpc s of
        GetSignal i \<Rightarrow> Some (if i < n then goto (GetSignal (Suc i)) (upd_worker i (\<lambda>w. w\<lparr>getResultSignal := True\<rparr>) s)
                             else goto (GetPoll 0 0) s)
      | GetPoll i tmp \<Rightarrow> Some (if i < n
          then goto (GetPoll (Suc i) (tmp + of_bool (completedStateMap (WorkerInfo s i)))) s
          else if tmp = n then goto (GetMerge 0 fv_new) s else goto (GetNotify 0) s)
      | GetNotify i \<Rightarrow> if i < n then locked i (\<lambda>s. goto (GetNotify (Suc i)) (upd_worker i notify s)) s
                       else Some (goto (GetPoll 0 0) s)
      | GetMerge i out \<Rightarrow> Some (if i < n then goto (GetMerge (Suc i) (fv_append (ResultVector (WorkerInfo s i)) out)) s
                                else goto (GetReset 0 out) s)
      | GetReset i out \<Rightarrow> Some (if i < n then goto (GetReset (Suc i) out) (upd_worker i (\<lambda>w. w\<lparr>getResultSignal := False\<rparr>) s)
                                else goto (GetNotifyEnd 0 out) s)
      | GetNotifyEnd i out \<Rightarrow> if i < n then locked i (\<lambda>s. goto (GetNotifyEnd (Suc i) out) (upd_worker i notify s)) s
                              else Some (goto (GetClear 0 out) s)
      | GetClear i out \<Rightarrow> Some (if i < n then goto (GetClear (Suc i) out) (upd_worker i (\<lambda>w. w\<lparr>completedStateMap := False\<rparr>) s)
                                else goto (GetDone out) s)
      | _ \<Rightarrow> None)"

definition termVeri_next :: "nat \<Rightarrow> ('t, 'o) pool \<Rightarrow> ('t, 'o) pool option" where
  "termVeri_next n s =
     (case mpc s of
        TermSignal i \<Rightarrow> Some (if i < n then goto (TermSignal (Suc i)) (upd_worker i (\<lambda>w. w\<lparr>termSignal := True\<rparr>) s)
                              else goto (TermNotify 0) s)
      | TermNotify i \<Rightarrow> if i < n then locked i (\<lambda>s. goto (TermNotify (Suc i)) (upd_worker i notify s)) s
                        else Some (goto (TermJoin 0) s)
      | TermJoin i \<Rightarrow> if i < n then if wpc (WorkerInfo s i) = Exited then Some (goto (TermJoin (Suc i)) s) else None
                      else Some (goto Deleted s)
      | _ \<Rightarrow> None)"

definition main_next :: "nat \<Rightarrow> ('t, 'o) pool \<Rightarrow> ('t, 'o) pool option" where
  "main_next n s =
     (case mpc s of
        InitCreate _ \<Rightarrow> initVeri_next n s | InitTerm _ \<Rightarrow> initVeri_next n s
      | InitGet _ \<Rightarrow> initVeri_next n s | InitCompleted _ \<Rightarrow> initVeri_next n s
      | ExecPush _ \<Rightarrow> execVeri_next n s | ExecNotify \<Rightarrow> execVeri_next n s
      | TermSignal _ \<Rightarrow> termVeri_next n s | TermNotify _ \<Rightarrow> termVeri_next n s
      | TermJoin _ \<Rightarrow> termVeri_next n s
      | _ \<Rightarrow> getVeri_next n s)"

text \<open>The calls of the client: \<open>getVeri\<close> returns at \<open>GetDone\<close>, and the client is then free again.\<close>

datatype 't call = CallExec 't | CallGet | CallDelete

fun enter :: "'t call \<Rightarrow> 't mpc" where
  "enter (CallExec t) = ExecPush t"
| "enter CallGet = GetSignal 0"
| "enter CallDelete = TermSignal 0"

subsection \<open>Interleavings\<close>

inductive pool_step :: "('t \<Rightarrow> 'o list) \<Rightarrow> nat \<Rightarrow> ('t, 'o) pool \<Rightarrow> ('t, 'o) pool \<Rightarrow> bool"
  for pr n where
  worker: "i < n \<Longrightarrow> worker_next pr temp (WorkerInfo s i) = Some w \<Longrightarrow> pool_step pr n s (upd_worker i (\<lambda>_. w) s)"
| spurious: "i < n \<Longrightarrow> pool_step pr n s (upd_worker i notify s)"
| main: "main_next n s = Some s' \<Longrightarrow> pool_step pr n s s'"
| call: "mpc s = Idle \<Longrightarrow> pool_step pr n s (goto (enter c) s)"
| ret: "mpc s = GetDone out \<Longrightarrow> pool_step pr n s (goto Idle s)"

text \<open>The object as \<open>new PMTest()\<close> allocates it: the flags hold whatever the memory held before.\<close>

record flags =
  f_term :: bool
  f_get :: bool
  f_completed :: bool

definition fresh_worker :: "flags \<Rightarrow> ('t, 'o) worker" where
  "fresh_worker g = \<lparr>wpc = NotStarted, termSignal = f_term g, getResultSignal = f_get g,
     completedStateMap = f_completed g, VeriQueue = [], ResultVector = fv_new, verified = [], wout = []\<rparr>"

definition fresh_pool :: "(nat \<Rightarrow> flags) \<Rightarrow> ('t, 'o) pool" where
  "fresh_pool g = \<lparr>mpc = InitCreate 0, assignTo = 0, WorkerInfo = (\<lambda>i. fresh_worker (g i)), sent = []\<rparr>"

definition reachable :: "('t \<Rightarrow> 'o list) \<Rightarrow> nat \<Rightarrow> (nat \<Rightarrow> flags) \<Rightarrow> ('t, 'o) pool \<Rightarrow> bool" where
  "reachable pr n g s \<longleftrightarrow> (pool_step pr n)\<^sup>*\<^sup>* (fresh_pool g) s"

end
