(* ===== verification/Pool_Inv.thy ===== *)
theory Pool_Inv
  imports Worker_Pool
begin

text \<open>
  Invariants of the worker pool. What a worker may assume about the client is a function of the client's
  program counter (\<open>get_on\<close>, \<open>term_on\<close>, \<open>window\<close>, ...); \<open>winv\<close> relates one worker to it, \<open>minv\<close> is about the client
  alone, and \<open>pool_inv\<close>, their conjunction, holds in every reachable state.
\<close>

subsection \<open>What the client's position says about worker \<open>i\<close>\<close>

definition get_on :: "'t mpc \<Rightarrow> nat \<Rightarrow> bool" where
  "get_on p i = (case p of GetSignal j \<Rightarrow> i < j | GetPoll _ _ \<Rightarrow> True | GetNotify _ \<Rightarrow> True
     | GetMerge _ _ \<Rightarrow> True | GetReset j _ \<Rightarrow> j \<le> i | _ \<Rightarrow> False)"

definition term_on :: "'t mpc \<Rightarrow> nat \<Rightarrow> bool" where
  "term_on p i = (case p of TermSignal j \<Rightarrow> i < j | TermNotify _ \<Rightarrow> True | TermJoin _ \<Rightarrow> True
     | Deleted \<Rightarrow> True | _ \<Rightarrow> False)"

definition term_known :: "'t mpc \<Rightarrow> nat \<Rightarrow> bool" where
  "term_known p i = (case p of InitCreate _ \<Rightarrow> False | InitTerm j \<Rightarrow> i < j | _ \<Rightarrow> True)"

definition comp_known :: "'t mpc \<Rightarrow> nat \<Rightarrow> bool" where
  "comp_known p i = (case p of InitCreate _ \<Rightarrow> False | InitTerm _ \<Rightarrow> False | InitGet _ \<Rightarrow> False
     | InitCompleted j \<Rightarrow> i < j | _ \<Rightarrow> True)"

definition comp_may :: "'t mpc \<Rightarrow> nat \<Rightarrow> bool" where
  "comp_may p i = (case p of GetSignal j \<Rightarrow> i < j | GetPoll _ _ \<Rightarrow> True | GetNotify _ \<Rightarrow> True
     | GetMerge _ _ \<Rightarrow> True | GetReset _ _ \<Rightarrow> True | GetNotifyEnd _ _ \<Rightarrow> True
     | GetClear j _ \<Rightarrow> j \<le> i | _ \<Rightarrow> False)"

definition comp_must :: "'t mpc \<Rightarrow> nat \<Rightarrow> bool" where
  "comp_must p i = (case p of GetPoll j tmp \<Rightarrow> tmp = j \<and> i < j | GetMerge _ _ \<Rightarrow> True
     | GetReset _ _ \<Rightarrow> True | GetNotifyEnd _ _ \<Rightarrow> True | GetClear j _ \<Rightarrow> j \<le> i | _ \<Rightarrow> False)"

definition settled :: "'t mpc \<Rightarrow> nat \<Rightarrow> bool" where
  "settled p i = (case p of GetClear j _ \<Rightarrow> i < j | GetDone _ \<Rightarrow> True | _ \<Rightarrow> False)"

definition window :: "'t mpc \<Rightarrow> nat \<Rightarrow> bool" where
  "window p i = (case p of GetSignal j \<Rightarrow> i < j | GetPoll _ _ \<Rightarrow> True | GetNotify _ \<Rightarrow> True | _ \<Rightarrow> False)"

definition term_notified :: "'t mpc \<Rightarrow> nat \<Rightarrow> bool" where
  "term_notified p i = (case p of TermNotify j \<Rightarrow> i < j | TermJoin _ \<Rightarrow> True | Deleted \<Rightarrow> True | _ \<Rightarrow> False)"

definition started :: "'t mpc \<Rightarrow> nat \<Rightarrow> bool" where
  "started p i = (case p of InitCreate j \<Rightarrow> i < j | _ \<Rightarrow> True)"

lemmas view_defs = get_on_def term_on_def term_known_def comp_known_def comp_may_def comp_must_def
  settled_def window_def term_notified_def started_def

lemma window_if: "get_on p i \<Longrightarrow> \<not> comp_must p i \<Longrightarrow> window p i"
  by (simp add: view_defs split: mpc.splits)

lemma window_may: "window p i \<Longrightarrow> comp_may p i"
  by (simp add: view_defs split: mpc.splits)

lemma term_notified_on: "term_notified p i \<Longrightarrow> term_on p i \<and> term_known p i"
  by (simp add: view_defs split: mpc.splits)

subsection \<open>The traces of a worker\<close>

definition assigned :: "nat \<Rightarrow> nat \<Rightarrow> 't list \<Rightarrow> 't list" where
  "assigned n i ts = map (\<lambda>k. ts ! k) (filter (\<lambda>k. k mod n = i) [0 ..< length ts])"

lemma assigned_Nil [simp]: "assigned n i [] = []"
  by (simp add: assigned_def)

lemma assigned_snoc:
  "assigned n i (ts @ [t]) = assigned n i ts @ (if length ts mod n = i then [t] else [])"
  by (auto simp: assigned_def nth_append intro!: map_cong)

lemma assigned_total: "0 < n \<Longrightarrow> (\<Sum>i<n. length (assigned n i ts)) = length ts"
proof (induction ts rule: rev_induct)
  case (snoc t ts)
  have "(\<Sum>i<n. length (if length ts mod n = i then [t] else [])) = (\<Sum>i<n. if i = length ts mod n then 1 else 0)"
    by (rule sum.cong) auto
  also have "\<dots> = 1" using snoc.prems by simp
  finally show ?case using snoc by (simp add: assigned_snoc sum.distrib)
qed simp

definition inflight :: "('t, 'o) worker \<Rightarrow> 't list" where
  "inflight w = (case wpc w of Proc t \<Rightarrow> [t] | _ \<Rightarrow> [])"

definition quiet :: "('t, 'o) worker \<Rightarrow> bool" where
  "quiet w \<longleftrightarrow> VeriQueue w = [] \<and> wpc w \<noteq> Store \<and> inflight w = []"

subsection \<open>The invariant\<close>

definition winv_flags :: "'t mpc \<Rightarrow> nat \<Rightarrow> ('t, 'o) worker \<Rightarrow> bool" where
  "winv_flags p i w \<longleftrightarrow>
     getResultSignal w = get_on p i \<and>
     (term_known p i \<longrightarrow> termSignal w = term_on p i) \<and>
     (comp_known p i \<and> completedStateMap w \<longrightarrow> comp_may p i \<and> quiet w) \<and>
     (comp_must p i \<longrightarrow> completedStateMap w) \<and>
     (settled p i \<longrightarrow> quiet w)"

definition winv_pc :: "'t mpc \<Rightarrow> nat \<Rightarrow> nat \<Rightarrow> ('t, 'o) worker \<Rightarrow> bool" where
  "winv_pc p asg i w \<longleftrightarrow>
     (wpc w \<in> {CheckGet, CheckQueue, SetCompleted} \<longrightarrow> \<not> completedStateMap w) \<and>
     (wpc w \<in> {CheckQueue, SetCompleted} \<longrightarrow> window p i) \<and>
     (wpc w = SetCompleted \<longrightarrow> VeriQueue w = []) \<and>
     (wpc w = Waiting \<and> VeriQueue w \<noteq> [] \<longrightarrow> p = ExecNotify \<and> asg = i) \<and>
     (term_notified p i \<longrightarrow> wpc w \<notin> {CondGet, CondQueue, Waiting}) \<and>
     (wpc w = NotStarted \<longleftrightarrow> \<not> started p i)"

definition winv_data :: "('t \<Rightarrow> 'o list) \<Rightarrow> 't list \<Rightarrow> ('t, 'o) worker \<Rightarrow> bool" where
  "winv_data pr mine w \<longleftrightarrow>
     verified w @ inflight w @ VeriQueue w = mine \<and>
     fv_ok (ResultVector w) \<and>
     length (fv_list (ResultVector w)) + of_bool (wpc w = Store) = length (verified w) \<and>
     wout w = concat (map pr (verified w))"

definition minv :: "nat \<Rightarrow> ('t, 'o) pool \<Rightarrow> bool" where
  "minv n s \<longleftrightarrow>
     (case mpc s of
        InitCreate _ \<Rightarrow> sent s = [] | InitTerm _ \<Rightarrow> sent s = [] | InitGet _ \<Rightarrow> sent s = []
      | InitCompleted _ \<Rightarrow> sent s = []
      | ExecNotify \<Rightarrow> assignTo s < n \<and> (assignTo s + 1) mod n = length (sent s) mod n
      | _ \<Rightarrow> assignTo s = length (sent s) mod n) \<and>
     (case mpc s of
        GetPoll j tmp \<Rightarrow> tmp \<le> j \<and> j \<le> n
      | GetMerge j out \<Rightarrow> j \<le> n \<and> fv_ok out \<and>
          length (fv_list out) = (\<Sum>i<j. length (assigned n i (sent s)))
      | GetReset j out \<Rightarrow> j \<le> n \<and> fv_ok out \<and> length (fv_list out) = length (sent s)
      | GetNotifyEnd _ out \<Rightarrow> fv_ok out \<and> length (fv_list out) = length (sent s)
      | GetClear j out \<Rightarrow> j \<le> n \<and> fv_ok out \<and> length (fv_list out) = length (sent s)
      | GetDone out \<Rightarrow> fv_ok out \<and> length (fv_list out) = length (sent s)
      | InitCreate j \<Rightarrow> j \<le> n | InitTerm j \<Rightarrow> j \<le> n | InitCompleted j \<Rightarrow> j \<le> n
      | GetSignal j \<Rightarrow> j \<le> n | TermSignal j \<Rightarrow> j \<le> n | TermNotify j \<Rightarrow> j \<le> n
      | _ \<Rightarrow> True)"

definition winv :: "('t \<Rightarrow> 'o list) \<Rightarrow> nat \<Rightarrow> ('t, 'o) pool \<Rightarrow> nat \<Rightarrow> bool" where
  "winv pr n s i \<longleftrightarrow> winv_flags (mpc s) i (WorkerInfo s i) \<and> winv_pc (mpc s) (assignTo s) i (WorkerInfo s i) \<and>
     winv_data pr (assigned n i (sent s)) (WorkerInfo s i)"

definition pool_inv :: "('t \<Rightarrow> 'o list) \<Rightarrow> nat \<Rightarrow> ('t, 'o) pool \<Rightarrow> bool" where
  "pool_inv pr n s \<longleftrightarrow> minv n s \<and> (\<forall>i<n. winv pr n s i)"

subsection \<open>Steps of a worker\<close>

lemma worker_winv_data:
  assumes "winv_data pr mine w" "worker_next pr temp w = Some w'"
  shows "winv_data pr mine w'"
  using assms
  by (cases "wpc w")
    (auto simp: worker_next_def winv_data_def inflight_def fv_push_back_ok fv_push_back_list
      split: if_splits list.splits)

lemma worker_quiet: "quiet w \<Longrightarrow> worker_next pr temp w = Some w' \<Longrightarrow> quiet w'"
  by (cases "wpc w") (auto simp: worker_next_def quiet_def inflight_def split: if_splits)

lemma worker_flags_same:
  assumes "worker_next pr temp w = Some w'"
  shows "getResultSignal w' = getResultSignal w" "termSignal w' = termSignal w"
    "completedStateMap w' = (completedStateMap w \<or> wpc w = SetCompleted)"
  using assms by (cases "wpc w"; auto simp: worker_next_def split: if_splits list.splits)+

lemma worker_winv_flags:
  assumes "winv_flags p i w" "winv_pc p asg i w" "worker_next pr temp w = Some w'"
  shows "winv_flags p i w'"
proof -
  have "quiet w'" if "wpc w = SetCompleted"
    using that assms(2,3) by (auto simp: worker_next_def winv_pc_def quiet_def inflight_def)
  moreover have "comp_may p i" if "wpc w = SetCompleted"
    using that assms(2) by (simp add: winv_pc_def window_may)
  ultimately show ?thesis
    using assms(1) worker_flags_same [OF assms(3)] worker_quiet [OF _ assms(3)]
    by (auto simp: winv_flags_def)
qed

lemma worker_winv_pc:
  assumes "winv_flags p i w" "winv_pc p asg i w" "worker_next pr temp w = Some w'"
  shows "winv_pc p asg i w'"
proof -
  have g: "getResultSignal w \<Longrightarrow> \<not> completedStateMap w \<Longrightarrow> window p i"
    using assms(1) window_if [of p i] by (auto simp: winv_flags_def)
  have t: "term_notified p i \<Longrightarrow> termSignal w"
    using assms(1) term_notified_on [of p i] by (simp add: winv_flags_def)
  show ?thesis
  proof (cases "wpc w")
    case Take
    then show ?thesis using assms(2,3)
      by (auto simp: worker_next_def winv_pc_def split: list.splits)
  qed (use assms(2,3) g t in \<open>auto simp: worker_next_def winv_pc_def split: if_splits\<close>)
qed

subsection \<open>Steps of the client\<close>

lemma notify_simps [simp]:
  "termSignal (notify w) = termSignal w" "getResultSignal (notify w) = getResultSignal w"
  "completedStateMap (notify w) = completedStateMap w" "VeriQueue (notify w) = VeriQueue w"
  "ResultVector (notify w) = ResultVector w" "verified (notify w) = verified w" "wout (notify w) = wout w"
  "wpc (notify w) = (if wpc w = Waiting then Woken else wpc w)"
  "inflight (notify w) = inflight w" "quiet (notify w) = quiet w"
  by (auto simp: notify_def inflight_def quiet_def)

lemma worker_upd_simps [simp]:
  "inflight (w\<lparr>termSignal := b\<rparr>) = inflight w" "inflight (w\<lparr>getResultSignal := b\<rparr>) = inflight w"
  "inflight (w\<lparr>completedStateMap := b\<rparr>) = inflight w" "inflight (w\<lparr>VeriQueue := q\<rparr>) = inflight w"
  "inflight (w\<lparr>wpc := Spin\<rparr>) = []"
  "quiet (w\<lparr>termSignal := b\<rparr>) = quiet w" "quiet (w\<lparr>getResultSignal := b\<rparr>) = quiet w"
  "quiet (w\<lparr>completedStateMap := b\<rparr>) = quiet w"
  by (simp_all add: inflight_def quiet_def)

lemma winv_notify:
  "winv_flags p i w \<Longrightarrow> winv_flags p i (notify w)"
  "winv_pc p asg i w \<Longrightarrow> winv_pc p asg i (notify w)"
  "winv_data pr mine w \<Longrightarrow> winv_data pr mine (notify w)"
  by (auto simp: winv_flags_def winv_pc_def winv_data_def)

lemma pool_simps [simp]:
  "mpc (goto p s) = p" "assignTo (goto p s) = assignTo s" "WorkerInfo (goto p s) = WorkerInfo s"
  "sent (goto p s) = sent s"
  "mpc (upd_worker i f s) = mpc s" "assignTo (upd_worker i f s) = assignTo s"
  "WorkerInfo (upd_worker i f s) = (WorkerInfo s)(i := f (WorkerInfo s i))" "sent (upd_worker i f s) = sent s"
  by (simp_all add: goto_def upd_worker_def)

lemmas main_defs = main_next_def initVeri_next_def execVeri_next_def getVeri_next_def termVeri_next_def
  locked_def

text \<open>A client step leaves the data of the workers alone, except that \<open>execVeri\<close> appends to one queue.\<close>

lemma main_data_same:
  assumes "winv_pc (mpc s) (assignTo s) i (WorkerInfo s i)" "main_next n s = Some s'"
  shows "verified (WorkerInfo s' i) = verified (WorkerInfo s i)"
    "ResultVector (WorkerInfo s' i) = ResultVector (WorkerInfo s i)"
    "wout (WorkerInfo s' i) = wout (WorkerInfo s i)"
    "inflight (WorkerInfo s' i) = inflight (WorkerInfo s i)"
    "wpc (WorkerInfo s' i) = Store \<longleftrightarrow> wpc (WorkerInfo s i) = Store"
proof -
  have "wpc (WorkerInfo s i) = NotStarted" if "mpc s = InitCreate i"
    using that assms(1) by (simp add: winv_pc_def started_def)
  then have start: "mpc s = InitCreate i \<Longrightarrow> inflight (WorkerInfo s i) = [] \<and> wpc (WorkerInfo s i) \<noteq> Store"
    by (simp add: inflight_def)
  note m = assms(2) start
  show "verified (WorkerInfo s' i) = verified (WorkerInfo s i)"
    using assms(2) by (cases "mpc s") (auto simp: main_defs split: if_splits)
  show "ResultVector (WorkerInfo s' i) = ResultVector (WorkerInfo s i)"
    using assms(2) by (cases "mpc s") (auto simp: main_defs split: if_splits)
  show "wout (WorkerInfo s' i) = wout (WorkerInfo s i)"
    using assms(2) by (cases "mpc s") (auto simp: main_defs split: if_splits)
  show "inflight (WorkerInfo s' i) = inflight (WorkerInfo s i)"
    using m by (cases "mpc s") (auto simp: main_defs split: if_splits)
  show "wpc (WorkerInfo s' i) = Store \<longleftrightarrow> wpc (WorkerInfo s i) = Store"
    using m by (cases "mpc s") (auto simp: main_defs split: if_splits)
qed

lemma main_queue:
  assumes "minv n s" "main_next n s = Some s'"
  shows "\<exists>new. sent s' = sent s @ new \<and> length new \<le> 1 \<and> (new \<noteq> [] \<longrightarrow> (\<exists>t. mpc s = ExecPush t)) \<and>
    (\<forall>i. VeriQueue (WorkerInfo s' i) = VeriQueue (WorkerInfo s i) @
      (if length (sent s) mod n = i then new else []))"
proof (cases "mpc s")
  case (ExecPush t)
  then show ?thesis using assms by (intro exI [of _ "[t]"]) (auto simp: main_defs minv_def split: if_splits)
qed (use assms in \<open>auto simp: main_defs intro!: exI [of _ "[]"] split: if_splits\<close>)

lemma main_winv_data:
  assumes "minv n s" "winv pr n s i" "main_next n s = Some s'"
  shows "winv_data pr (assigned n i (sent s')) (WorkerInfo s' i)"
proof -
  obtain new where new: "sent s' = sent s @ new" "length new \<le> 1"
    "VeriQueue (WorkerInfo s' i) = VeriQueue (WorkerInfo s i) @ (if length (sent s) mod n = i then new else [])"
    using main_queue [OF assms(1,3)] by blast
  then have "assigned n i (sent s') = assigned n i (sent s) @ (if length (sent s) mod n = i then new else [])"
    by (cases new) (auto simp: assigned_snoc)
  with new main_data_same [OF _ assms(3), of i] assms(2) show ?thesis
    by (auto simp: winv_def winv_data_def)
qed

lemma count_full: "tmp + of_bool b = Suc j \<Longrightarrow> tmp \<le> j \<Longrightarrow> tmp = j \<and> b"
  by (cases b) simp_all

lemma main_winv_flags:
  assumes "minv n s" "winv pr n s i" "i < n" "main_next n s = Some s'"
  shows "winv_flags (mpc s') i (WorkerInfo s' i)"
proof (cases "mpc s")
  case (GetPoll j tmp)
  then show ?thesis
    using assms by (auto simp: main_defs minv_def winv_def winv_flags_def view_defs less_Suc_eq
      dest: count_full split: if_splits)
qed (use assms in \<open>auto simp: main_defs minv_def winv_def winv_flags_def view_defs less_Suc_eq split: if_splits\<close>)

lemma winv_pc_mono:
  assumes "winv_pc p asg i w"
    and "window p i \<Longrightarrow> \<not> completedStateMap w \<Longrightarrow> window p' i"
    and "p = ExecNotify \<Longrightarrow> p' = ExecNotify \<and> asg' = asg"
    and "term_notified p' i \<Longrightarrow> term_notified p i" and "started p' i = started p i"
  shows "winv_pc p' asg' i w"
  using assms(1) unfolding winv_pc_def using assms(2-) by blast

lemma winv_pc_upd:
  assumes "winv_pc p asg i w"
  shows "winv_pc p asg i (w\<lparr>termSignal := b\<rparr>)" "winv_pc p asg i (w\<lparr>getResultSignal := b\<rparr>)"
    "winv_pc p asg i (w\<lparr>completedStateMap := False\<rparr>)"
  using assms unfolding winv_pc_def by simp_all

lemma winv_pc_term:
  assumes "winv_pc (TermNotify i) asg i w" "\<not> holds (wpc w)"
  shows "winv_pc (TermNotify (Suc i)) asg i (notify w)"
  using assms by (cases "wpc w") (simp_all add: winv_pc_def holds_def view_defs)

lemma winv_pc_push:
  assumes "winv_pc (ExecPush t) asg i w" "\<not> holds (wpc w)"
  shows "winv_pc ExecNotify i i (w\<lparr>VeriQueue := q\<rparr>)"
  using assms by (cases "wpc w") (simp_all add: winv_pc_def holds_def view_defs)

lemma winv_pc_notified:
  assumes "winv_pc ExecNotify asg i w"
  shows "winv_pc Idle asg' i (if asg = i then notify w else w)"
  using assms by (cases "wpc w") (auto simp: winv_pc_def view_defs)

lemma winv_pc_start:
  assumes "winv_pc (InitCreate i) asg i w"
  shows "winv_pc (InitCreate (Suc i)) asg i (w\<lparr>wpc := Spin\<rparr>)"
  using assms by (simp add: winv_pc_def view_defs)

lemma main_winv_pc:
  assumes "minv n s" "winv pr n s i" "i < n" "main_next n s = Some s'"
  shows "winv_pc (mpc s') (assignTo s') i (WorkerInfo s' i)"
proof -
  let ?w = "WorkerInfo s i"
  have w: "winv_pc (mpc s) (assignTo s) i ?w" "winv_flags (mpc s) i ?w"
    using assms(2) by (simp_all add: winv_def)
  note mono = winv_pc_mono [OF w(1)] winv_pc_mono [OF winv_notify(2) [OF w(1)]]
    winv_pc_mono [OF winv_pc_upd(1) [OF w(1)]] winv_pc_mono [OF winv_pc_upd(2) [OF w(1)]]
    winv_pc_mono [OF winv_pc_upd(3) [OF w(1)]]
  show ?thesis
  proof (cases "mpc s")
    case (InitCreate j)
    then show ?thesis using assms w(1)
      by (auto simp: main_defs minv_def view_defs less_Suc_eq intro!: winv_pc_start mono(1) split: if_splits)
  next
    case (ExecPush t)
    then show ?thesis using assms(3,4) w(1)
      by (auto simp: main_defs view_defs intro: winv_pc_push intro!: mono(1) split: if_splits)
  next
    case ExecNotify
    then show ?thesis using assms(4) winv_pc_notified [of "assignTo s" i ?w] w(1)
      by (auto simp: main_defs)
  next
    case (TermNotify j)
    then show ?thesis using assms w(1)
      by (auto simp: main_defs minv_def view_defs less_Suc_eq intro!: winv_pc_term mono(1) split: if_splits)
  next
    case (GetPoll j tmp)
    have "tmp = n \<Longrightarrow> completedStateMap ?w"
      using assms(1,3) w(2) GetPoll by (auto simp: winv_flags_def comp_must_def minv_def)
    then show ?thesis using GetPoll assms(3,4)
      by (auto simp: main_defs view_defs intro!: mono(1) split: if_splits)
  qed (use assms(1,3,4) w(1) in \<open>auto simp: main_defs minv_def view_defs intro!: mono split: if_splits\<close>)
qed

lemma quiet_done:
  assumes "winv_data pr mine w" "quiet w"
  shows "verified w = mine" "length (fv_list (ResultVector w)) = length mine" "wout w = concat (map pr mine)"
  using assms by (auto simp: winv_data_def quiet_def)

lemma main_minv:
  assumes "minv n s" "\<forall>i<n. winv pr n s i" "0 < n" "main_next n s = Some s'"
  shows "minv n s'"
proof (cases "mpc s")
  case (GetMerge j out)
  have d: "length (fv_list (ResultVector (WorkerInfo s i))) = length (assigned n i (sent s)) \<and>
      fv_ok (ResultVector (WorkerInfo s i))" if "i < n" for i
  proof -
    have w: "winv_flags (GetMerge j out) i (WorkerInfo s i)" "winv_data pr (assigned n i (sent s)) (WorkerInfo s i)"
      using assms(2) that GetMerge by (simp_all add: winv_def)
    then have "quiet (WorkerInfo s i)" by (simp add: winv_flags_def view_defs)
    then show ?thesis using quiet_done [OF w(2)] w(2) by (simp add: winv_data_def)
  qed
  have out: "j \<le> n" "fv_ok out" "length (fv_list out) = (\<Sum>i<j. length (assigned n i (sent s)))"
    "assignTo s = length (sent s) mod n"
    using assms(1) GetMerge by (simp_all add: minv_def)
  show ?thesis
  proof (cases "j < n")
    case True
    then have "s' = goto (GetMerge (Suc j) (fv_append (ResultVector (WorkerInfo s j)) out)) s"
      using assms(4) GetMerge by (simp add: main_defs)
    then show ?thesis
      using out True d [OF True] fv_append_list [of out "ResultVector (WorkerInfo s j)"] by (simp add: minv_def)
  next
    case False
    then have "s' = goto (GetReset 0 out) s" "j = n" using assms(4) GetMerge out(1) by (simp_all add: main_defs)
    then show ?thesis using out assigned_total [OF assms(3), of "sent s"] by (simp add: minv_def)
  qed
qed (use assms(1,3,4) in \<open>auto simp: main_defs minv_def of_bool_def mod_Suc_eq fv.new_ok fv.new_list split: if_splits\<close>)

subsection \<open>Reachable states\<close>

lemma minv_upd [simp]: "minv n (upd_worker i f s) = minv n s"
  unfolding minv_def pool_simps by (rule refl)

lemma pool_inv_step:
  assumes "pool_step pr n s s'" "pool_inv pr n s" "0 < n"
  shows "pool_inv pr n s'"
  using assms
proof (cases rule: pool_step.cases)
  case (worker i temp w)
  have "winv_flags (mpc s) i w" "winv_pc (mpc s) (assignTo s) i w" "winv_data pr (assigned n i (sent s)) w"
    using assms(2) worker worker_winv_flags worker_winv_pc worker_winv_data
    unfolding pool_inv_def winv_def by blast+
  with assms(2) worker show ?thesis by (simp add: pool_inv_def winv_def)
next
  case (spurious i)
  then show ?thesis using assms(2) by (simp add: pool_inv_def winv_def winv_notify)
next
  case main
  then show ?thesis
    using assms(2,3) main_minv main_winv_flags main_winv_pc main_winv_data
    unfolding pool_inv_def winv_def by blast
next
  case (call c)
  then show ?thesis
    using assms(2) by (cases c) (auto simp: pool_inv_def winv_def minv_def winv_flags_def winv_pc_def view_defs)
next
  case (ret out)
  then show ?thesis
    using assms(2) by (auto simp: pool_inv_def winv_def minv_def winv_flags_def winv_pc_def view_defs)
qed

lemma pool_inv_init: "\<forall>i<n. \<not> f_get (g i) \<Longrightarrow> pool_inv pr n (fresh_pool g)"
  by (auto simp: pool_inv_def winv_def minv_def winv_flags_def winv_pc_def winv_data_def view_defs
      fresh_pool_def fresh_worker_def inflight_def fv.new_ok fv.new_list)

lemma reachable_inv:
  assumes "reachable pr n g s" "\<forall>i<n. \<not> f_get (g i)" "0 < n"
  shows "pool_inv pr n s"
  using assms(1) unfolding reachable_def
  by (induction rule: rtranclp_induct) (use assms(2,3) pool_inv_init pool_inv_step in blast)+

end
