(* ===== verification/Pool_Props.thy ===== *)
theory Pool_Props
  imports Pool_Inv Engine_Trace
begin

text \<open>
  Properties of the worker pool: every trace is verified exactly once by its worker and in order, \<open>getVeri\<close> returns
  only when everything sent has been verified, no wake-up is lost, the pool shuts down; and two schedules in
  which the source misbehaves, because a worker tests a flag that is not yet, or no longer, what it expects.
\<close>

subsection \<open>Running a schedule\<close>

datatype 't act = ActWorker nat | ActMain | ActCall "'t call" | ActReturn

definition act_step ::
  "('t \<Rightarrow> 'o list) \<Rightarrow> nat \<Rightarrow> 't act \<Rightarrow> ('t, 'o) pool \<Rightarrow> ('t, 'o) pool option" where
  "act_step pr n a s =
     (case a of
        ActWorker i \<Rightarrow> if i < n then map_option (\<lambda>w. upd_worker i (\<lambda>_. w) s)
                                 (worker_next pr \<lparr>vresult = PASS\<rparr> (WorkerInfo s i)) else None
      | ActMain \<Rightarrow> main_next n s
      | ActCall c \<Rightarrow> if mpc s = Idle then Some (goto (enter c) s) else None
      | ActReturn \<Rightarrow> (case mpc s of GetDone _ \<Rightarrow> Some (goto Idle s) | _ \<Rightarrow> None))"

fun run_acts ::
  "('t \<Rightarrow> 'o list) \<Rightarrow> nat \<Rightarrow> 't act list \<Rightarrow> ('t, 'o) pool \<Rightarrow> ('t, 'o) pool option" where
  "run_acts pr n [] s = Some s"
| "run_acts pr n (a # as) s = (case act_step pr n a s of None \<Rightarrow> None | Some s' \<Rightarrow> run_acts pr n as s')"

lemma act_step_pool: "act_step pr n a s = Some s' \<Longrightarrow> pool_step pr n s s'"
  by (cases a) (auto simp: act_step_def intro: pool_step.intros split: if_splits mpc.splits)

lemma run_acts_pool: "run_acts pr n as s = Some s' \<Longrightarrow> (pool_step pr n)\<^sup>*\<^sup>* s s'"
  by (induction as arbitrary: s)
    (auto split: option.splits dest: act_step_pool intro: converse_rtranclp_into_rtranclp)

lemma run_acts_reachable:
  "\<not> Option.is_none (run_acts pr n as (fresh_pool g)) \<Longrightarrow> reachable pr n g (the (run_acts pr n as (fresh_pool g)))"
  by (cases "run_acts pr n as (fresh_pool g)") (auto simp: reachable_def run_acts_pool)

text \<open>A worker running alone.\<close>

fun worker_run ::
  "('t \<Rightarrow> 'o list) \<Rightarrow> VeriResult \<Rightarrow> nat \<Rightarrow> ('t, 'o) worker \<Rightarrow> ('t, 'o) worker" where
  "worker_run pr temp 0 w = w"
| "worker_run pr temp (Suc k) w = (case worker_next pr temp w of None \<Rightarrow> w | Some w' \<Rightarrow> worker_run pr temp k w')"

subsection \<open>The terminate flag\<close>

definition exit_ok :: "'t mpc \<Rightarrow> nat \<Rightarrow> ('t, 'o) worker \<Rightarrow> bool" where
  "exit_ok p i w \<longleftrightarrow> (wpc w \<notin> {NotStarted, Spin} \<longrightarrow> termSignal w = term_on p i) \<and>
     (wpc w = Exited \<longrightarrow> term_on p i)"

lemma exit_ok_worker:
  assumes "exit_ok p i w" "worker_next pr temp w = Some w'" "winv_flags p i w"
  shows "exit_ok p i w'"
proof -
  have "term_on p i \<Longrightarrow> term_known p i" by (simp add: view_defs split: mpc.splits)
  with assms(3) have t: "term_on p i \<Longrightarrow> termSignal w" by (simp add: winv_flags_def)
  show ?thesis
    using assms(1,2) t by (cases "wpc w") (auto simp: exit_ok_def worker_next_def split: if_splits list.splits)
qed

lemma exit_ok_upd:
  "exit_ok p i w \<Longrightarrow> term_on p' i = term_on p i \<Longrightarrow> exit_ok p' i w"
  "exit_ok p i w \<Longrightarrow> term_on p' i = term_on p i \<Longrightarrow> exit_ok p' i (notify w)"
  "exit_ok p i w \<Longrightarrow> term_on p' i = term_on p i \<Longrightarrow> exit_ok p' i (w\<lparr>getResultSignal := b\<rparr>)"
  "exit_ok p i w \<Longrightarrow> term_on p' i = term_on p i \<Longrightarrow> exit_ok p' i (w\<lparr>completedStateMap := b\<rparr>)"
  "exit_ok p i w \<Longrightarrow> term_on p' i = term_on p i \<Longrightarrow> exit_ok p' i (w\<lparr>VeriQueue := q\<rparr>)"
  "exit_ok p i w \<Longrightarrow> \<not> term_on p i \<Longrightarrow> term_on p' i = b \<Longrightarrow> exit_ok p' i (w\<lparr>termSignal := b\<rparr>)"
  "exit_ok p' i (w\<lparr>wpc := Spin\<rparr>)"
  by (auto simp: exit_ok_def)

lemma exit_ok_main:
  assumes "exit_ok (mpc s) i (WorkerInfo s i)" "main_next n s = Some s'" "minv n s" "i < n"
  shows "exit_ok (mpc s') i (WorkerInfo s' i)"
  using assms
  by (cases "mpc s")
    (auto simp: main_defs minv_def term_on_def elim!: exit_ok_upd(1-6) intro!: exit_ok_upd(7) split: if_splits)

lemma reachable_exit_ok:
  assumes "reachable pr n g s" "\<forall>i<n. \<not> f_get (g i)" "0 < n"
  shows "\<forall>i<n. exit_ok (mpc s) i (WorkerInfo s i)"
  using assms(1) unfolding reachable_def
proof (induction rule: rtranclp_induct)
  case base
  then show ?case by (simp add: exit_ok_def fresh_pool_def fresh_worker_def)
next
  case (step s s')
  have inv: "pool_inv pr n s" using reachable_inv step.hyps(1) assms(2,3) by (auto simp: reachable_def)
  from step.hyps(2) show ?case
  proof (cases rule: pool_step.cases)
    case (worker i temp w)
    have "exit_ok (mpc s) i w"
      using step.IH inv worker exit_ok_worker unfolding pool_inv_def winv_def by blast
    with worker step.IH show ?thesis by simp
  next
    case (call c)
    with step.IH show ?thesis by (cases c) (simp_all add: exit_ok_def term_on_def)
  next
    case main
    then show ?thesis using step.IH inv exit_ok_main unfolding pool_inv_def by blast
  qed (use step.IH in \<open>simp_all add: exit_ok_upd exit_ok_def term_on_def\<close>)
qed

subsection \<open>Properties\<close>

text \<open>What the engine prints for one trace.\<close>

definition engine_out :: "('s, 'm) containers \<Rightarrow> config \<Rightarrow> Metadata FastVector \<Rightarrow> report list" where
  "engine_out C cfg v = stdout (VeriProc C cfg v)"

text \<open>Memory that is zero before the constructor runs, and a whole session of one worker: send, collect.\<close>

definition zeroed :: "nat \<Rightarrow> flags" where
  "zeroed i = \<lparr>f_term = False, f_get = False, f_completed = False\<rparr>"

definition session :: "'t \<Rightarrow> 't act list" where
  "session t = replicate 8 ActMain @ [ActCall (CallExec t), ActMain, ActMain] @ replicate 11 (ActWorker 0) @
     [ActCall CallGet, ActMain, ActMain] @ replicate 8 (ActWorker 0) @ replicate 10 ActMain"

lemma replicate_code:
  "replicate 8 x = [x, x, x, x, x, x, x, x]" "replicate 10 x = [x, x, x, x, x, x, x, x, x, x]"
  "replicate 11 x = [x, x, x, x, x, x, x, x, x, x, x]"
  by (simp_all add: numeral_eq_Suc)

lemma session_run:
  "\<exists>s. run_acts pr 1 (session t) (fresh_pool zeroed) = Some s \<and> sent s = [t] \<and>
    mpc s = GetDone (fv_append (fv_push_back \<lparr>vresult = PASS\<rparr> fv_new) fv_new)"
  by (simp add: session_def replicate_code act_step_def main_defs fresh_pool_def fresh_worker_def zeroed_def
      worker_next_def holds_def notify_def goto_def upd_worker_def)

text \<open>C11: \<open>getVeri\<close> waits for everything. When it returns, every trace sent so far has been verified by the worker
  it was assigned to, in the order of sending; each worker has printed exactly the reports of its traces; and the
  output vector has one result per trace. This holds for every interleaving, if the memory of the
  \<open>getResultSignal\<close> flags was zero before the constructor ran.\<close>

theorem getVeri_complete:
  assumes "reachable (engine_out C cfg) n g s" "\<forall>i<n. \<not> f_get (g i)" "0 < n" "mpc s = GetDone out"
  shows "fv_size out = length (sent s) \<and>
    (\<forall>i<n. verified (WorkerInfo s i) = assigned n i (sent s) \<and>
       wout (WorkerInfo s i) = concat (map (engine_out C cfg) (assigned n i (sent s))))"
proof -
  have inv: "pool_inv (engine_out C cfg) n s" by (rule reachable_inv [OF assms(1-3)])
  have "fv_size out = length (sent s)"
    using inv assms(4) fv.size_list [of out] by (simp add: pool_inv_def minv_def)
  moreover have "verified (WorkerInfo s i) = assigned n i (sent s) \<and>
      wout (WorkerInfo s i) = concat (map (engine_out C cfg) (assigned n i (sent s)))" if "i < n" for i
  proof -
    have "winv_data (engine_out C cfg) (assigned n i (sent s)) (WorkerInfo s i)" "quiet (WorkerInfo s i)"
      using inv that assms(4) by (simp_all add: pool_inv_def winv_def winv_flags_def settled_def)
    from quiet_done [OF this] show ?thesis by simp
  qed
  ultimately show ?thesis by blast
qed

theorem getVeri_complete_witness:
  "let t = fold fv_push_back [entry ASSIGN 64 4, entry PERSIST 64 4] fv_new
   in \<exists>s out. reachable (engine_out segment_lists default_config) 1 zeroed s \<and> sent s = [t] \<and>
        mpc s = GetDone out \<and> fv_size out = 1 \<and>
        wout (WorkerInfo s 0) = engine_out segment_lists default_config t"
proof -
  define pr where "pr = engine_out segment_lists default_config"
  define t where "t = fold fv_push_back [entry ASSIGN 64 4, entry PERSIST 64 4] fv_new"
  obtain s out where s: "run_acts pr 1 (session t) (fresh_pool zeroed) = Some s" "sent s = [t]" "mpc s = GetDone out"
    using session_run [of pr t] by auto
  have r: "reachable pr 1 zeroed s" using run_acts_pool [OF s(1)] by (simp add: reachable_def)
  have g: "\<forall>i<1. \<not> f_get (zeroed i)" by (simp add: zeroed_def)
  have "assigned 1 0 [t] = [t]" by (simp add: assigned_def)
  then have "fv_size out = 1 \<and> wout (WorkerInfo s 0) = pr t"
    using getVeri_complete [OF r [unfolded pr_def] g _ s(3)] s(2) by (simp add: pr_def)
  with r s(2,3) have "\<exists>s out. reachable pr 1 zeroed s \<and> sent s = [t] \<and> mpc s = GetDone out \<and>
      fv_size out = 1 \<and> wout (WorkerInfo s 0) = pr t" by blast
  then show ?thesis by (simp only: Let_def pr_def t_def)
qed

text \<open>C12: No trace is lost, duplicated or reordered. In every reachable state, the traces that worker \<open>i\<close> has verified,
  the one it is verifying and those in its queue are, in this order, exactly the traces that were sent at the
  positions congruent to \<open>i\<close>.\<close>

theorem traces_exactly_once:
  assumes "reachable (engine_out C cfg) n g s" "\<forall>i<n. \<not> f_get (g i)" "i < n"
  shows "verified (WorkerInfo s i) @ inflight (WorkerInfo s i) @ VeriQueue (WorkerInfo s i) = assigned n i (sent s)"
  using reachable_inv [OF assms(1,2)] assms(3) by (simp add: pool_inv_def winv_def winv_data_def)

theorem traces_exactly_once_witness:
  "let t = fold fv_push_back [entry ASSIGN 64 4] fv_new
   in \<exists>s. reachable (engine_out segment_lists default_config) 1 zeroed s \<and>
        verified (WorkerInfo s 0) @ inflight (WorkerInfo s 0) @ VeriQueue (WorkerInfo s 0) = [t]"
proof -
  define pr where "pr = engine_out segment_lists default_config"
  define t where "t = fold fv_push_back [entry ASSIGN 64 4] fv_new"
  obtain s where s: "run_acts pr 1 (session t) (fresh_pool zeroed) = Some s" "sent s = [t]"
    using session_run [of pr t] by auto
  have r: "reachable pr 1 zeroed s" using run_acts_pool [OF s(1)] by (simp add: reachable_def)
  have g: "\<forall>i<1. \<not> f_get (zeroed i)" by (simp add: zeroed_def)
  have "assigned 1 0 [t] = [t]" by (simp add: assigned_def)
  then have "verified (WorkerInfo s 0) @ inflight (WorkerInfo s 0) @ VeriQueue (WorkerInfo s 0) = [t]"
    using traces_exactly_once [OF r [unfolded pr_def] g, of 0] s(2) by simp
  with r show ?thesis unfolding Let_def pr_def t_def by blast
qed

subsection \<open>No lost wake-up, and shutdown\<close>

lemma worker_run_rank:
  fixes rank :: "('t, 'o) worker \<Rightarrow> nat"
  assumes "\<And>w. I w \<Longrightarrow> \<not> goal w \<Longrightarrow> \<exists>w'. worker_next pr temp w = Some w' \<and> I w' \<and> rank w' < rank w" "I w"
  shows "\<exists>k\<le>rank w. goal (worker_run pr temp k w)"
  using assms(2)
proof (induction "rank w" arbitrary: w rule: less_induct)
  case less
  show ?case
  proof (cases "goal w")
    case True
    then have "goal (worker_run pr temp 0 w)" by simp
    then show ?thesis by blast
  next
    case False
    then obtain w' where w': "worker_next pr temp w = Some w'" "I w'" "rank w' < rank w"
      using assms(1) less.prems by blast
    then obtain k where "k \<le> rank w'" "goal (worker_run pr temp k w')" using less.hyps by blast
    then have "Suc k \<le> rank w" "goal (worker_run pr temp (Suc k) w)" using w' by simp_all
    then show ?thesis by blast
  qed
qed

definition take_rank :: "'t wpc \<Rightarrow> nat" where
  "take_rank p = (case p of Spin \<Rightarrow> 10 | Lock \<Rightarrow> 9 | Woken \<Rightarrow> 9 | CondTerm \<Rightarrow> 8 | CondGet \<Rightarrow> 7 | CondQueue \<Rightarrow> 6
     | CheckTerm \<Rightarrow> 5 | CheckCompleted \<Rightarrow> 4 | CheckGet \<Rightarrow> 3 | CheckQueue \<Rightarrow> 2 | Take \<Rightarrow> 1 | Proc _ \<Rightarrow> 11
     | Store \<Rightarrow> 10 | _ \<Rightarrow> 0)"

text \<open>Some worker state with work to do, or the moment at which the first queued trace \<open>t\<close> is being verified.\<close>

definition has_work :: "'t \<Rightarrow> 't list \<Rightarrow> ('t, 'o) worker \<Rightarrow> bool" where
  "has_work t q w \<longleftrightarrow> \<not> termSignal w \<and> VeriQueue w = t # q \<and> wpc w \<notin> {NotStarted, Waiting, SetCompleted, Exited}"

definition took :: "'t \<Rightarrow> 't list \<Rightarrow> ('t, 'o) worker \<Rightarrow> bool" where
  "took t q w \<longleftrightarrow> wpc w = Proc t \<and> VeriQueue w = q"

lemma has_work_step:
  assumes "has_work t q w" "\<not> took t q w"
  shows "\<exists>w'. worker_next pr temp w = Some w' \<and> (took t q w' \<or> has_work t q w' \<and> take_rank (wpc w') < take_rank (wpc w))"
  using assms by (cases "wpc w") (auto simp: has_work_def took_def worker_next_def take_rank_def)

lemma has_work_took:
  assumes "has_work t q w"
  shows "\<exists>k\<le>12. took t q (worker_run pr temp k w)"
proof -
  let ?I = "\<lambda>w. took t q w \<or> has_work t q w"
  let ?rank = "\<lambda>w. if took t q w then 0 else Suc (take_rank (wpc w))"
  have "\<exists>k\<le>?rank w. took t q (worker_run pr temp k w)"
    by (rule worker_run_rank [where I = ?I]) (use has_work_step [of t q _ pr temp] assms in fastforce)+
  moreover have "?rank w \<le> 12" by (simp add: take_rank_def split: wpc.splits)
  ultimately show ?thesis using le_trans by blast
qed

text \<open>No wake-up is lost. Whenever a worker has a queued trace, no termination has been requested and the client
  is not just about to notify, the worker is not blocked: it takes the first queued trace within twelve of its own steps,
  without any further step of the client.\<close>

theorem queued_trace_taken:
  assumes "reachable (engine_out C cfg) n g s" "\<forall>i<n. \<not> f_get (g i)" "i < n"
    "mpc s \<noteq> ExecNotify" "\<not> termSignal (WorkerInfo s i)" "VeriQueue (WorkerInfo s i) = t # q"
  shows "\<exists>k\<le>12. took t q (worker_run (engine_out C cfg) temp k (WorkerInfo s i))"
proof (rule has_work_took)
  let ?w = "WorkerInfo s i"
  have n: "0 < n" using assms(3) by simp
  have inv: "minv n s" "winv_pc (mpc s) (assignTo s) i ?w" "winv_data (engine_out C cfg) (assigned n i (sent s)) ?w"
    using reachable_inv [OF assms(1,2) n] assms(3) by (simp_all add: pool_inv_def winv_def)
  have "sent s \<noteq> []" using inv(3) assms(6) by (auto simp: winv_data_def)
  then have "started (mpc s) i" using inv(1) by (auto simp: minv_def started_def split: mpc.splits)
  moreover have "exit_ok (mpc s) i ?w" using reachable_exit_ok [OF assms(1,2) n] assms(3) by blast
  ultimately show "has_work t q ?w"
    using inv(2) assms(4-6) by (auto simp: has_work_def winv_pc_def exit_ok_def)
qed

lemma half_session_run:
  "\<exists>s. run_acts pr 1 (take 11 (session t)) (fresh_pool zeroed) = Some s \<and> mpc s = Idle \<and>
    \<not> termSignal (WorkerInfo s 0) \<and> VeriQueue (WorkerInfo s 0) = [t]"
  by (simp add: session_def replicate_code act_step_def main_defs fresh_pool_def fresh_worker_def zeroed_def
      worker_next_def holds_def notify_def goto_def upd_worker_def)

theorem queued_trace_taken_witness:
  "let t = fold fv_push_back [entry ASSIGN 64 4] fv_new
   in \<exists>s k. reachable (engine_out segment_lists default_config) 1 zeroed s \<and> VeriQueue (WorkerInfo s 0) = [t] \<and>
        took t [] (worker_run (engine_out segment_lists default_config) \<lparr>vresult = PASS\<rparr> k (WorkerInfo s 0))"
proof -
  define pr where "pr = engine_out segment_lists default_config"
  define t where "t = fold fv_push_back [entry ASSIGN 64 4] fv_new"
  obtain s where s: "run_acts pr 1 (take 11 (session t)) (fresh_pool zeroed) = Some s" "mpc s = Idle"
    "\<not> termSignal (WorkerInfo s 0)" "VeriQueue (WorkerInfo s 0) = [t]"
    using half_session_run [of pr t] by auto
  have r: "reachable pr 1 zeroed s" using run_acts_pool [OF s(1)] by (simp add: reachable_def)
  have g: "\<forall>i<1. \<not> f_get (zeroed i)" by (simp add: zeroed_def)
  have "\<exists>k. took t [] (worker_run pr \<lparr>vresult = PASS\<rparr> k (WorkerInfo s 0))"
    using queued_trace_taken [OF r [unfolded pr_def] g _ _ s(3,4)] s(2) unfolding pr_def by auto
  with r s(4) show ?thesis unfolding Let_def pr_def t_def by blast
qed

definition exit_rank :: "'t wpc \<Rightarrow> nat" where
  "exit_rank p = (case p of CheckCompleted \<Rightarrow> 9 | CheckGet \<Rightarrow> 8 | CheckQueue \<Rightarrow> 7 | Take \<Rightarrow> 6 | Proc _ \<Rightarrow> 5 | Store \<Rightarrow> 4
     | SetCompleted \<Rightarrow> 4 | Lock \<Rightarrow> 3 | Woken \<Rightarrow> 3 | CondTerm \<Rightarrow> 2 | CheckTerm \<Rightarrow> 1 | _ \<Rightarrow> 0)"

lemma exit_step:
  assumes "termSignal w" "wpc w \<notin> {NotStarted, Spin, CondGet, CondQueue, Waiting}" "wpc w \<noteq> Exited"
  shows "\<exists>w'. worker_next pr temp w = Some w' \<and> termSignal w' \<and>
    wpc w' \<notin> {NotStarted, Spin, CondGet, CondQueue, Waiting} \<and> exit_rank (wpc w') < exit_rank (wpc w)"
  using assms by (cases "wpc w") (auto simp: worker_next_def exit_rank_def split: list.splits)

text \<open>C13: Shutdown. Once the destructor waits for its threads, every worker that has passed its first test of the
  terminate flag exits within nine of its own steps, so the destructor is not blocked by it.\<close>

theorem shutdown_terminates:
  assumes "reachable (engine_out C cfg) n g s" "\<forall>i<n. \<not> f_get (g i)" "i < n"
    "mpc s = TermJoin j" "wpc (WorkerInfo s i) \<noteq> Spin"
  shows "\<exists>k\<le>9. wpc (worker_run (engine_out C cfg) temp k (WorkerInfo s i)) = Exited"
proof -
  let ?w = "WorkerInfo s i"
  let ?I = "\<lambda>w. termSignal w \<and> wpc w \<notin> {NotStarted, Spin, CondGet, CondQueue, Waiting}"
  have n: "0 < n" using assms(3) by simp
  have inv: "winv_flags (mpc s) i ?w" "winv_pc (mpc s) (assignTo s) i ?w"
    using reachable_inv [OF assms(1,2) n] assms(3) by (simp_all add: pool_inv_def winv_def)
  then have "?I ?w"
    using assms(4,5) by (auto simp: winv_flags_def winv_pc_def view_defs)
  then have "\<exists>k\<le>exit_rank (wpc ?w). wpc (worker_run (engine_out C cfg) temp k ?w) = Exited"
    by (rule worker_run_rank [where I = ?I and goal = "\<lambda>w. wpc w = Exited", rotated])
      (use exit_step in blast)
  moreover have "exit_rank (wpc ?w) \<le> 9" by (simp add: exit_rank_def split: wpc.splits)
  ultimately show ?thesis using le_trans by blast
qed

lemma shutdown_run:
  "\<exists>s. run_acts pr 1 (replicate 8 ActMain @ [ActWorker 0, ActCall CallDelete, ActMain, ActMain, ActMain, ActMain])
     (fresh_pool zeroed) = Some s \<and> mpc s = TermJoin 0 \<and> wpc (WorkerInfo s 0) = Lock"
  by (simp add: replicate_code act_step_def main_defs fresh_pool_def fresh_worker_def zeroed_def
      worker_next_def holds_def notify_def goto_def upd_worker_def)

theorem shutdown_terminates_witness:
  "\<exists>s k. reachable (engine_out segment_lists default_config) 1 zeroed s \<and> mpc s = TermJoin 0 \<and>
     wpc (worker_run (engine_out segment_lists default_config) \<lparr>vresult = PASS\<rparr> k (WorkerInfo s 0)) = Exited"
proof -
  define pr where "pr = engine_out segment_lists default_config"
  obtain s where s: "(pool_step pr 1)\<^sup>*\<^sup>* (fresh_pool zeroed) s" "mpc s = TermJoin 0" "wpc (WorkerInfo s 0) = Lock"
    using shutdown_run [of pr] run_acts_pool by blast
  have r: "reachable pr 1 zeroed s" using s(1) by (simp add: reachable_def)
  have g: "\<forall>i<1. \<not> f_get (zeroed i)" by (simp add: zeroed_def)
  have "\<exists>k. wpc (worker_run pr \<lparr>vresult = PASS\<rparr> k (WorkerInfo s 0)) = Exited"
    using shutdown_terminates [OF r [unfolded pr_def] g _ s(2)] s(3) unfolding pr_def by auto
  with r s(2) show ?thesis unfolding pr_def by blast
qed

subsection \<open>Two schedules that go wrong\<close>

definition spinning :: "('t, 'o) pool \<Rightarrow> bool" where
  "spinning s \<longleftrightarrow> mpc s = TermJoin 0 \<and> wpc (WorkerInfo s 0) = Spin \<and> termSignal (WorkerInfo s 0)"

lemma spinning_step:
  assumes "pool_step pr n s s'" "spinning s" "0 < n"
  shows "spinning s'"
  using assms
proof (cases rule: pool_step.cases)
  case (worker i temp w)
  with assms(2) show ?thesis by (cases "i = 0") (auto simp: spinning_def worker_next_def)
qed (auto simp: spinning_def main_defs)

lemma spinning_forever:
  assumes "(pool_step pr n)\<^sup>*\<^sup>* s s'" "spinning s" "0 < n"
  shows "mpc s' = TermJoin 0"
proof -
  have "spinning s'" using assms by (induction rule: rtranclp_induct) (auto intro: spinning_step)
  then show ?thesis by (simp add: spinning_def)
qed

lemma early_delete_run:
  "\<exists>s. run_acts pr 1 (replicate 8 ActMain @ [ActCall CallDelete, ActMain, ActMain, ActMain, ActMain])
     (fresh_pool zeroed) = Some s \<and> spinning s"
  by (simp add: spinning_def replicate_code act_step_def main_defs fresh_pool_def fresh_worker_def zeroed_def
      worker_next_def holds_def notify_def goto_def upd_worker_def)

text \<open>C14: The destructor can hang. \<open>VeriWorker\<close> first spins while its terminate flag is set, to wait for the constructor.
  If the object is deleted before a worker thread gets that far, the flag it sees is the one of the destructor: a state is
  reachable from which, whatever the threads do, the destructor never gets past its first \<open>join\<close>.\<close>

theorem destructor_can_hang:
  "\<exists>s. reachable (engine_out segment_lists default_config) 1 zeroed s \<and>
     Collect ((pool_step (engine_out segment_lists default_config) 1)\<^sup>*\<^sup>* s) \<subseteq> {s'. mpc s' = TermJoin 0}"
proof -
  define pr where "pr = engine_out segment_lists default_config"
  obtain s where s: "(pool_step pr 1)\<^sup>*\<^sup>* (fresh_pool zeroed) s" "spinning s"
    using early_delete_run [of pr] run_acts_pool by blast
  then have "Collect ((pool_step pr 1)\<^sup>*\<^sup>* s) \<subseteq> {s'. mpc s' = TermJoin 0}"
    using spinning_forever zero_less_one by blast
  with s(1) show ?thesis unfolding reachable_def pr_def by blast
qed

text \<open>Memory that held other data before: \<open>getResultSignal\<close> happens to be set.\<close>

definition garbage :: "nat \<Rightarrow> flags" where
  "garbage i = \<lparr>f_term = False, f_get = True, f_completed = False\<rparr>"

definition early_return :: "'t \<Rightarrow> 't act list" where
  "early_return t = [ActMain, ActMain] @ replicate 8 (ActWorker 0) @ replicate 6 ActMain @ [ActWorker 0] @
     [ActCall (CallExec t), ActMain, ActMain, ActCall CallGet, ActMain, ActMain] @ replicate 10 ActMain"

lemma early_return_run:
  "\<exists>s. run_acts pr 1 (early_return t) (fresh_pool garbage) = Some s \<and> mpc s = GetDone (fv_append fv_new fv_new) \<and>
    sent s = [t] \<and> verified (WorkerInfo s 0) = [] \<and> wout (WorkerInfo s 0) = []"
  by (simp add: early_return_def replicate_code numeral_eq_Suc act_step_def main_defs fresh_pool_def fresh_worker_def
      garbage_def worker_next_def holds_def notify_def goto_def upd_worker_def)

text \<open>C15: \<open>getVeri\<close> can return early. The constructor starts the threads before it initialises the flags. If
  \<open>getResultSignal\<close> is set in the raw memory, a worker can store its completion flag after the constructor has cleared it;
  a later \<open>getVeri\<close> then returns although the trace it should wait for has not been looked at.\<close>

theorem getVeri_can_return_early:
  "let t = fold fv_push_back [entry ASSIGN 64 4, entry PERSIST 64 4] fv_new
   in \<exists>s out. reachable (engine_out segment_lists default_config) 1 garbage s \<and> mpc s = GetDone out \<and>
        sent s = [t] \<and> verified (WorkerInfo s 0) = [] \<and> wout (WorkerInfo s 0) = []"
proof -
  define pr where "pr = engine_out segment_lists default_config"
  define t where "t = fold fv_push_back [entry ASSIGN 64 4, entry PERSIST 64 4] fv_new"
  obtain s out where s: "run_acts pr 1 (early_return t) (fresh_pool garbage) = Some s" "mpc s = GetDone out"
    "sent s = [t]" "verified (WorkerInfo s 0) = []" "wout (WorkerInfo s 0) = []"
    using early_return_run [of pr t] by auto
  have "reachable pr 1 garbage s" using run_acts_pool [OF s(1)] by (simp add: reachable_def)
  with s(2-) show ?thesis unfolding Let_def pr_def t_def by blast
qed

end
