(* ===== verification/Interface.thy ===== *)
theory Interface
  imports Engine_Trace
begin

text \<open>
  The C interface of \<open>src/src/pmtest.cc\<close> and the macros of \<open>src/include/global.h\<close>, as a client thread uses them: the
  thread-local variables are fields of \<open>client\<close>, trace buffers live in a store and are passed by address, because
  \<open>C_sendTrace\<close> hands a buffer to a worker that reads it later. An operation returns \<open>None\<close> when it follows a pointer that
  is NULL, uninitialised, freed, or of another type. The calls of \<open>execVeri\<close> are collected in \<open>executed\<close>; theory
  \<open>Worker_Pool\<close> says what the pool does with them.
\<close>

subsection \<open>State\<close>

datatype ptr = NULL | Addr nat | Uninit

text \<open>\<open>metadataVectorPtr\<close> is a \<open>void **\<close>: \<open>C_initVeri\<close> stores a \<open>FastVector\<close> object there, \<open>C_getNewMetadataPtr\<close> reads a
  plain array of pointers from it.\<close>

datatype vectors = NoVectors | VecObj "nat FastVector" | RawArray "nat list"

record client =
  metadataPtr :: ptr
  existVeriInstance :: bool
  pmtest_cur_idx :: nat
  metadataVectorPtr :: vectors
  cstore :: "nat \<Rightarrow> Metadata FastVector option"
  cnext :: nat
  executed :: "nat list"
  errors :: nat

definition PMTest_START :: "client \<Rightarrow> client" where
  "PMTest_START c = c\<lparr>existVeriInstance := True\<rparr>"

definition PMTest_END :: "client \<Rightarrow> client" where
  "PMTest_END c = c\<lparr>existVeriInstance := False\<rparr>"

definition read_cell :: "nat FastVector \<Rightarrow> nat \<Rightarrow> ptr" where
  "read_cell p i = (case fv_index p i of Some a \<Rightarrow> Addr a | None \<Rightarrow> Uninit)"

subsection \<open>Recording\<close>

text \<open>One constructor per tracing macro; \<open>m0\<close> is the content of the memory that \<open>new Metadata\<close> returns.\<close>

datatype op =
    OpCheckerStart | OpCheckerEnd | OpTransactionAdd address u64 | OpAssign address u64 | OpFlush address u64
  | OpCommit | OpBarrier | OpFence | OpIsPersistent address u64
  | OpIsPersistedBefore address u64 address u64 | OpExclude address u64 | OpInclude address u64

definition create ::
  "bool \<Rightarrow> bool \<Rightarrow> Metadata \<Rightarrow> string \<Rightarrow> u32 \<Rightarrow> op \<Rightarrow> Metadata FastVector \<Rightarrow> Metadata FastVector" where
  "create excl e m0 file line x vec =
     (case x of
        OpCheckerStart \<Rightarrow> C_createMetadata_TransactionBegin e m0 vec file line
      | OpCheckerEnd \<Rightarrow> C_createMetadata_TransactionEnd e m0 vec file line
      | OpTransactionAdd a n \<Rightarrow> C_createMetadata_TransactionAdd e m0 vec a n file line
      | OpAssign a n \<Rightarrow> C_createMetadata_Assign e m0 vec a n file line
      | OpFlush a n \<Rightarrow> C_createMetadata_Flush e m0 vec a n file line
      | OpCommit \<Rightarrow> C_createMetadata_Commit e m0 vec file line
      | OpBarrier \<Rightarrow> C_createMetadata_Barrier e m0 vec file line
      | OpFence \<Rightarrow> C_createMetadata_Fence e m0 vec file line
      | OpIsPersistent a n \<Rightarrow> C_createMetadata_Persist e m0 vec a n file line
      | OpIsPersistedBefore a n b k \<Rightarrow> C_createMetadata_Order e m0 vec a n b k file line
      | OpExclude a n \<Rightarrow> C_createMetadata_Exclude excl e m0 vec a n file line
      | OpInclude a n \<Rightarrow> C_createMetadata_Include excl e m0 vec a n file line)"

text \<open>A call site: the macro with the allocation it gets, \<open>__FILE__\<close> and \<open>__LINE__\<close>.\<close>

record call_site =
  cs_op :: op
  cs_mem :: Metadata
  cs_file :: string
  cs_line :: u32

definition create_at :: "bool \<Rightarrow> bool \<Rightarrow> call_site \<Rightarrow> Metadata FastVector \<Rightarrow> Metadata FastVector" where
  "create_at excl e x vec = create excl e (cs_mem x) (cs_file x) (cs_line x) (cs_op x) vec"

definition trace_op :: "bool \<Rightarrow> call_site \<Rightarrow> client \<Rightarrow> client option" where
  "trace_op excl x c =
     (if \<not> existVeriInstance c then Some c
      else case metadataPtr c of
        Addr a \<Rightarrow> (case cstore c a of
          Some vec \<Rightarrow> Some (c\<lparr>cstore := (cstore c)(a := Some (create_at excl True x vec))\<rparr>)
        | None \<Rightarrow> None)
      | _ \<Rightarrow> None)"

subsection \<open>Buffers\<close>

definition C_createMetadataVector :: "client \<Rightarrow> nat \<times> client" where
  "C_createMetadataVector c =
     (cnext c, c\<lparr>cstore := (cstore c)(cnext c := Some fv_new), cnext := Suc (cnext c)\<rparr>)"

text \<open>The entries are freed, the vector itself is not.\<close>

definition C_deleteMetadataVector :: "nat \<Rightarrow> client \<Rightarrow> client option" where
  "C_deleteMetadataVector a c =
     (case cstore c a of
        None \<Rightarrow> None
      | Some vec \<Rightarrow> Some (c\<lparr>cstore := (cstore c)(a := Some (vec\<lparr>arr_vector := map (\<lambda>_. None) (arr_vector vec)\<rparr>))\<rparr>))"

fun init_loop :: "nat \<Rightarrow> nat FastVector \<Rightarrow> client \<Rightarrow> nat FastVector \<times> client" where
  "init_loop 0 p c = (p, c)"
| "init_loop (Suc k) p c = (let (a, c1) = C_createMetadataVector c in init_loop k (fv_push_back a p) c1)"

definition C_initVeri :: "nat \<Rightarrow> client \<Rightarrow> client" where
  "C_initVeri metadataVectorLen c =
     (let c0 = c\<lparr>existVeriInstance := False\<rparr>;
          (p, c1) = init_loop metadataVectorLen fv_new c0
      in c1\<lparr>metadataVectorPtr := VecObj p, pmtest_cur_idx := 0, metadataPtr := read_cell p 0\<rparr>)"

definition C_sendTrace :: "client \<Rightarrow> client option" where
  "C_sendTrace c =
     (case metadataVectorPtr c of
        VecObj p \<Rightarrow>
          if fv_size p \<le> pmtest_cur_idx c then Some (c\<lparr>errors := errors c + 1\<rparr>)
          else (case read_cell p (pmtest_cur_idx c) of
            Addr a \<Rightarrow>
              let c1 = c\<lparr>executed := executed c @ [a], pmtest_cur_idx := pmtest_cur_idx c + 1\<rparr>
              in Some (c1\<lparr>metadataPtr := if pmtest_cur_idx c1 < fv_size p then read_cell p (pmtest_cur_idx c1) else NULL\<rparr>)
          | _ \<Rightarrow> None)
      | _ \<Rightarrow> None)"

definition C_exitVeri :: "client \<Rightarrow> client option" where
  "C_exitVeri c =
     (case metadataVectorPtr c of
        VecObj p \<Rightarrow> Some (c\<lparr>cstore := (\<lambda>a. if Some a \<in> set (take (fv_size p) (arr_vector p)) then None else cstore c a),
                          metadataVectorPtr := NoVectors\<rparr>)
      | _ \<Rightarrow> None)"

subsection \<open>Threads and registered variables\<close>

text \<open>\<open>C_getNewMetadataPtr\<close> works on a plain array only.\<close>

definition C_getNewMetadataPtr :: "client \<Rightarrow> client option" where
  "C_getNewMetadataPtr c =
     (case metadataVectorPtr c of
        RawArray as \<Rightarrow> if pmtest_cur_idx c < length as
          then Some (c\<lparr>metadataPtr := Addr (as ! pmtest_cur_idx c), pmtest_cur_idx := pmtest_cur_idx c + 1\<rparr>) else None
      | _ \<Rightarrow> None)"

definition C_initThread :: "nat \<Rightarrow> client \<Rightarrow> nat \<times> nat \<times> client" where
  "C_initThread cur_thread_id c =
     (cur_thread_id, cur_thread_id + 1, c\<lparr>existVeriInstance := False, pmtest_cur_idx := 0\<rparr>)"

record VariableInfo =
  vaddr :: address
  vsize :: "32 word"

type_synonym registry = "string \<Rightarrow> VariableInfo option"

fun nat_string :: "nat \<Rightarrow> string" where
  "nat_string n = (if n < 10 then [char_of (48 + n)] else nat_string (n div 10) @ [char_of (48 + n mod 10)])"

declare nat_string.simps [simp del]

definition C_registerVariable :: "nat \<Rightarrow> string \<Rightarrow> address \<Rightarrow> u64 \<Rightarrow> registry \<Rightarrow> registry" where
  "C_registerVariable thread_id name a sz m =
     (let variableName = name @ nat_string thread_id
      in if m variableName = None then m(variableName \<mapsto> \<lparr>vaddr = a, vsize = ucast sz\<rparr>) else m)"

definition C_unregisterVariable :: "nat \<Rightarrow> string \<Rightarrow> registry \<Rightarrow> registry" where
  "C_unregisterVariable thread_id name m = m(name @ nat_string thread_id := None)"

text \<open>The result is the address and, through the pointer argument, the size; \<open>int\<close> to \<open>size_t\<close> extends the sign.\<close>

definition C_getVariable :: "nat \<Rightarrow> string \<Rightarrow> registry \<Rightarrow> address \<times> u64" where
  "C_getVariable thread_id name m =
     (case m (name @ nat_string thread_id) of
        None \<Rightarrow> (0, 0)
      | Some v \<Rightarrow> (vaddr v, scast (vsize v)))"

subsection \<open>What one call records\<close>

definition recorded :: "bool \<Rightarrow> call_site \<Rightarrow> Metadata list" where
  "recorded excl x = fv_list (create_at excl True x fv_new)"

lemma create_at_append:
  assumes "fv_ok vec"
  shows "fv_ok (create_at excl True x vec) \<and> fv_list (create_at excl True x vec) = fv_list vec @ recorded excl x"
  using assms
  by (cases "cs_op x")
    (auto simp: recorded_def create_at_def create_def create_defs fv.push_ok fv.push_list fv.new_list fv.new_ok)

fun op_type :: "op \<Rightarrow> MetadataType" where
  "op_type OpCheckerStart = TRANSACTIONBEGIN"
| "op_type OpCheckerEnd = TRANSACTIONEND"
| "op_type (OpTransactionAdd _ _) = TRANSACTIONADD"
| "op_type (OpAssign _ _) = ASSIGN"
| "op_type (OpFlush _ _) = FLUSH"
| "op_type OpCommit = COMMIT"
| "op_type OpBarrier = BARRIER"
| "op_type OpFence = FENCE"
| "op_type (OpIsPersistent _ _) = PERSIST"
| "op_type (OpIsPersistedBefore _ _ _ _) = ORDER"
| "op_type (OpExclude _ _) = EXCLUDE"
| "op_type (OpInclude _ _) = INCLUDE"

fun op_range :: "op \<Rightarrow> (address \<times> u64) option" where
  "op_range (OpTransactionAdd a n) = Some (a, n)"
| "op_range (OpAssign a n) = Some (a, n)"
| "op_range (OpFlush a n) = Some (a, n)"
| "op_range (OpIsPersistent a n) = Some (a, n)"
| "op_range (OpIsPersistedBefore a n _ _) = Some (a, n)"
| "op_range (OpExclude a n) = Some (a, n)"
| "op_range (OpInclude a n) = Some (a, n)"
| "op_range _ = None"

lemma recorded_shape:
  assumes "excl \<or> op_type (cs_op x) \<notin> {EXCLUDE, INCLUDE}"
  shows "\<exists>m. recorded excl x = [site (cs_file x) (cs_line x) m] \<and> mtype m = op_type (cs_op x) \<and>
    (\<forall>a n. op_range (cs_op x) = Some (a, n) \<longrightarrow> addr m = a \<and> msize m = ucast n)"
  using assms
  by (cases "cs_op x")
    (auto simp: recorded_def create_at_def create_def create_defs fv.push_list fv.new_ok fv.new_list ranged_def)

lemma site_simps [simp]:
  "mtype (site f l m) = mtype m" "addr (site f l m) = addr m" "msize (site f l m) = msize m"
  "line_num (site f l m) = l"
  by (simp_all add: site_def)

subsection \<open>Recording and sending traces\<close>

fun run_section :: "bool \<Rightarrow> call_site list \<Rightarrow> client \<Rightarrow> client option" where
  "run_section excl [] c = Some c"
| "run_section excl (x # xs) c = (case trace_op excl x c of None \<Rightarrow> None | Some c' \<Rightarrow> run_section excl xs c')"

fun run_sections :: "bool \<Rightarrow> call_site list list \<Rightarrow> client \<Rightarrow> client option" where
  "run_sections excl [] c = Some c"
| "run_sections excl (xs # rest) c =
     (case run_section excl xs c of None \<Rightarrow> None
      | Some c' \<Rightarrow> (case C_sendTrace c' of None \<Rightarrow> None | Some c'' \<Rightarrow> run_sections excl rest c''))"

text \<open>The client after \<open>k\<close> of its \<open>n\<close> buffers, at the addresses from \<open>b\<close> on, have been sent.\<close>

definition ready :: "nat \<Rightarrow> nat \<Rightarrow> nat \<Rightarrow> client \<Rightarrow> bool" where
  "ready b n k c \<longleftrightarrow> (\<exists>p. metadataVectorPtr c = VecObj p \<and> fv_ok p \<and> fv_list p = [b ..< b + n]) \<and>
     pmtest_cur_idx c = k \<and> k \<le> n \<and> metadataPtr c = (if k < n then Addr (b + k) else NULL)"

definition unused :: "nat \<Rightarrow> nat \<Rightarrow> nat \<Rightarrow> client \<Rightarrow> bool" where
  "unused b n k c \<longleftrightarrow> (\<forall>j. k \<le> j \<and> j < n \<longrightarrow> cstore c (b + j) = Some fv_new)"

lemma read_cell_list: "fv_ok p \<Longrightarrow> i < length (fv_list p) \<Longrightarrow> read_cell p i = Addr (fv_list p ! i)"
  using fv.size_list [of p] fv.index_list [of p i] by (simp add: read_cell_def)

lemma init_loop_spec:
  assumes "init_loop k p c = (p', c')" "fv_ok p"
  shows "fv_ok p' \<and> fv_list p' = fv_list p @ [cnext c ..< cnext c + k] \<and>
    (\<forall>a. cstore c' a = (if cnext c \<le> a \<and> a < cnext c + k then Some fv_new else cstore c a)) \<and>
    executed c' = executed c \<and> errors c' = errors c \<and> existVeriInstance c' = existVeriInstance c"
  using assms
proof (induction k arbitrary: p c)
  case (Suc k)
  let ?c1 = "c\<lparr>cstore := (cstore c)(cnext c := Some fv_new), cnext := Suc (cnext c)\<rparr>"
  have "init_loop k (fv_push_back (cnext c) p) ?c1 = (p', c')"
    using Suc.prems(1) by (simp add: C_createMetadataVector_def)
  from Suc.IH [OF this fv.push_ok [OF Suc.prems(2)]] show ?case
    by (auto simp: fv.push_list [OF Suc.prems(2)] upt_conv_Cons)
qed auto

lemma init_ready:
  assumes "0 < n"
  shows "ready (cnext c) n 0 (PMTest_START (C_initVeri n c))" "unused (cnext c) n 0 (PMTest_START (C_initVeri n c))"
    "existVeriInstance (PMTest_START (C_initVeri n c))" "executed (PMTest_START (C_initVeri n c)) = executed c"
proof -
  obtain p c1 where p: "init_loop n fv_new (c\<lparr>existVeriInstance := False\<rparr>) = (p, c1)" by fastforce
  note i = init_loop_spec [OF p fv.new_ok]
  have "read_cell p 0 = Addr (cnext c)"
    using read_cell_list [of p 0] i assms by (simp add: fv.new_list)
  with p i assms show "ready (cnext c) n 0 (PMTest_START (C_initVeri n c))"
    "unused (cnext c) n 0 (PMTest_START (C_initVeri n c))"
    by (simp_all add: ready_def unused_def PMTest_START_def C_initVeri_def fv.new_list)
  show "existVeriInstance (PMTest_START (C_initVeri n c))" "executed (PMTest_START (C_initVeri n c)) = executed c"
    using p i by (simp_all add: PMTest_START_def C_initVeri_def)
qed

definition same_control :: "client \<Rightarrow> client \<Rightarrow> bool" where
  "same_control c c' \<longleftrightarrow> metadataPtr c' = metadataPtr c \<and> existVeriInstance c' = existVeriInstance c \<and>
     pmtest_cur_idx c' = pmtest_cur_idx c \<and> metadataVectorPtr c' = metadataVectorPtr c \<and> executed c' = executed c"

lemma run_section_spec:
  assumes "existVeriInstance c" "metadataPtr c = Addr a" "cstore c a = Some vec" "fv_ok vec"
  shows "\<exists>c' vec'. run_section excl xs c = Some c' \<and> same_control c c' \<and> cstore c' a = Some vec' \<and> fv_ok vec' \<and>
    fv_list vec' = fv_list vec @ concat (map (recorded excl) xs) \<and> (\<forall>x. x \<noteq> a \<longrightarrow> cstore c' x = cstore c x)"
  using assms
proof (induction xs arbitrary: c vec)
  case (Cons x xs)
  let ?v = "create_at excl True x vec"
  define c1 where "c1 = c\<lparr>cstore := (cstore c)(a := Some ?v)\<rparr>"
  have v: "fv_ok ?v" "fv_list ?v = fv_list vec @ recorded excl x"
    using create_at_append [OF Cons.prems(4)] by auto
  have c1: "same_control c c1" "cstore c1 a = Some ?v" "\<forall>x. x \<noteq> a \<longrightarrow> cstore c1 x = cstore c x"
    "trace_op excl x c = Some c1"
    using Cons.prems by (simp_all add: c1_def same_control_def trace_op_def)
  then obtain c' vec' where "run_section excl xs c1 = Some c'" "same_control c1 c'" "cstore c' a = Some vec'" "fv_ok vec'"
    "fv_list vec' = fv_list ?v @ concat (map (recorded excl) xs)" "\<forall>x. x \<noteq> a \<longrightarrow> cstore c' x = cstore c1 x"
    using Cons.IH [of c1 ?v] Cons.prems(1,2) v(1) by (auto simp: same_control_def)
  then show ?case using c1 v(2) by (auto simp: same_control_def)
qed (simp add: same_control_def)

lemma send_ready:
  assumes "ready b n k c" "k < n"
  shows "\<exists>c'. C_sendTrace c = Some c' \<and> ready b n (Suc k) c' \<and> executed c' = executed c @ [b + k] \<and>
    cstore c' = cstore c \<and> existVeriInstance c' = existVeriInstance c"
proof -
  obtain p where p: "metadataVectorPtr c = VecObj p" "fv_ok p" "fv_list p = [b ..< b + n]"
    using assms(1) by (auto simp: ready_def)
  then show ?thesis
    using assms read_cell_list [OF p(2)] fv.size_list [OF p(2)]
    by (auto simp: C_sendTrace_def ready_def)
qed

lemma run_sections_spec:
  assumes "ready b n k c" "unused b n k c" "existVeriInstance c" "length secs \<le> n - k"
  shows "\<exists>c'. run_sections excl secs c = Some c' \<and> ready b n (k + length secs) c' \<and> unused b n (k + length secs) c' \<and>
    existVeriInstance c' \<and> executed c' = executed c @ map (\<lambda>j. b + (k + j)) [0 ..< length secs] \<and>
    (\<forall>j<length secs. \<exists>v. cstore c' (b + (k + j)) = Some v \<and> fv_ok v \<and> fv_list v = concat (map (recorded excl) (secs ! j))) \<and>
    (\<forall>a. a < b + k \<longrightarrow> cstore c' a = cstore c a)"
  using assms
proof (induction secs arbitrary: k c)
  case (Cons xs secs)
  have k: "k < n" using Cons.prems(4) by simp
  have c: "metadataPtr c = Addr (b + k)" "cstore c (b + k) = Some fv_new"
    using Cons.prems(1,2) k by (simp_all add: ready_def unused_def)
  obtain c0 v where v: "run_section excl xs c = Some c0" "fv_ok v" "fv_list v = concat (map (recorded excl) xs)"
    "same_control c c0" "cstore c0 (b + k) = Some v" "\<forall>x. x \<noteq> b + k \<longrightarrow> cstore c0 x = cstore c x"
    using run_section_spec [OF Cons.prems(3) c fv.new_ok, of excl xs] by (auto simp: fv.new_list)
  have "ready b n k c0" using Cons.prems(1) v(4) by (simp add: ready_def same_control_def)
  from send_ready [OF this k] obtain c1 where c1: "C_sendTrace c0 = Some c1" "ready b n (Suc k) c1"
    "executed c1 = executed c @ [b + k]" "cstore c1 = cstore c0" "existVeriInstance c1"
    using Cons.prems(3) v(4) by (auto simp: same_control_def)
  have u: "unused b n (Suc k) c1" using Cons.prems(2) c1(4) v(6) by (simp add: unused_def)
  have "length secs \<le> n - Suc k" using Cons.prems(4) by simp
  from Cons.IH [OF c1(2) u c1(5) this] obtain c' where c': "run_sections excl secs c1 = Some c'"
    "ready b n (Suc k + length secs) c'" "unused b n (Suc k + length secs) c'" "existVeriInstance c'"
    "executed c' = executed c1 @ map (\<lambda>j. b + (Suc k + j)) [0 ..< length secs]"
    "\<forall>j<length secs. \<exists>v. cstore c' (b + (Suc k + j)) = Some v \<and> fv_ok v \<and> fv_list v = concat (map (recorded excl) (secs ! j))"
    "\<forall>a. a < b + Suc k \<longrightarrow> cstore c' a = cstore c1 a"
    by blast
  have "executed c' = executed c @ map (\<lambda>j. b + (k + j)) [0 ..< length (xs # secs)]"
    using c'(5) c1(3) by (simp add: upt_conv_Cons map_Suc_upt [symmetric] del: upt_Suc)
  moreover have "\<exists>v. cstore c' (b + (k + j)) = Some v \<and> fv_ok v \<and> fv_list v = concat (map (recorded excl) ((xs # secs) ! j))"
    if "j < length (xs # secs)" for j
    using that c'(6,7) c1(4) v(2,3,5) by (cases j) auto
  moreover have "\<forall>a. a < b + k \<longrightarrow> cstore c' a = cstore c a" using c'(7) c1(4) v(6) by simp
  ultimately show ?case using v(1) c1(1) c'(1-4) by auto
qed (auto simp: )

lemma session_spec:
  assumes "0 < n" "length secs \<le> n"
  obtains c' where "run_sections excl secs (PMTest_START (C_initVeri n c)) = Some c'"
    "ready (cnext c) n (length secs) c'" "existVeriInstance c'"
    "executed c' = executed c @ map (\<lambda>j. cnext c + j) [0 ..< length secs]"
    "\<And>j. j < length secs \<Longrightarrow> \<exists>v. cstore c' (cnext c + j) = Some v \<and> fv_list v = concat (map (recorded excl) (secs ! j))"
proof -
  have "length secs \<le> n - 0" using assms(2) by simp
  from run_sections_spec [OF init_ready(1,2,3) [OF assms(1), of c] this, of excl] init_ready(4) [OF assms(1), of c] that
  show thesis unfolding add_0 by (metis (no_types, lifting))
qed

subsection \<open>Properties\<close>

text \<open>C16: What is recorded is what is checked. After \<open>C_initVeri\<close> with \<open>n\<close> buffers, a client that records at most \<open>n\<close> sections
  and sends each with \<open>C_sendTrace\<close> never follows a bad pointer, and the buffers handed to the pool hold, at the end,
  exactly the entries of the sections, in order: recording a later section does not touch a buffer already sent.\<close>

theorem session_traces:
  assumes "0 < n" "length secs \<le> n" "executed c = []"
  shows "\<exists>c'. run_sections excl secs (PMTest_START (C_initVeri n c)) = Some c' \<and>
    map (\<lambda>a. map_option fv_list (cstore c' a)) (executed c') =
    map (\<lambda>xs. Some (concat (map (recorded excl) xs))) secs"
proof -
  obtain c' where c': "run_sections excl secs (PMTest_START (C_initVeri n c)) = Some c'"
    "executed c' = executed c @ map (\<lambda>j. cnext c + j) [0 ..< length secs]"
    "\<And>j. j < length secs \<Longrightarrow> \<exists>v. cstore c' (cnext c + j) = Some v \<and> fv_list v = concat (map (recorded excl) (secs ! j))"
    by (rule session_spec [OF assms(1,2), of excl c]) iprover
  have "map (\<lambda>a. map_option fv_list (cstore c' a)) (executed c') = map (\<lambda>xs. Some (concat (map (recorded excl) xs))) secs"
    using c'(2,3) assms(3) by (intro nth_equalityI) force+
  with c'(1) show ?thesis by blast
qed

definition no_client :: client where
  "no_client = \<lparr>metadataPtr = NULL, existVeriInstance = False, pmtest_cur_idx = 0, metadataVectorPtr = NoVectors,
     cstore = (\<lambda>_. None), cnext = 0, executed = [], errors = 0\<rparr>"

definition site_of :: "op \<Rightarrow> call_site" where
  "site_of x = \<lparr>cs_op = x, cs_mem = entry COMMIT 0 0, cs_file = ''main.c'', cs_line = 7\<rparr>"

theorem session_traces_witness:
  "let secs = [[site_of (OpAssign 64 4), site_of OpFence], [site_of (OpFlush 64 4)]]
   in \<exists>c'. run_sections False secs (PMTest_START (C_initVeri 2 no_client)) = Some c' \<and>
        map (\<lambda>a. map_option fv_list (cstore c' a)) (executed c') =
        map (\<lambda>xs. Some (concat (map (recorded False) xs))) secs"
  unfolding Let_def by (rule session_traces) (simp_all add: no_client_def)

text \<open>One entry per call. A tracing macro records one entry with the type, address and line of the call, with the size
  if it is below \<open>2 ^ 32\<close>, and with a file name that is printed as the last 48 characters of \<open>__FILE__\<close>.\<close>

theorem recorded_entry:
  assumes "excl \<or> op_type (cs_op x) \<notin> {EXCLUDE, INCLUDE}" "length (cs_file x) < 2 ^ 31" "NUL \<notin> set (cs_file x)"
    "op_range (cs_op x) = Some (a, n)" "unat n < 2 ^ 32"
  shows "\<exists>m. recorded excl x = [m] \<and> mtype m = op_type (cs_op x) \<and> addr m = a \<and> unat (msize m) = unat n \<and>
    line_num m = cs_line x \<and> printed_name m = drop (length (cs_file x) - 48) (cs_file x)"
proof -
  obtain m where m: "recorded excl x = [site (cs_file x) (cs_line x) m]" "mtype m = op_type (cs_op x)"
    "addr m = a" "msize m = ucast n"
    using recorded_shape [OF assms(1)] assms(4) by blast
  have "unat (ucast n :: u32) = unat n"
    using assms(5) by (simp add: unsigned_ucast_eq take_bit_nat_eq_self)
  with m printed_name_site [OF assms(2,3), of "cs_line x" m] show ?thesis by simp
qed

theorem recorded_entry_witness:
  "\<exists>m. recorded False (site_of (OpAssign 64 4)) = [m] \<and> mtype m = ASSIGN \<and> addr m = 64 \<and> unat (msize m) = 4 \<and>
     line_num m = 7 \<and> printed_name m = ''main.c''"
  using recorded_entry [of False "site_of (OpAssign 64 4)" 64 4] by (simp add: site_of_def)

text \<open>Running out of buffers. After all \<open>n\<close> buffers have been sent, \<open>C_sendTrace\<close> prints an error and changes nothing
  else, and a tracing macro dereferences a null pointer.\<close>

theorem send_past_end:
  assumes "0 < n" "length secs = n" "run_sections excl secs (PMTest_START (C_initVeri n c)) = Some c'"
  shows "C_sendTrace c' = Some (c'\<lparr>errors := errors c' + 1\<rparr>) \<and> trace_op excl x c' = None"
proof -
  have r: "ready (cnext c) n n c'" "existVeriInstance c'"
    using session_spec [of n secs excl c] assms by auto
  then obtain p where "metadataVectorPtr c' = VecObj p" "fv_ok p" "fv_list p = [cnext c ..< cnext c + n]"
    by (auto simp: ready_def)
  with r fv.size_list [of p] show ?thesis by (simp add: ready_def C_sendTrace_def trace_op_def)
qed

theorem send_past_end_witness:
  "\<exists>c'. run_sections False [[]] (PMTest_START (C_initVeri 1 no_client)) = Some c' \<and>
     C_sendTrace c' = Some (c'\<lparr>errors := errors c' + 1\<rparr>) \<and> trace_op False (site_of OpFence) c' = None"
proof -
  obtain c' where "run_sections False [[]] (PMTest_START (C_initVeri 1 no_client)) = Some c'"
    using session_spec [of 1 "[[]]" False no_client] by auto
  with send_past_end [of 1 "[[]]" False no_client c' "site_of OpFence"] show ?thesis by auto
qed

text \<open>Registered variables. In one thread, a variable registered with a size below \<open>2 ^ 31\<close> is found with its address and
  size, other names are unaffected, and after unregistering it is gone.\<close>

theorem registry_roundtrip:
  assumes "m (name @ nat_string t) = None" "unat sz < 2 ^ 31" "other \<noteq> name"
  shows "C_getVariable t name (C_registerVariable t name a sz m) = (a, sz) \<and>
    C_getVariable t other (C_registerVariable t name a sz m) = C_getVariable t other m \<and>
    C_getVariable t name (C_unregisterVariable t name (C_registerVariable t name a sz m)) = (0, 0)"
proof -
  have "unat (ucast sz :: u32) = unat sz"
    using assms(2) by (simp add: unsigned_ucast_eq take_bit_nat_eq_self)
  then have "uint (ucast sz :: u32) = uint sz" by (simp only: uint_nat)
  moreover have "int (unat sz) < int (2 ^ 31)" using assms(2) by (simp only: of_nat_less_iff)
  then have "uint sz < 2 ^ 31" by simp
  moreover have "- (2 ^ 31) \<le> uint sz" by (rule order_trans [of _ 0]) simp_all
  ultimately have "sint (ucast sz :: u32) = uint sz" by (simp add: sint_uint signed_take_bit_int_eq_self)
  then have "scast (ucast sz :: u32) = sz" by (simp add: scast_eq)
  then show ?thesis
    using assms(1,3) by (simp add: C_getVariable_def C_registerVariable_def C_unregisterVariable_def)
qed

theorem registry_roundtrip_witness:
  "C_getVariable 3 ''head'' (C_registerVariable 3 ''head'' 64 8 Map.empty) = (64, 8) \<and>
   C_getVariable 3 ''tail'' (C_registerVariable 3 ''head'' 64 8 Map.empty) = (0, 0)"
  using registry_roundtrip [of Map.empty "''head''" 3 8 "''tail''" 64] by (simp add: C_getVariable_def)

text \<open>Confusions of the registry. The name is followed by the thread number without a separator, so thread 2 finds under the
  name a1 what thread 12 registered as a; and the size is stored in an \<open>int\<close>, so \<open>2 ^ 31\<close> bytes come back as
  \<open>2 ^ 64 - 2 ^ 31\<close>.\<close>

theorem registry_confusions:
  "C_getVariable 2 ''a1'' (C_registerVariable 12 ''a'' 64 4 Map.empty) = (64, 4) \<and>
   C_getVariable 0 ''x'' (C_registerVariable 0 ''x'' 64 (2 ^ 31) Map.empty) = (64, - (2 ^ 31))"
proof -
  have "nat_string 2 = ''2''" "nat_string 12 = ''12''" by code_simp+
  then show ?thesis by (simp add: C_getVariable_def C_registerVariable_def)
qed

end
