(* ===== verification/Kernel_Fifo.thy ===== *)
theory Kernel_Fifo
  imports Trace Fast_Vector
begin

text \<open>
  The kernel side of PMTest, \<open>src/src/kernel_module.c\<close>: kernel code records entries into a kfifo, a user process reads them
  through \<open>/proc/pmtest\<close>. The Linux kfifo is not part of the sources: it is the parameter \<open>F\<close> of the model, a record of the
  operations the module calls, and its documented behaviour for a bounded queue, whose size is a power of two, is the locale \<open>kfifo\<close>. The entries are
  built by the \<open>kC_createMetadata\<close> functions; \<open>PMTestFifoWrite\<close>, \<open>PMTestDeviceRead\<close> and the wait queue are a step relation with
  one step per access to the shared variables. \<open>wait_event_interruptible\<close> tests its condition after the thread has been put
  on the wait queue, so a \<open>wake_up_interruptible\<close> between the test and the sleep is not lost; a signal may end it early.
\<close>

definition KFIFO_LEN :: nat where
  "KFIFO_LEN = 1024"

definition KFIFO_THRESHOLD_LEN :: nat where
  "KFIFO_THRESHOLD_LEN = KFIFO_LEN div 2"

subsection \<open>The kfifo interface\<close>

record ('f, 'e) kfifo_ops =
  kfifo_alloc :: "nat \<Rightarrow> 'f option"
  kfifo_avail :: "'f \<Rightarrow> nat"
  kfifo_put :: "'e \<Rightarrow> 'f \<Rightarrow> 'f"
  kfifo_to_user :: "'f \<Rightarrow> ('e \<times> 'f) option"

locale kfifo =
  fixes F :: "('f, 'e) kfifo_ops" and queue :: "'f \<Rightarrow> 'e list" and capacity :: "'f \<Rightarrow> nat"
  assumes alloc: "kfifo_alloc F (2 ^ k) = Some f \<Longrightarrow> queue f = [] \<and> capacity f = 2 ^ k"
    and avail: "kfifo_avail F f = capacity f - length (queue f)"
    and put: "queue (kfifo_put F x f) = (if length (queue f) < capacity f then queue f @ [x] else queue f)"
      "capacity (kfifo_put F x f) = capacity f"
    and to_user_empty: "queue f = [] \<Longrightarrow> kfifo_to_user F f = None"
    and to_user: "queue f = x # xs \<Longrightarrow> \<exists>f'. kfifo_to_user F f = Some (x, f') \<and> queue f' = xs \<and> capacity f' = capacity f"

text \<open>A bounded list has this behaviour.\<close>

definition bounded_list :: "(nat \<times> 'e list, 'e) kfifo_ops" where
  "bounded_list = \<lparr>kfifo_alloc = (\<lambda>n. Some (n, [])), kfifo_avail = (\<lambda>(n, xs). n - length xs),
     kfifo_put = (\<lambda>x (n, xs). if length xs < n then (n, xs @ [x]) else (n, xs)),
     kfifo_to_user = (\<lambda>(n, xs). case xs of [] \<Rightarrow> None | x # ys \<Rightarrow> Some (x, (n, ys)))\<rparr>"

interpretation bfifo: kfifo bounded_list snd fst
  by unfold_locales (auto simp: bounded_list_def split: list.splits)

subsection \<open>Creating entries\<close>

text \<open>The result is the entry passed to \<open>PMTestFifoWrite\<close>; \<open>m0\<close> is the uninitialised \<open>Metadata\<close> on the stack.\<close>

definition kC_createMetadata_Assign ::
  "bool \<Rightarrow> Metadata \<Rightarrow> address \<Rightarrow> u64 \<Rightarrow> string \<Rightarrow> u32 \<Rightarrow> Metadata option" where
  "kC_createMetadata_Assign existVeriInstance m0 a n file line =
     (if existVeriInstance then Some (site file line (ranged ASSIGN a n m0)) else None)"

definition kC_createMetadata_Flush ::
  "bool \<Rightarrow> Metadata \<Rightarrow> address \<Rightarrow> u64 \<Rightarrow> string \<Rightarrow> u32 \<Rightarrow> Metadata option" where
  "kC_createMetadata_Flush existVeriInstance m0 a n file line =
     (if existVeriInstance then Some (site file line (ranged FLUSH a n m0)) else None)"

definition kC_createMetadata_Commit :: "bool \<Rightarrow> Metadata \<Rightarrow> string \<Rightarrow> u32 \<Rightarrow> Metadata option" where
  "kC_createMetadata_Commit existVeriInstance m0 file line =
     (if existVeriInstance then Some (site file line (m0\<lparr>mtype := COMMIT\<rparr>)) else None)"

definition kC_createMetadata_Barrier :: "bool \<Rightarrow> Metadata \<Rightarrow> string \<Rightarrow> u32 \<Rightarrow> Metadata option" where
  "kC_createMetadata_Barrier existVeriInstance m0 file line =
     (if existVeriInstance then Some (site file line (m0\<lparr>mtype := BARRIER\<rparr>)) else None)"

definition kC_createMetadata_Fence :: "bool \<Rightarrow> Metadata \<Rightarrow> string \<Rightarrow> u32 \<Rightarrow> Metadata option" where
  "kC_createMetadata_Fence existVeriInstance m0 file line =
     (if existVeriInstance then Some (site file line (m0\<lparr>mtype := FENCE\<rparr>)) else None)"

definition kC_createMetadata_Persist ::
  "bool \<Rightarrow> Metadata \<Rightarrow> address \<Rightarrow> u64 \<Rightarrow> string \<Rightarrow> u32 \<Rightarrow> Metadata option" where
  "kC_createMetadata_Persist existVeriInstance m0 a n file line =
     (if existVeriInstance then Some (site file line (ranged PERSIST a n m0)) else None)"

definition kC_createMetadata_Order ::
  "bool \<Rightarrow> Metadata \<Rightarrow> address \<Rightarrow> u64 \<Rightarrow> address \<Rightarrow> u64 \<Rightarrow> string \<Rightarrow> u32 \<Rightarrow> Metadata option" where
  "kC_createMetadata_Order existVeriInstance m0 a n a_late n_late file line =
     (if existVeriInstance
      then Some (site file line ((ranged ORDER a n m0)\<lparr>addr_late := a_late, msize_late := ucast n_late\<rparr>))
      else None)"

definition kC_createMetadata_TransactionDelim :: "bool \<Rightarrow> Metadata \<Rightarrow> Metadata option" where
  "kC_createMetadata_TransactionDelim existVeriInstance m0 =
     (if existVeriInstance then Some (m0\<lparr>mtype := TRANSACTIONDELIM\<rparr>) else None)"

definition kC_createMetadata_Ending :: "bool \<Rightarrow> Metadata \<Rightarrow> Metadata option" where
  "kC_createMetadata_Ending existVeriInstance m0 =
     (if existVeriInstance then Some (m0\<lparr>mtype := ENDING\<rparr>) else None)"

definition kC_createMetadata_TransactionBegin :: "bool \<Rightarrow> Metadata \<Rightarrow> string \<Rightarrow> u32 \<Rightarrow> Metadata option" where
  "kC_createMetadata_TransactionBegin existVeriInstance m0 file line =
     (if existVeriInstance then Some (site file line (m0\<lparr>mtype := TRANSACTIONBEGIN\<rparr>)) else None)"

definition kC_createMetadata_TransactionEnd :: "bool \<Rightarrow> Metadata \<Rightarrow> string \<Rightarrow> u32 \<Rightarrow> Metadata option" where
  "kC_createMetadata_TransactionEnd existVeriInstance m0 file line =
     (if existVeriInstance then Some (site file line (m0\<lparr>mtype := TRANSACTIONEND\<rparr>)) else None)"

definition kC_createMetadata_TransactionAdd ::
  "bool \<Rightarrow> Metadata \<Rightarrow> address \<Rightarrow> u64 \<Rightarrow> string \<Rightarrow> u32 \<Rightarrow> Metadata option" where
  "kC_createMetadata_TransactionAdd existVeriInstance m0 a n file line =
     (if existVeriInstance then Some (site file line (ranged TRANSACTIONADD a n m0)) else None)"

definition kC_createMetadata_Exclude ::
  "bool \<Rightarrow> bool \<Rightarrow> Metadata \<Rightarrow> address \<Rightarrow> u64 \<Rightarrow> string \<Rightarrow> u32 \<Rightarrow> Metadata option" where
  "kC_createMetadata_Exclude excl existVeriInstance m0 a n file line =
     (if excl \<and> existVeriInstance then Some (site file line (ranged EXCLUDE a n m0)) else None)"

definition kC_createMetadata_Include ::
  "bool \<Rightarrow> bool \<Rightarrow> Metadata \<Rightarrow> address \<Rightarrow> u64 \<Rightarrow> string \<Rightarrow> u32 \<Rightarrow> Metadata option" where
  "kC_createMetadata_Include excl existVeriInstance m0 a n file line =
     (if excl \<and> existVeriInstance then Some (site file line (ranged INCLUDE a n m0)) else None)"

subsection \<open>The device\<close>

text \<open>Positions of the writing thread in \<open>PMTestFifoWrite\<close> and of the reader in \<open>PMTestDeviceRead\<close>.\<close>

datatype 'e wpos = WEnter | WPut 'e | WTest | WSleep | WCheck | WAsleep

datatype rpos = RIdle | RTest | RWoken

record ('f, 'e) device =
  pmtest_dev :: 'f
  asleep :: bool
  wpos :: "'e wpos"
  todo :: "'e list"
  rpos :: rpos
  delivered :: "'e list"
  dropped :: "'e list"

text \<open>\<open>proc_create\<close> may fail; the fifo is then freed again.\<close>

definition kC_initPMTestDevice ::
  "('f, 'e) kfifo_ops \<Rightarrow> bool \<Rightarrow> 'e list \<Rightarrow> ('f, 'e) device option" where
  "kC_initPMTestDevice F proc_create_ok input =
     (case kfifo_alloc F KFIFO_LEN of
        None \<Rightarrow> None
      | Some f \<Rightarrow> if proc_create_ok
          then Some \<lparr>pmtest_dev = f, asleep = False, wpos = WEnter, todo = input, rpos = RIdle, delivered = [], dropped = []\<rparr>
          else None)"

text \<open>One writing thread with the entries \<open>todo\<close> still to write. \<open>PMTestFifoWrite\<close> drops an entry when the fifo is full on entry.\<close>

definition fifo_write_next :: "('f, 'e) kfifo_ops \<Rightarrow> ('f, 'e) device \<Rightarrow> ('f, 'e) device option" where
  "fifo_write_next F d =
     (case wpos d of
        WEnter \<Rightarrow> (case todo d of
            [] \<Rightarrow> None
          | x # xs \<Rightarrow> if 0 < kfifo_avail F (pmtest_dev d) then Some (d\<lparr>todo := xs, wpos := WPut x\<rparr>)
                     else Some (d\<lparr>todo := xs, wpos := WTest, dropped := dropped d @ [x]\<rparr>))
      | WPut x \<Rightarrow> Some (d\<lparr>pmtest_dev := kfifo_put F x (pmtest_dev d), wpos := WTest,
                     dropped := dropped d @ (if 0 < kfifo_avail F (pmtest_dev d) then [] else [x])\<rparr>)
      | WTest \<Rightarrow> Some (d\<lparr>wpos := if kfifo_avail F (pmtest_dev d) = 0 then WSleep else WEnter\<rparr>)
      | WSleep \<Rightarrow> Some (d\<lparr>asleep := True, wpos := WCheck\<rparr>)
      | WCheck \<Rightarrow> Some (d\<lparr>wpos := if KFIFO_THRESHOLD_LEN \<le> kfifo_avail F (pmtest_dev d) then WEnter else WAsleep\<rparr>)
      | WAsleep \<Rightarrow> None)"

definition wake_up_interruptible :: "('f, 'e) device \<Rightarrow> ('f, 'e) device" where
  "wake_up_interruptible d = (if wpos d = WAsleep then d\<lparr>wpos := WCheck\<rparr> else d)"

text \<open>A read of one entry. The call returns 1 when nothing was copied and the reader tries again.\<close>

definition device_read_next :: "('f, 'e) kfifo_ops \<Rightarrow> ('f, 'e) device \<Rightarrow> ('f, 'e) device" where
  "device_read_next F d =
     (case rpos d of
        RIdle \<Rightarrow> (case kfifo_to_user F (pmtest_dev d) of
            None \<Rightarrow> d\<lparr>rpos := RTest\<rparr>
          | Some (x, f) \<Rightarrow> d\<lparr>pmtest_dev := f, delivered := delivered d @ [x], rpos := RTest\<rparr>)
      | RTest \<Rightarrow> if asleep d \<and> KFIFO_THRESHOLD_LEN \<le> kfifo_avail F (pmtest_dev d)
          then (wake_up_interruptible d)\<lparr>rpos := RWoken\<rparr> else d\<lparr>rpos := RIdle\<rparr>
      | RWoken \<Rightarrow> d\<lparr>asleep := False, rpos := RIdle\<rparr>)"

inductive device_step :: "('f, 'e) kfifo_ops \<Rightarrow> bool \<Rightarrow> ('f, 'e) device \<Rightarrow> ('f, 'e) device \<Rightarrow> bool"
  for F signals where
  w_step: "fifo_write_next F d = Some d' \<Longrightarrow> device_step F signals d d'"
| r_step: "device_step F signals d (device_read_next F d)"
| interrupted: "signals \<Longrightarrow> wpos d \<in> {WCheck, WAsleep} \<Longrightarrow> device_step F signals d (d\<lparr>wpos := WEnter\<rparr>)"

subsection \<open>Nothing is lost without signals\<close>

definition pending :: "('f, 'e) device \<Rightarrow> 'e list" where
  "pending d = (case wpos d of WPut x \<Rightarrow> [x] | _ \<Rightarrow> [])"

context kfifo
begin

definition dev_inv :: "'e list \<Rightarrow> ('f, 'e) device \<Rightarrow> bool" where
  "dev_inv input d \<longleftrightarrow> capacity (pmtest_dev d) = KFIFO_LEN \<and> length (queue (pmtest_dev d)) \<le> KFIFO_LEN \<and>
     (wpos d = WEnter \<or> pending d \<noteq> [] \<longrightarrow> length (queue (pmtest_dev d)) < KFIFO_LEN) \<and>
     dropped d = [] \<and> delivered d @ queue (pmtest_dev d) @ pending d @ todo d = input"

lemma dev_inv_write:
  assumes "dev_inv input d" "fifo_write_next F d = Some d'"
  shows "dev_inv input d'"
  using assms
  by (cases "wpos d")
    (auto simp: dev_inv_def fifo_write_next_def pending_def avail put KFIFO_THRESHOLD_LEN_def KFIFO_LEN_def
      split: if_splits list.splits)

lemma dev_inv_read:
  assumes "dev_inv input d"
  shows "dev_inv input (device_read_next F d)"
proof (cases "rpos d")
  case RIdle
  show ?thesis
  proof (cases "queue (pmtest_dev d)")
    case Nil
    then show ?thesis
      using assms RIdle by (simp add: device_read_next_def to_user_empty dev_inv_def pending_def)
  next
    case (Cons x xs)
    then obtain f' where "kfifo_to_user F (pmtest_dev d) = Some (x, f')" "queue f' = xs" "capacity f' = capacity (pmtest_dev d)"
      using to_user by blast
    then show ?thesis
      using assms RIdle Cons by (auto simp: device_read_next_def dev_inv_def pending_def)
  qed
qed (use assms in \<open>auto simp: device_read_next_def wake_up_interruptible_def dev_inv_def pending_def\<close>)

lemma dev_inv_step: "device_step F False d d' \<Longrightarrow> dev_inv input d \<Longrightarrow> dev_inv input d'"
  by (erule device_step.cases) (auto intro: dev_inv_write dev_inv_read)

lemma dev_inv_run: "(device_step F False)\<^sup>*\<^sup>* d d' \<Longrightarrow> dev_inv input d \<Longrightarrow> dev_inv input d'"
  by (induction rule: rtranclp_induct) (auto intro: dev_inv_step)

lemma dev_inv_init: "kC_initPMTestDevice F b input = Some d \<Longrightarrow> dev_inv input d"
  using alloc [of 10] by (fastforce simp: kC_initPMTestDevice_def dev_inv_def pending_def KFIFO_LEN_def split: option.splits if_splits)

end

text \<open>C17: The kernel fifo loses nothing. With one writing thread and no signals, whatever the interleaving with the reader, no
  entry is dropped, and the entries delivered, those in the fifo and those still to be written are the recorded entries in order.\<close>

theorem fifo_no_loss:
  assumes "kfifo F queue capacity" "kC_initPMTestDevice F True input = Some d" "(device_step F False)\<^sup>*\<^sup>* d d'"
  shows "dropped d' = [] \<and> delivered d' @ queue (pmtest_dev d') @ pending d' @ todo d' = input"
  using kfifo.dev_inv_run [OF assms(1,3) kfifo.dev_inv_init [OF assms(1,2)]]
  by (simp add: kfifo.dev_inv_def [OF assms(1)])

definition fresh_device :: "'e list \<Rightarrow> (nat \<times> 'e list, 'e) device" where
  "fresh_device input = the (kC_initPMTestDevice bounded_list True input)"

lemma fresh_device: "kC_initPMTestDevice bounded_list True input = Some (fresh_device input)"
  "fresh_device input = \<lparr>pmtest_dev = (KFIFO_LEN, []), asleep = False, wpos = WEnter, todo = input, rpos = RIdle,
     delivered = [], dropped = []\<rparr>"
  by (simp_all add: fresh_device_def kC_initPMTestDevice_def bounded_list_def)

definition some_entry :: Metadata where
  "some_entry = \<lparr>addr = 0, addr_late = 0, mtype = ASSIGN, msize = 0, msize_late = 0, line_num = 0, file_name = []\<rparr>"

theorem fifo_no_loss_witness:
  "let d = fresh_device [some_entry]; d' = the (fifo_write_next bounded_list d)
   in dropped d' = [] \<and> delivered d' @ snd (pmtest_dev d') @ pending d' @ todo d' = [some_entry]"
proof -
  let ?d = "fresh_device [some_entry]"
  let ?d' = "the (fifo_write_next bounded_list ?d)"
  have "fifo_write_next bounded_list ?d = Some ?d'"
    by (simp add: fresh_device(2) fifo_write_next_def bounded_list_def KFIFO_LEN_def)
  then have "(device_step bounded_list False)\<^sup>*\<^sup>* ?d ?d'" by (intro r_into_rtranclp device_step.w_step)
  from fifo_no_loss [OF bfifo.kfifo_axioms fresh_device(1) this] show ?thesis by (simp only: Let_def simp_thms)
qed

end
