(* ===== verification/Kernel_Races.thy ===== *)
theory Kernel_Races
  imports Kernel_Fifo
begin

text \<open>
  Two runs of the kernel fifo that go wrong: a lost wake-up, because \<open>PMTestDeviceRead\<close> clears \<open>asleep\<close> only after it has
  woken the writer, and a lost entry, because \<open>PMTestFifoWrite\<close> ignores that its wait was interrupted.
\<close>

text \<open>The state of the device with a bounded list as fifo.\<close>

definition dev ::
  "'e list \<Rightarrow> bool \<Rightarrow> 'e wpos \<Rightarrow> 'e list \<Rightarrow> rpos \<Rightarrow> 'e list \<Rightarrow> (nat \<times> 'e list, 'e) device" where
  "dev q a w td r dl = \<lparr>pmtest_dev = (KFIFO_LEN, q), asleep = a, wpos = w, todo = td, rpos = r, delivered = dl, dropped = []\<rparr>"

lemmas dev_eval = dev_def fifo_write_next_def device_read_next_def wake_up_interruptible_def bounded_list_def

lemma w_run: "fifo_write_next bounded_list d = Some d' \<Longrightarrow> (device_step bounded_list sg)\<^sup>*\<^sup>* d' d'' \<Longrightarrow> (device_step bounded_list sg)\<^sup>*\<^sup>* d d''"
  by (blast intro: converse_rtranclp_into_rtranclp device_step.w_step)

lemma r_run: "device_read_next bounded_list d = d' \<Longrightarrow> (device_step bounded_list sg)\<^sup>*\<^sup>* d' d'' \<Longrightarrow> (device_step bounded_list sg)\<^sup>*\<^sup>* d d''"
  by (blast intro: converse_rtranclp_into_rtranclp device_step.r_step)

lemma write_one:
  assumes "length q < KFIFO_LEN"
  shows "(device_step bounded_list sg)\<^sup>*\<^sup>* (dev q a WEnter (x # td) r dl)
    (dev (q @ [x]) a (if length q + 1 = KFIFO_LEN then WSleep else WEnter) td r dl)"
proof -
  let ?p = "dev q a (WPut x) td r dl" and ?t = "dev (q @ [x]) a WTest td r dl"
  have "fifo_write_next bounded_list (dev q a WEnter (x # td) r dl) = Some ?p"
    "fifo_write_next bounded_list ?p = Some ?t"
    "fifo_write_next bounded_list ?t = Some (dev (q @ [x]) a (if length q + 1 = KFIFO_LEN then WSleep else WEnter) td r dl)"
    using assms by (auto simp: dev_eval)
  then show ?thesis by (meson w_run rtranclp.rtrancl_refl)
qed

lemma write_fill:
  assumes "length q + length xs = KFIFO_LEN" "xs \<noteq> []"
  shows "(device_step bounded_list sg)\<^sup>*\<^sup>* (dev q a WEnter (xs @ td) r dl) (dev (q @ xs) a WSleep td r dl)"
  using assms
proof (induction xs arbitrary: q)
  case (Cons x xs)
  show ?case
  proof (cases "xs = []")
    case True
    then show ?thesis using write_one [of q sg a x td r dl] Cons.prems(1) by simp
  next
    case False
    then have "length q + 1 < KFIFO_LEN" using Cons.prems(1) by (cases xs) simp_all
    then have "(device_step bounded_list sg)\<^sup>*\<^sup>* (dev q a WEnter (x # xs @ td) r dl) (dev (q @ [x]) a WEnter (xs @ td) r dl)"
      using write_one [of q sg a x "xs @ td" r dl] by simp
    moreover have "(device_step bounded_list sg)\<^sup>*\<^sup>* (dev (q @ [x]) a WEnter (xs @ td) r dl) (dev ((q @ [x]) @ xs) a WSleep td r dl)"
      using Cons.prems False by (intro Cons.IH) simp_all
    ultimately show ?thesis by (simp add: rtranclp_trans)
  qed
qed simp

lemma go_to_sleep:
  assumes "length q = KFIFO_LEN"
  shows "(device_step bounded_list sg)\<^sup>*\<^sup>* (dev q a WSleep td r dl) (dev q True WAsleep td r dl)"
proof -
  have "fifo_write_next bounded_list (dev q a WSleep td r dl) = Some (dev q True WCheck td r dl)"
    "fifo_write_next bounded_list (dev q True WCheck td r dl) = Some (dev q True WAsleep td r dl)"
    using assms by (auto simp: dev_eval KFIFO_LEN_def KFIFO_THRESHOLD_LEN_def)
  then show ?thesis by (meson w_run rtranclp.rtrancl_refl)
qed

text \<open>Reading \<open>ys\<close> while the threshold is not reached.\<close>

lemma read_some:
  assumes "length (ys @ q) \<le> KFIFO_LEN" "KFIFO_THRESHOLD_LEN < length q"
  shows "(device_step bounded_list sg)\<^sup>*\<^sup>* (dev (ys @ q) a w td RIdle dl) (dev q a w td RIdle (dl @ ys))"
  using assms(1)
proof (induction ys arbitrary: dl)
  case (Cons y ys)
  let ?t = "dev (ys @ q) a w td RTest (dl @ [y])"
  have "device_read_next bounded_list (dev ((y # ys) @ q) a w td RIdle dl) = ?t"
    "device_read_next bounded_list ?t = dev (ys @ q) a w td RIdle (dl @ [y])"
    using assms(2) by (auto simp: dev_eval KFIFO_THRESHOLD_LEN_def KFIFO_LEN_def)
  then show ?case using Cons.IH [of "dl @ [y]"] Cons.prems by (auto intro: r_run)
qed simp

text \<open>The entry that reaches the threshold: the writer is woken, \<open>asleep\<close> is still set.\<close>

lemma read_wake:
  assumes "length q = KFIFO_THRESHOLD_LEN"
  shows "(device_step bounded_list sg)\<^sup>*\<^sup>* (dev (y # q) True WAsleep td RIdle dl) (dev q True WEnter td RWoken (dl @ [y]))"
proof -
  let ?t = "dev q True WAsleep td RTest (dl @ [y])"
  have s: "device_read_next bounded_list (dev (y # q) True WAsleep td RIdle dl) = ?t"
    "device_read_next bounded_list ?t = dev q True WCheck td RWoken (dl @ [y])"
    "fifo_write_next bounded_list (dev q True WCheck td RWoken (dl @ [y])) = Some (dev q True WEnter td RWoken (dl @ [y]))"
    using assms by (auto simp: dev_eval KFIFO_LEN_def KFIFO_THRESHOLD_LEN_def)
  show ?thesis by (rule r_run [OF s(1) r_run [OF s(2) w_run [OF s(3) rtranclp.rtrancl_refl]]])
qed

lemma lost_wakeup_run:
  assumes "length (ys @ y # q) = KFIFO_LEN" "length q = KFIFO_THRESHOLD_LEN" "length zs = KFIFO_THRESHOLD_LEN"
  shows "(device_step bounded_list sg)\<^sup>*\<^sup>* (dev [] False WEnter ((ys @ y # q) @ zs) RIdle [])
    (dev (q @ zs) False WAsleep [] RIdle (ys @ [y]))"
proof -
  let ?R = "(device_step bounded_list sg)\<^sup>*\<^sup>*"
  have "?R (dev [] False WEnter ((ys @ y # q) @ zs) RIdle []) (dev (ys @ y # q) False WSleep zs RIdle [])"
    using write_fill [of "[]" "ys @ y # q" sg False zs RIdle "[]"] assms(1) by simp
  also have "?R \<dots> (dev (ys @ y # q) True WAsleep zs RIdle [])"
    by (rule go_to_sleep [OF assms(1)])
  also have "?R \<dots> (dev (y # q) True WAsleep zs RIdle ys)"
    using read_some [of ys "y # q" sg True WAsleep zs "[]"] assms by simp
  also have "?R \<dots> (dev q True WEnter zs RWoken (ys @ [y]))"
    by (rule read_wake [OF assms(2)])
  also have "?R \<dots> (dev (q @ zs) True WSleep [] RWoken (ys @ [y]))"
    using write_fill [of q zs sg True "[]" RWoken "ys @ [y]"] assms(2,3)
    by (cases zs) (simp_all add: KFIFO_LEN_def KFIFO_THRESHOLD_LEN_def)
  also have "?R \<dots> (dev (q @ zs) True WAsleep [] RWoken (ys @ [y]))"
    using assms(2,3) by (intro go_to_sleep) (simp add: KFIFO_LEN_def KFIFO_THRESHOLD_LEN_def)
  also have "?R \<dots> (dev (q @ zs) False WAsleep [] RIdle (ys @ [y]))"
    by (rule r_run [OF _ rtranclp.rtrancl_refl]) (simp add: dev_eval)
  finally show ?thesis .
qed

lemma asleep_forever:
  assumes "(device_step bounded_list False)\<^sup>*\<^sup>* d d'" "wpos d = WAsleep" "\<not> asleep d"
  shows "wpos d' = WAsleep \<and> \<not> asleep d'"
  using assms
proof (induction rule: rtranclp_induct)
  case (step d' d'')
  from step.hyps(2) show ?case
    using step.IH step.prems
    by cases (auto simp: fifo_write_next_def device_read_next_def split: rpos.splits option.splits)
qed simp

text \<open>C18: The kernel writer can sleep forever. When the reader has woken the writer but not yet cleared \<open>asleep\<close>, the writer
  can fill the fifo again and go back to sleep; the reader then clears the flag, and no later read wakes the writer. The
  run uses the sizes of the module, one writer and no signals.\<close>

theorem fifo_lost_wakeup:
  "\<exists>d. (device_step bounded_list False)\<^sup>*\<^sup>* (fresh_device (replicate 1536 some_entry)) d \<and>
     Collect ((device_step bounded_list False)\<^sup>*\<^sup>* d) \<subseteq> {d'. wpos d' = WAsleep}"
proof -
  let ?q = "replicate 512 some_entry" and ?ys = "replicate 511 some_entry"
  let ?d = "dev (?q @ ?q) False WAsleep [] RIdle (?ys @ [some_entry])"
  have "replicate 1536 some_entry = (?ys @ some_entry # ?q) @ ?q"
    by (simp add: replicate_append_same replicate_add [symmetric] flip: replicate_Suc)
  then have "(device_step bounded_list False)\<^sup>*\<^sup>* (fresh_device (replicate 1536 some_entry)) ?d"
    using lost_wakeup_run [of ?ys some_entry ?q ?q False] 
    by (simp add: fresh_device(2) dev_def KFIFO_LEN_def KFIFO_THRESHOLD_LEN_def)
  moreover have "wpos ?d = WAsleep" "\<not> asleep ?d" by (simp_all add: dev_def)
  then have "Collect ((device_step bounded_list False)\<^sup>*\<^sup>* ?d) \<subseteq> {d'. wpos d' = WAsleep}"
    using asleep_forever by blast
  ultimately show ?thesis by blast
qed

text \<open>A signal loses an entry. When the wait of a writer on a full fifo is interrupted, \<open>PMTestFifoWrite\<close> returns as if there
  were room, and the next entry is dropped.\<close>

theorem fifo_signal_drops_entry:
  "\<exists>d. (device_step bounded_list True)\<^sup>*\<^sup>* (fresh_device (replicate 1025 some_entry)) d \<and> dropped d = [some_entry]"
proof -
  let ?q = "replicate 1024 some_entry"
  let ?R = "(device_step bounded_list True)\<^sup>*\<^sup>*"
  let ?d = "dev ?q True WAsleep [some_entry] RIdle []"
  let ?e = "dev ?q True WEnter [some_entry] RIdle []"
  have "replicate 1025 some_entry = ?q @ [some_entry]"
    by (simp add: replicate_append_same flip: replicate_Suc)
  then have "?R (fresh_device (replicate 1025 some_entry)) (dev ?q False WSleep [some_entry] RIdle [])"
    using write_fill [of "[]" ?q True False "[some_entry]" RIdle "[]"] by (simp add: fresh_device(2) dev_def KFIFO_LEN_def)
  also have "?R \<dots> ?d" by (rule go_to_sleep) (simp add: KFIFO_LEN_def)
  also have "?R \<dots> ?e"
    using device_step.interrupted [of True ?d bounded_list] by (intro r_into_rtranclp) (simp add: dev_def)
  also have "?R \<dots> (?e\<lparr>todo := [], wpos := WTest, dropped := [some_entry]\<rparr>)"
    by (intro r_into_rtranclp device_step.w_step) (simp add: dev_eval KFIFO_LEN_def)
  finally show ?thesis by (auto intro: exI [of _ "?e\<lparr>todo := [], wpos := WTest, dropped := [some_entry]\<rparr>"])
qed

end
