(* ===== verification/Kernel_Client.thy ===== *)
theory Kernel_Client
  imports Kernel_Races
begin

text \<open>
  The user process of the kernel mode, \<open>src/src/kernel_client.cc\<close>. It reads entries from \<open>/proc/pmtest\<close>, cuts the stream
  at the delimiters and hands every piece to \<open>PMTest::execVeri\<close>. The results of the successive \<open>read\<close> calls are the input of the
  model; when they are used up the process is still waiting for data.
\<close>

text \<open>The results of \<open>read\<close>: negative, 1 when the fifo was empty, otherwise an entry.\<close>

datatype read_result = ReadError | NoData | Got Metadata

datatype tx_result = TxReturn int "Metadata FastVector" "read_result list" | TxAssert | TxWaiting nat

fun read_transaction :: "nat \<Rightarrow> read_result list \<Rightarrow> Metadata FastVector \<Rightarrow> tx_result" where
  "read_transaction sleeptime [] tx = TxWaiting sleeptime"
| "read_transaction sleeptime (ReadError # rs) tx = TxAssert"
| "read_transaction sleeptime (NoData # rs) tx =
     read_transaction (if sleeptime < 512 then sleeptime * 2 else sleeptime) rs tx"
| "read_transaction sleeptime (Got buf # rs) tx =
     (if mtype buf = TRANSACTIONDELIM then TxReturn 0 tx rs
      else if mtype buf = ENDING then TxReturn (-1) tx rs
      else read_transaction sleeptime rs (fv_push_back buf tx))"

lemma read_transaction_shorter: "read_transaction s rs tx = TxReturn flag tx' rest \<Longrightarrow> length rest < length rs"
  by (induction s rs tx rule: read_transaction.induct) (auto split: if_splits)

datatype client_end = ClientDone | ClientAssert | ClientWaiting nat

text \<open>The loop of \<open>main\<close>: the traces passed to \<open>execVeri\<close>, and how the loop ended.\<close>

function client_loop :: "read_result list \<Rightarrow> Metadata FastVector list \<times> client_end" where
  "client_loop rs =
     (case read_transaction 1 rs fv_new of
        TxAssert \<Rightarrow> ([], ClientAssert)
      | TxWaiting s \<Rightarrow> ([], ClientWaiting s)
      | TxReturn flag tx rest \<Rightarrow>
          if flag = -1 then ([], ClientDone)
          else let (txs, e) = client_loop rest in (tx # txs, e))"
  by pat_completeness auto
termination
  by (relation "measure length") (auto dest: read_transaction_shorter)

declare client_loop.simps [simp del]

subsection \<open>The stream is cut at the delimiters\<close>

definition entries :: "read_result list \<Rightarrow> Metadata list" where
  "entries rs = concat (map (\<lambda>r. case r of Got m \<Rightarrow> [m] | _ \<Rightarrow> []) rs)"

lemma entries_simps [simp]:
  "entries [] = []" "entries (ReadError # rs) = entries rs" "entries (NoData # rs) = entries rs"
  "entries (Got m # rs) = m # entries rs"
  by (simp_all add: entries_def)

definition plain_entries :: "Metadata list \<Rightarrow> bool" where
  "plain_entries es \<longleftrightarrow> (\<forall>m\<in>set es. mtype m \<noteq> TRANSACTIONDELIM \<and> mtype m \<noteq> ENDING)"

lemma read_transaction_spec:
  assumes "entries rs = es @ m # tail" "plain_entries es" "mtype m \<in> {TRANSACTIONDELIM, ENDING}" "ReadError \<notin> set rs" "fv_ok tx"
  shows "\<exists>tx' rest. read_transaction s rs tx = TxReturn (if mtype m = ENDING then -1 else 0) tx' rest \<and>
    fv_ok tx' \<and> fv_list tx' = fv_list tx @ es \<and> entries rest = tail \<and> ReadError \<notin> set rest"
  using assms
proof (induction s rs tx arbitrary: es rule: read_transaction.induct)
  case (4 s buf rs tx)
  show ?case
  proof (cases es)
    case Nil
    then show ?thesis using 4 by auto
  next
    case (Cons e es')
    then have e: "buf = e" "entries rs = es' @ m # tail" "plain_entries es'" "mtype e \<noteq> TRANSACTIONDELIM" "mtype e \<noteq> ENDING"
      using "4.prems"(1,2) by (auto simp: plain_entries_def)
    have "ReadError \<notin> set rs" "fv_ok (fv_push_back buf tx)" using "4.prems"(4,5) by (simp_all add: fv.push_ok)
    from "4.IH" [OF _ _ e(2,3) "4.prems"(3) this] e Cons "4.prems"(5) show ?thesis by (simp add: fv.push_list)
  qed
qed auto

text \<open>A transaction and its delimiter. Only the type of a delimiter or ending mark is set by the kernel module; its other fields are whatever was in memory.\<close>

fun delimited :: "Metadata list \<times> Metadata \<Rightarrow> bool" where
  "delimited (t, d) \<longleftrightarrow> plain_entries t \<and> mtype d = TRANSACTIONDELIM"

definition stream :: "(Metadata list \<times> Metadata) list \<Rightarrow> Metadata list" where
  "stream txs = concat (map (\<lambda>(t, d). t @ [d]) txs)"

text \<open>C19: The client cuts the stream correctly and drops its tail. If the entries read are transactions each followed by a
  delimiter, then more entries, an ending mark and anything after it, however many empty reads come in between, the client passes exactly the
  delimited transactions to \<open>execVeri\<close>, in order; the entries between the last delimiter and the ending mark are never checked.\<close>

theorem client_splits:
  assumes "entries rs = stream txs @ rest @ ending # tail" "list_all delimited txs" "plain_entries rest" "mtype ending = ENDING" "ReadError \<notin> set rs"
  shows "map fv_list (fst (client_loop rs)) = map fst txs \<and> snd (client_loop rs) = ClientDone"
  using assms
proof (induction txs arbitrary: rs)
  case Nil
  then have "\<exists>tx r. read_transaction 1 rs fv_new = TxReturn (-1) tx r"
    using read_transaction_spec [of rs rest ending tail fv_new 1] by (auto simp: stream_def fv.new_ok)
  then show ?case by (auto simp: client_loop.simps [of rs])
next
  case (Cons td txs)
  obtain t d where td: "td = (t, d)" by (cases td)
  let ?tail = "stream txs @ rest @ ending # tail"
  have "entries rs = t @ d # ?tail" "plain_entries t" "mtype d = TRANSACTIONDELIM" using Cons.prems(1,2) by (simp_all add: td stream_def)
  then obtain tx r where r: "read_transaction 1 rs fv_new = TxReturn 0 tx r" "fv_list tx = t" "entries r = ?tail" "ReadError \<notin> set r"
    using read_transaction_spec [of rs t d ?tail fv_new 1] Cons.prems(5) by (auto simp: fv.new_ok fv.new_list)
  from Cons.IH [OF r(3)] Cons.prems(2-4) r(4)
  have "map fv_list (fst (client_loop r)) = map fst txs" "snd (client_loop r) = ClientDone" by simp_all
  with r(1,2) show ?case by (simp add: client_loop.simps [of rs] split_beta td)
qed

theorem client_splits_witness:
  "let d = some_entry\<lparr>mtype := TRANSACTIONDELIM, addr := 7\<rparr>; e = some_entry\<lparr>mtype := ENDING, line_num := 3\<rparr>;
       rs = [Got some_entry, NoData, Got d, Got some_entry, Got e]
   in map fv_list (fst (client_loop rs)) = [[some_entry]] \<and> snd (client_loop rs) = ClientDone"
proof -
  let ?d = "some_entry\<lparr>mtype := TRANSACTIONDELIM, addr := 7\<rparr>" and ?e = "some_entry\<lparr>mtype := ENDING, line_num := 3\<rparr>"
  let ?rs = "[Got some_entry, NoData, Got ?d, Got some_entry, Got ?e]"
  have "entries ?rs = stream [([some_entry], ?d)] @ [some_entry] @ ?e # []" "list_all delimited [([some_entry], ?d)]"
    "plain_entries [some_entry]" "mtype ?e = ENDING" "ReadError \<notin> set ?rs"
    by (simp_all add: plain_entries_def stream_def some_entry_def)
  from client_splits [OF this] show ?thesis by (simp add: Let_def)
qed

end
