(* ===== verification/Pmem.thy ===== *)
theory Pmem
  imports Prelude
begin

text \<open>
  Persistent memory as the libraries under \<open>src/nvml\<close> use it. Stores go to the cache and may reach the memory at any time;
  \<open>pop->flush\<close> starts the write-back of a range, \<open>pop->drain\<close> waits for the write-backs started before, and \<open>pop->persist\<close> is a
  flush followed by a drain. A state keeps, for every location, the values that may be found there after a
  power failure. This is the model that the checker of \<open>Persistency\<close> is about, with values instead of epochs. A location is a unit
  that is written atomically (an aligned 8-byte word).
\<close>

datatype ('l, 'v) ev = Store 'l 'v | Flush "'l list" | Drain

record ('l, 'v) pm =
  cache :: "'l \<Rightarrow> 'v"
  durable :: "'l \<Rightarrow> 'v set"
  pending :: "'l \<Rightarrow> 'v set option"

definition boot :: "('l \<Rightarrow> 'v) \<Rightarrow> ('l, 'v) pm" where
  "boot m = \<lparr>cache = m, durable = (\<lambda>l. {m l}), pending = (\<lambda>_. None)\<rparr>"

fun pm_step :: "('l, 'v) ev \<Rightarrow> ('l, 'v) pm \<Rightarrow> ('l, 'v) pm" where
  "pm_step (Store l v) s = s\<lparr>cache := (cache s)(l := v), durable := (durable s)(l := insert v (durable s l)),
     pending := (pending s)(l := map_option (insert v) (pending s l))\<rparr>"
| "pm_step (Flush ls) s = s\<lparr>pending := (\<lambda>l. if l \<in> set ls then Some {cache s l} else pending s l)\<rparr>"
| "pm_step Drain s = s\<lparr>durable := (\<lambda>l. case pending s l of None \<Rightarrow> durable s l | Some S \<Rightarrow> S), pending := (\<lambda>_. None)\<rparr>"

definition run :: "('l, 'v) ev list \<Rightarrow> ('l, 'v) pm \<Rightarrow> ('l, 'v) pm" where
  "run evs s = fold pm_step evs s"

definition persist :: "'l list \<Rightarrow> ('l, 'v) ev list" where
  "persist ls = [Flush ls, Drain]"

text \<open>The memories that a power failure in a state may leave behind.\<close>

definition crash :: "('l, 'v) pm \<Rightarrow> ('l \<Rightarrow> 'v) set" where
  "crash s = {m. \<forall>l. m l \<in> durable s l}"

lemma run_simps [simp]:
  "run [] s = s" "run (e # evs) s = run evs (pm_step e s)" "run (evs @ evs') s = run evs' (run evs s)"
  by (simp_all add: run_def)

subsection \<open>Invariants\<close>

definition pm_ok :: "('l, 'v) pm \<Rightarrow> bool" where
  "pm_ok s \<longleftrightarrow> (\<forall>l. cache s l \<in> durable s l \<and> (\<forall>S. pending s l = Some S \<longrightarrow> cache s l \<in> S \<and> S \<subseteq> durable s l))"

lemma pm_ok_boot [simp]: "pm_ok (boot m)"
  by (simp add: pm_ok_def boot_def)

lemma boot_simps [simp]: "cache (boot m) = m" "durable (boot m) l = {m l}"
  by (simp_all add: boot_def)

lemma pm_ok_step: "pm_ok s \<Longrightarrow> pm_ok (pm_step e s)"
proof (cases e)
  case (Store l v)
  assume ok: "pm_ok s"
  show ?thesis unfolding pm_ok_def
  proof
    fix l'
    show "cache (pm_step e s) l' \<in> durable (pm_step e s) l' \<and>
      (\<forall>S. pending (pm_step e s) l' = Some S \<longrightarrow> cache (pm_step e s) l' \<in> S \<and> S \<subseteq> durable (pm_step e s) l')"
      using ok [unfolded pm_ok_def, rule_format, of l'] Store by (cases "l' = l") auto
  qed
qed (auto simp: pm_ok_def split: option.splits)

lemma pm_ok_run: "pm_ok s \<Longrightarrow> pm_ok (run evs s)"
  by (induction evs arbitrary: s) (simp_all add: pm_ok_step)

lemma durable_after_step:
  assumes "pm_ok s"
  shows "durable (pm_step e s) l \<subseteq> (case e of Store l' v \<Rightarrow> if l' = l then insert v (durable s l) else durable s l | _ \<Rightarrow> durable s l)"
  using assms by (cases e) (auto simp: pm_ok_def split: option.splits)

text \<open>A location that is not stored to keeps its value, and nothing new can become durable there.\<close>

definition stored :: "('l, 'v) ev list \<Rightarrow> 'l set" where
  "stored evs = {l. \<exists>v. Store l v \<in> set evs}"

lemma stored_simps [simp]:
  "stored [] = {}" "stored (Store l v # evs) = insert l (stored evs)" "stored (Flush ls # evs) = stored evs"
  "stored (Drain # evs) = stored evs" "stored (evs @ evs') = stored evs \<union> stored evs'" "stored (persist ls) = {}"
  by (auto simp: stored_def persist_def)

lemma run_untouched:
  assumes "l \<notin> stored evs" "pm_ok s"
  shows "cache (run evs s) l = cache s l \<and> durable (run evs s) l \<subseteq> durable s l"
  using assms
proof (induction evs arbitrary: s)
  case (Cons e evs)
  have "cache (pm_step e s) l = cache s l" "durable (pm_step e s) l \<subseteq> durable s l"
    using Cons.prems durable_after_step [OF Cons.prems(2), of e l] by (cases e; auto)+
  moreover have "l \<notin> stored evs" using Cons.prems(1) by (cases e) auto
  ultimately show ?case using Cons.IH [of "pm_step e s"] pm_ok_step [OF Cons.prems(2), of e] by auto
qed simp

lemma durable_singleton: "pm_ok s \<Longrightarrow> durable s l \<subseteq> {v} \<Longrightarrow> durable s l = {v} \<and> cache s l = v"
  unfolding pm_ok_def by blast

lemma pm_run_persist:
  assumes "l \<in> set ls"
  shows "durable (run (persist ls) s) l = {cache s l}"
  using assms by (simp add: persist_def)

lemma cache_persist [simp]: "cache (run (persist ls) s) = cache s"
  by (simp add: persist_def)

text \<open>A property of all states of a run.\<close>

lemma run_prefix_invariant:
  assumes "I s" "\<And>e s. e \<in> set evs \<Longrightarrow> I s \<Longrightarrow> I (pm_step e s)"
  shows "I (run (take k evs) s)"
  using assms
proof (induction evs arbitrary: s k)
  case (Cons e evs)
  show ?case
  proof (cases k)
    case (Suc j)
    have "I (run (take j evs) (pm_step e s))" by (rule Cons.IH) (use Cons.prems in auto)
    with Suc show ?thesis by simp
  qed (simp add: Cons.prems(1))
qed simp

lemma run_take_append:
  "run (take k (evs @ evs')) s = (if k < length evs then run (take k evs) s else run (take (k - length evs) evs') (run evs s))"
  by simp

lemma run_one_value:
  assumes "pm_ok s" "\<And>v'. Store l v' \<in> set evs \<Longrightarrow> v' = v"
  shows "durable (run (take k evs) s) l \<subseteq> insert v (durable s l)"
proof -
  have "pm_ok (run (take k evs) s) \<and> durable (run (take k evs) s) l \<subseteq> insert v (durable s l)"
  proof (rule run_prefix_invariant)
    fix e t assume e: "e \<in> set evs" and t: "pm_ok t \<and> durable t l \<subseteq> insert v (durable s l)"
    have "durable (pm_step e t) l \<subseteq> insert v (durable t l)"
      using durable_after_step [of t e l] t e assms(2) by (cases e) (auto split: if_splits)
    then show "pm_ok (pm_step e t) \<and> durable (pm_step e t) l \<subseteq> insert v (durable s l)" using t pm_ok_step by blast
  qed (use assms(1) in auto)
  then show ?thesis by simp
qed

end
