(* ===== verification/Redo_Log.thy ===== *)
theory Redo_Log
  imports Pmem
begin

text \<open>
  The redo log of libpmemobj, \<open>src/nvml/src/libpmemobj/redo.c\<close>. The log is an array of (offset, value) pairs; the lowest bit of an
  offset marks the last entry. Each function of the file is the list of its memory operations, as a function of the memory
  where it reads. The log and the words it updates are different locations: an entry never targets its own log.
  Reading past the end of the log is \<open>None\<close>. The \<open>ASSERT\<close>s are active in debug builds only and appear as
  hypotheses; the tracing macros (\<open>PMTest_exclude\<close>, \<open>PMTest_include\<close>, the trace of \<open>PM_EQU\<close>) do not change memory.
\<close>

definition REDO_FINISH_FLAG :: u64 where
  "REDO_FINISH_FLAG = 1"

definition REDO_FLAG_MASK :: u64 where
  "REDO_FLAG_MASK = NOT REDO_FINISH_FLAG"

definition LANE_SECTION_LEN :: nat where
  "LANE_SECTION_LEN = 1024"

definition REDO_NUM_ENTRIES :: nat where
  "REDO_NUM_ENTRIES = (LANE_SECTION_LEN - 2 * 8) div 16"

datatype redo_log = LogOff nat | LogVal nat | Data u64

type_synonym redo_mem = "redo_log \<Rightarrow> u64"

definition finish_flag :: "u64 \<Rightarrow> bool" where
  "finish_flag off \<longleftrightarrow> off AND REDO_FINISH_FLAG \<noteq> 0"

subsection \<open>Valid offsets\<close>

record PMEMobjpool =
  heap_offset :: u64
  heap_size :: u64
  lanes_offset :: u64
  nlanes :: u64
  root_offset_off :: u64

definition sizeof_lane_layout :: u64 where
  "sizeof_lane_layout = 3 * 1024"

definition redo_log_check_offset :: "PMEMobjpool \<Rightarrow> u64 \<Rightarrow> bool" where
  "redo_log_check_offset pop off \<longleftrightarrow>
     (heap_offset pop \<le> off \<and> off < heap_offset pop + heap_size pop \<or> root_offset_off pop = off) \<or>
     lanes_offset pop \<le> off \<and> off < lanes_offset pop + nlanes pop * sizeof_lane_layout"

subsection \<open>Operations\<close>

definition redo_log_nflags :: "redo_mem \<Rightarrow> nat \<Rightarrow> nat" where
  "redo_log_nflags m nentries = fold (\<lambda>i ret. if finish_flag (m (LogOff i)) then ret + 1 else ret) [0 ..< nentries] 0"

definition redo_log_store :: "nat \<Rightarrow> u64 \<Rightarrow> u64 \<Rightarrow> (redo_log, u64) ev list" where
  "redo_log_store idx off val = [Store (LogOff idx) off, Store (LogVal idx) val]"

definition log_prefix :: "nat \<Rightarrow> redo_log list" where
  "log_prefix n = concat (map (\<lambda>i. [LogOff i, LogVal i]) [0 ..< n])"

definition redo_log_store_last :: "nat \<Rightarrow> u64 \<Rightarrow> u64 \<Rightarrow> (redo_log, u64) ev list" where
  "redo_log_store_last idx off val =
     [Store (LogVal idx) val] @ persist (log_prefix (idx + 1)) @
     [Store (LogOff idx) (off OR REDO_FINISH_FLAG)] @ persist [LogOff idx]"

definition redo_log_set_last :: "redo_mem \<Rightarrow> nat \<Rightarrow> (redo_log, u64) ev list" where
  "redo_log_set_last m idx =
     persist (log_prefix (idx + 1)) @ [Store (LogOff idx) (m (LogOff idx) OR REDO_FINISH_FLAG)] @ persist [LogOff idx]"

fun process_loop :: "redo_mem \<Rightarrow> nat \<Rightarrow> nat \<Rightarrow> (redo_log, u64) ev list option" where
  "process_loop m 0 i = None"
| "process_loop m (Suc k) i =
     (if \<not> finish_flag (m (LogOff i))
      then map_option (\<lambda>evs. [Store (Data (m (LogOff i))) (m (LogVal i)), Flush [Data (m (LogOff i))]] @ evs)
             (process_loop m k (Suc i))
      else let off = m (LogOff i) AND REDO_FLAG_MASK
           in Some ([Store (Data off) (m (LogVal i))] @ persist [Data off] @ [Store (LogOff i) 0] @ persist [LogOff i]))"

definition redo_log_process :: "redo_mem \<Rightarrow> nat \<Rightarrow> (redo_log, u64) ev list option" where
  "redo_log_process m nentries = process_loop m nentries 0"

definition redo_log_recover :: "redo_mem \<Rightarrow> nat \<Rightarrow> (redo_log, u64) ev list option" where
  "redo_log_recover m nentries =
     (if redo_log_nflags m nentries = 1 then redo_log_process m nentries else Some [])"

fun check_loop :: "PMEMobjpool \<Rightarrow> redo_mem \<Rightarrow> nat \<Rightarrow> nat \<Rightarrow> int option" where
  "check_loop pop m 0 i = None"
| "check_loop pop m (Suc k) i =
     (if \<not> finish_flag (m (LogOff i))
      then if \<not> redo_log_check_offset pop (m (LogOff i)) then Some (-1) else check_loop pop m k (Suc i)
      else if \<not> redo_log_check_offset pop (m (LogOff i) AND REDO_FLAG_MASK) then Some (-1) else Some 0)"

definition redo_log_check :: "PMEMobjpool \<Rightarrow> redo_mem \<Rightarrow> nat \<Rightarrow> int option" where
  "redo_log_check pop m nentries =
     (let nflags = redo_log_nflags m nentries
      in if nflags > 1 then Some (-1) else if nflags = 1 then check_loop pop m nentries 0 else Some 0)"

subsection \<open>Flags\<close>

lemma finish_flag_bit: "finish_flag off = bit off 0"
  by (simp add: finish_flag_def REDO_FINISH_FLAG_def and_one_eq odd_iff_mod_2_eq_one bit_0 flip: odd_iff_mod_2_eq_one)

lemma flag_simps [simp]:
  "finish_flag (off OR REDO_FINISH_FLAG)" "\<not> finish_flag 0"
  "\<not> finish_flag off \<Longrightarrow> (off OR REDO_FINISH_FLAG) AND REDO_FLAG_MASK = off"
proof -
  show "finish_flag (off OR REDO_FINISH_FLAG)" "\<not> finish_flag 0"
    by (simp_all add: finish_flag_bit bit_or_iff REDO_FINISH_FLAG_def)
  assume "\<not> finish_flag off"
  then have "\<not> bit off 0" by (simp add: finish_flag_bit)
  then show "(off OR REDO_FINISH_FLAG) AND REDO_FLAG_MASK = off"
    by (intro bit_eqI) (auto simp: REDO_FINISH_FLAG_def REDO_FLAG_MASK_def bit_simps bit_1_iff intro!: gr0I)
qed

lemma nflags_filter: "redo_log_nflags m n = length (filter (\<lambda>i. finish_flag (m (LogOff i))) [0 ..< n])"
proof -
  have "fold (\<lambda>i ret. if finish_flag (m (LogOff i)) then ret + 1 else ret) xs r =
      r + length (filter (\<lambda>i. finish_flag (m (LogOff i))) xs)" for xs and r :: nat
    by (induction xs arbitrary: r) auto
  then show ?thesis by (simp add: redo_log_nflags_def)
qed

end
