(* ===== verification/Redo_Props.thy ===== *)
theory Redo_Props
  imports Redo_Log
begin

text \<open>
  Crash consistency of the redo log. A log that carries its finish flag is \<open>committed\<close>, one without any flag is \<open>clean\<close>. The lemmas
  follow an update through its phases (writing entries, setting the flag, processing, clearing the flag) and classify every memory
  that a power failure can leave behind; recovery turns each of them into the old or the new data.
\<close>

type_synonym update = "u64 \<times> u64"

definition commit :: "update list \<Rightarrow> redo_mem \<Rightarrow> redo_mem" where
  "commit es m = fold (\<lambda>(off, val) m. m(Data off := val)) es m"

definition clean :: "nat \<Rightarrow> redo_mem \<Rightarrow> bool" where
  "clean N m \<longleftrightarrow> (\<forall>i<N. \<not> finish_flag (m (LogOff i)))"

definition ok_updates :: "nat \<Rightarrow> update list \<Rightarrow> bool" where
  "ok_updates N es \<longleftrightarrow> es \<noteq> [] \<and> length es \<le> N \<and> (\<forall>e\<in>set es. \<not> finish_flag (fst e))"

definition log_off :: "update list \<Rightarrow> nat \<Rightarrow> u64" where
  "log_off es i = (if Suc i = length es then fst (es ! i) OR REDO_FINISH_FLAG else fst (es ! i))"

definition committed :: "nat \<Rightarrow> update list \<Rightarrow> redo_mem \<Rightarrow> redo_mem \<Rightarrow> bool" where
  "committed N es m0 m \<longleftrightarrow>
     (\<forall>i<length es. m (LogOff i) = log_off es i \<and> m (LogVal i) = snd (es ! i)) \<and>
     (\<forall>i. length es \<le> i \<and> i < N \<longrightarrow> \<not> finish_flag (m (LogOff i))) \<and>
     (\<forall>off. off \<notin> fst ` set es \<longrightarrow> m (Data off) = m0 (Data off))"

text \<open>What recovery makes of a memory.\<close>

definition recovered :: "nat \<Rightarrow> redo_mem \<Rightarrow> redo_mem option" where
  "recovered N m = map_option (\<lambda>evs. cache (run evs (boot m))) (redo_log_recover m N)"

subsection \<open>Committing\<close>

lemma commit_simps [simp]:
  "commit [] m = m" "commit ((off, val) # es) m = commit es (m(Data off := val))"
  "commit (es @ es') m = commit es' (commit es m)" "commit es m (LogOff i) = m (LogOff i)" "commit es m (LogVal i) = m (LogVal i)"
  by (simp_all add: commit_def) (induction es arbitrary: m; auto)+

lemma commit_agree:
  assumes "off \<in> fst ` set es \<or> m (Data off) = m' (Data off)"
  shows "commit es m (Data off) = commit es m' (Data off)"
  using assms
proof (induction es arbitrary: m m')
  case (Cons e es)
  obtain a v where e: "e = (a, v)" by fastforce
  show ?case unfolding e commit_simps by (rule Cons.IH) (use Cons.prems e in auto)
qed simp

lemma commit_other: "off \<notin> fst ` set es \<Longrightarrow> commit es m (Data off) = m (Data off)"
proof (induction es arbitrary: m)
  case (Cons e es)
  then show ?case by (cases e) simp
qed simp

subsection \<open>Processing a committed log\<close>

definition data_evs :: "update list \<Rightarrow> (redo_log, u64) ev list" where
  "data_evs es = concat (map (\<lambda>(off, val). [Store (Data off) val, Flush [Data off]]) es)"

definition clear_evs :: "nat \<Rightarrow> (redo_log, u64) ev list" where
  "clear_evs i = [Store (LogOff i) 0] @ persist [LogOff i]"

definition process_evs :: "update list \<Rightarrow> (redo_log, u64) ev list" where
  "process_evs es = data_evs es @ [Drain] @ clear_evs (length es - 1)"

lemma process_loop_evs:
  assumes "\<forall>i<length es. m (LogOff i) = log_off es i \<and> m (LogVal i) = snd (es ! i)" "\<forall>e\<in>set es. \<not> finish_flag (fst e)"
    "i < length es" "length es - i \<le> k"
  shows "process_loop m k i = Some (data_evs (drop i es) @ [Drain] @ clear_evs (length es - 1))"
  using assms(3,4)
proof (induction k arbitrary: i)
  case (Suc k)
  obtain off val where e: "es ! i = (off, val)" by fastforce
  have d: "drop i es = (off, val) # drop (Suc i) es" using Suc.prems(1) e by (metis Cons_nth_drop_Suc)
  have "\<not> finish_flag off" using assms(2) Suc.prems(1) e by (metis fst_conv nth_mem)
  then show ?case
    using Suc assms(1) e d
    by (cases "Suc i = length es") (simp_all add: log_off_def data_evs_def clear_evs_def persist_def)
qed simp

lemma filter_upt_eq: "n < N \<Longrightarrow> filter (\<lambda>i. i = n) [0 ..< N] = [n]"
  by (induction N) (auto simp: less_Suc_eq filter_empty_conv)

lemma nflags_committed:
  assumes "committed N es m0 m" "ok_updates N es"
  shows "redo_log_nflags m N = 1"
proof -
  let ?n = "length es - 1"
  have n: "?n < N" "?n < length es" using assms(2) by (auto simp: ok_updates_def Suc_le_eq intro: less_le_trans)
  have "finish_flag (m (LogOff i)) \<longleftrightarrow> i = ?n" if "i < N" for i
  proof (cases "i < length es")
    case True
    then show ?thesis using assms nth_mem [OF True] by (auto simp: committed_def ok_updates_def log_off_def)
  next
    case False
    then show ?thesis using assms(1) that n(2) by (auto simp: committed_def)
  qed
  then have "filter (\<lambda>i. finish_flag (m (LogOff i))) [0 ..< N] = filter (\<lambda>i. i = ?n) [0 ..< N]"
    by (intro filter_cong) auto
  also have "\<dots> = [?n]" using n(1) by (rule filter_upt_eq)
  finally show ?thesis by (simp add: nflags_filter)
qed

lemma cache_data_evs: "cache (run (data_evs es) s) = commit es (cache s)"
proof (induction es arbitrary: s)
  case (Cons e es)
  show ?case
  proof (cases e)
    case (Pair off val)
    then have "run (data_evs (e # es)) s = run (data_evs es) (pm_step (Flush [Data off]) (pm_step (Store (Data off) val) s))"
      by (simp add: data_evs_def)
    with Pair show ?thesis by (simp add: Cons.IH flip: fun_upd_def)
  qed
qed (simp add: data_evs_def)

lemma recover_clean:
  assumes "clean N m"
  shows "recovered N m = Some m"
proof -
  have "redo_log_nflags m N = 0" using assms by (simp add: nflags_filter clean_def filter_empty_conv)
  then show ?thesis by (simp add: recovered_def redo_log_recover_def)
qed

lemma recover_committed:
  assumes "committed N es m0 m" "ok_updates N es"
  shows "redo_log_recover m N = Some (process_evs es)"
    and "\<exists>m'. recovered N m = Some m' \<and> clean N m' \<and> (\<forall>off. m' (Data off) = commit es m0 (Data off))"
proof -
  have es: "es \<noteq> []" "length es \<le> N" "\<forall>e\<in>set es. \<not> finish_flag (fst e)" using assms(2) by (simp_all add: ok_updates_def)
  have "process_loop m N 0 = Some (process_evs es)"
    using process_loop_evs [of es m 0 N] assms(1) es by (simp add: committed_def process_evs_def)
  then show r: "redo_log_recover m N = Some (process_evs es)"
    using nflags_committed [OF assms] by (simp add: redo_log_recover_def redo_log_process_def)
  let ?m' = "cache (run (process_evs es) (boot m))"
  have m': "?m' = (commit es m)(LogOff (length es - 1) := 0)"
    by (simp add: process_evs_def clear_evs_def persist_def cache_data_evs)
  have "clean N ?m'"
    unfolding clean_def
  proof (intro allI impI)
    fix i assume "i < N"
    show "\<not> finish_flag (?m' (LogOff i))"
    proof (cases "i < length es")
      case True
      then show ?thesis using assms(1) es(3) nth_mem [OF True] by (auto simp: m' committed_def log_off_def)
    next
      case False
      then show ?thesis using assms(1) \<open>i < N\<close> es(1) by (auto simp: m' committed_def)
    qed
  qed
  moreover have "?m' (Data off) = commit es m0 (Data off)" for off
    using commit_agree [of off es m m0] assms(1) by (auto simp: m' committed_def)
  ultimately show "\<exists>m'. recovered N m = Some m' \<and> clean N m' \<and> (\<forall>off. m' (Data off) = commit es m0 (Data off))"
    using r by (simp add: recovered_def)
qed

subsection \<open>Crashes while a committed log is processed\<close>

definition log_fixed :: "nat \<Rightarrow> update list \<Rightarrow> (redo_log, u64) pm \<Rightarrow> bool" where
  "log_fixed N es s \<longleftrightarrow> pm_ok s \<and>
     (\<forall>i<length es. (Suc i \<noteq> length es \<longrightarrow> durable s (LogOff i) \<subseteq> {fst (es ! i)}) \<and> durable s (LogVal i) \<subseteq> {snd (es ! i)}) \<and>
     (\<forall>i. length es \<le> i \<and> i < N \<longrightarrow> durable s (LogOff i) \<subseteq> {v. \<not> finish_flag v})"

text \<open>The three situations of an update with a complete log: not yet flagged for sure, flagged, possibly cleared.\<close>

definition deciding :: "nat \<Rightarrow> update list \<Rightarrow> redo_mem \<Rightarrow> (redo_log, u64) pm \<Rightarrow> bool" where
  "deciding N es m0 s \<longleftrightarrow> log_fixed N es s \<and>
     durable s (LogOff (length es - 1)) \<subseteq> insert (fst (last es) OR REDO_FINISH_FLAG) {v. \<not> finish_flag v} \<and>
     (\<forall>off. durable s (Data off) \<subseteq> {m0 (Data off)})"

definition processing :: "nat \<Rightarrow> update list \<Rightarrow> redo_mem \<Rightarrow> (redo_log, u64) pm \<Rightarrow> bool" where
  "processing N es m0 s \<longleftrightarrow> log_fixed N es s \<and>
     durable s (LogOff (length es - 1)) \<subseteq> {fst (last es) OR REDO_FINISH_FLAG} \<and>
     (\<forall>off. off \<notin> fst ` set es \<longrightarrow> durable s (Data off) \<subseteq> {m0 (Data off)})"

definition clearing :: "nat \<Rightarrow> update list \<Rightarrow> redo_mem \<Rightarrow> (redo_log, u64) pm \<Rightarrow> bool" where
  "clearing N es m0 s \<longleftrightarrow> log_fixed N es s \<and>
     durable s (LogOff (length es - 1)) \<subseteq> {fst (last es) OR REDO_FINISH_FLAG, 0} \<and>
     (\<forall>off. durable s (Data off) \<subseteq> {commit es m0 (Data off)})"

definition old_data :: "nat \<Rightarrow> redo_mem \<Rightarrow> redo_mem \<Rightarrow> bool" where
  "old_data N m0 m \<longleftrightarrow> clean N m \<and> (\<forall>off. m (Data off) = m0 (Data off))"

lemma crash_in: "m \<in> crash s \<Longrightarrow> durable s l \<subseteq> S \<Longrightarrow> m l \<in> S"
  by (auto simp: crash_def)

lemma crash_log_fixed:
  assumes "log_fixed N es s" "m \<in> crash s"
  shows "\<forall>i<length es. (Suc i \<noteq> length es \<longrightarrow> m (LogOff i) = fst (es ! i)) \<and> m (LogVal i) = snd (es ! i)"
    "\<forall>i. length es \<le> i \<and> i < N \<longrightarrow> \<not> finish_flag (m (LogOff i))"
  using assms(1) crash_in [OF assms(2)] unfolding log_fixed_def by blast+

lemma crash_flagged:
  assumes "log_fixed N es s" "m \<in> crash s" "es \<noteq> []" "m (LogOff (length es - 1)) = fst (last es) OR REDO_FINISH_FLAG"
    "\<forall>off. off \<notin> fst ` set es \<longrightarrow> m (Data off) = m0 (Data off)"
  shows "committed N es m0 m"
proof -
  have "m (LogOff i) = log_off es i" if "i < length es" for i
  proof (cases "Suc i = length es")
    case True
    then have "i = length es - 1" by simp
    with assms(3,4) True show ?thesis by (simp add: log_off_def last_conv_nth)
  next
    case False
    then show ?thesis using crash_log_fixed(1) [OF assms(1,2)] that by (simp add: log_off_def)
  qed
  then show ?thesis using crash_log_fixed [OF assms(1,2)] assms(5) by (simp add: committed_def)
qed

lemma crash_unflagged:
  assumes "log_fixed N es s" "m \<in> crash s" "ok_updates N es" "\<not> finish_flag (m (LogOff (length es - 1)))"
  shows "clean N m"
  unfolding clean_def
proof (intro allI impI)
  fix i assume "i < N"
  consider "Suc i = length es" | "i < length es" "Suc i \<noteq> length es" | "length es \<le> i" by linarith
  then show "\<not> finish_flag (m (LogOff i))"
  proof cases
    case 1
    then have "i = length es - 1" by simp
    with assms(4) show ?thesis by simp
  next
    case 2
    then show ?thesis using crash_log_fixed(1) [OF assms(1,2)] assms(3) nth_mem [OF 2(1)] by (simp add: ok_updates_def)
  next
    case 3
    then show ?thesis using crash_log_fixed(2) [OF assms(1,2)] \<open>i < N\<close> by simp
  qed
qed

lemma crash_phases:
  assumes "ok_updates N es" "m \<in> crash s"
  shows "deciding N es m0 s \<Longrightarrow> old_data N m0 m \<or> committed N es m0 m"
    and "processing N es m0 s \<Longrightarrow> committed N es m0 m"
    and "clearing N es m0 s \<Longrightarrow> committed N es m0 m \<or> old_data N (commit es m0) m"
proof -
  have es: "es \<noteq> []" "\<not> finish_flag (fst (last es))" using assms(1) last_in_set by (auto simp: ok_updates_def)
  note fl = crash_flagged [OF _ assms(2) es(1)] and un = crash_unflagged [OF _ assms(2,1)] and ci = crash_in [OF assms(2)]
  show "old_data N m0 m \<or> committed N es m0 m" if d: "deciding N es m0 s"
  proof -
    have *: "log_fixed N es s" "m (LogOff (length es - 1)) \<in> insert (fst (last es) OR REDO_FINISH_FLAG) {v. \<not> finish_flag v}"
      "\<forall>off. m (Data off) = m0 (Data off)"
      using d ci unfolding deciding_def by blast+
    then show ?thesis using fl [OF *(1)] un [OF *(1)] es(2) by (auto simp: old_data_def)
  qed
  show "committed N es m0 m" if d: "processing N es m0 s"
  proof -
    have *: "log_fixed N es s" "m (LogOff (length es - 1)) = fst (last es) OR REDO_FINISH_FLAG"
      "\<forall>off. off \<notin> fst ` set es \<longrightarrow> m (Data off) = m0 (Data off)"
      using d ci unfolding processing_def by blast+
    then show ?thesis by (rule fl)
  qed
  show "committed N es m0 m \<or> old_data N (commit es m0) m" if d: "clearing N es m0 s"
  proof -
    have *: "log_fixed N es s" "m (LogOff (length es - 1)) \<in> {fst (last es) OR REDO_FINISH_FLAG, 0}"
      "\<forall>off. m (Data off) = commit es m0 (Data off)"
      using d ci unfolding clearing_def by blast+
    then show ?thesis using fl [OF *(1)] un [OF *(1)] commit_other by (auto simp: old_data_def)
  qed
qed

subsection \<open>The phases of an update\<close>

lemma durable_kept:
  assumes "pm_ok s" "\<And>v. e \<noteq> Store l v"
  shows "durable (pm_step e s) l \<subseteq> durable s l"
  using durable_after_step [OF assms(1), of e l] assms(2) by (cases e) auto

lemma log_fixed_step:
  assumes "log_fixed N es s" "\<And>i v. e = Store (LogOff i) v \<Longrightarrow> Suc i = length es" "\<And>i v. e \<noteq> Store (LogVal i) v"
  shows "log_fixed N es (pm_step e s)"
proof -
  have ok: "pm_ok s" using assms(1) by (simp add: log_fixed_def)
  have "durable (pm_step e s) (LogVal i) \<subseteq> durable s (LogVal i)" for i
    using durable_kept [OF ok] assms(3) by blast
  moreover have "durable (pm_step e s) (LogOff i) \<subseteq> durable s (LogOff i)" if "Suc i \<noteq> length es" for i
    using durable_kept [OF ok, of e "LogOff i"] assms(2) that by blast
  moreover have "Suc i \<noteq> length es" if "length es \<le> i" for i using that by simp
  ultimately show ?thesis
    using assms(1) pm_ok_step [OF ok, of e] unfolding log_fixed_def by (meson order_trans)
qed

lemma deciding_step:
  assumes "deciding N es m0 s" "\<And>l v. e \<noteq> Store l v"
  shows "deciding N es m0 (pm_step e s)"
proof -
  have *: "log_fixed N es s" "pm_ok s" using assms(1) by (simp_all add: deciding_def log_fixed_def)
  show ?thesis
    using assms log_fixed_step [OF *(1)] durable_kept [OF *(2) assms(2)] unfolding deciding_def by (meson order_trans)
qed

lemma processing_step:
  assumes "processing N es m0 s" "\<And>l v. e = Store l v \<Longrightarrow> l \<in> Data ` fst ` set es"
  shows "processing N es m0 (pm_step e s)"
proof -
  have *: "log_fixed N es s" "pm_ok s" using assms(1) by (simp_all add: processing_def log_fixed_def)
  have "durable (pm_step e s) (Data off) \<subseteq> durable s (Data off)" if "off \<notin> fst ` set es" for off
    using durable_kept [OF *(2), of e "Data off"] assms(2) that by blast
  moreover have "durable (pm_step e s) (LogOff i) \<subseteq> durable s (LogOff i)" for i
    using durable_kept [OF *(2), of e "LogOff i"] assms(2) by blast
  moreover have "log_fixed N es (pm_step e s)" using log_fixed_step [OF *(1), of e] assms(2) by blast
  ultimately show ?thesis using assms(1) unfolding processing_def by (meson order_trans)
qed

lemma clearing_step:
  assumes "clearing N es m0 s" "es \<noteq> []" "\<And>l v. e = Store l v \<Longrightarrow> l = LogOff (length es - 1) \<and> v = 0"
  shows "clearing N es m0 (pm_step e s)"
proof -
  have *: "log_fixed N es s" "pm_ok s" using assms(1) by (simp_all add: clearing_def log_fixed_def)
  have "durable (pm_step e s) (Data off) \<subseteq> durable s (Data off)" for off
    using durable_kept [OF *(2), of e "Data off"] assms(3) by blast
  moreover have "durable (pm_step e s) (LogOff (length es - 1)) \<subseteq> insert 0 (durable s (LogOff (length es - 1)))"
    using durable_after_step [OF *(2), of e "LogOff (length es - 1)"] assms(3) by (cases e) auto
  moreover have "log_fixed N es (pm_step e s)"
    using log_fixed_step [OF *(1), of e] assms(2,3) by (metis One_nat_def Suc_pred length_greater_0_conv redo_log.distinct(1) redo_log.inject(1))
  ultimately show ?thesis using assms(1) unfolding clearing_def by blast
qed

lemma data_evs_store: "Store l v \<in> set (data_evs es) \<Longrightarrow> l \<in> Data ` fst ` set es"
  by (force simp: data_evs_def)

lemma data_evs_pending:
  "off \<in> fst ` set es \<Longrightarrow> pending (run (data_evs es) s) (Data off) = Some {cache (run (data_evs es) s) (Data off)}"
proof (induction es rule: rev_induct)
  case (snoc e es)
  obtain a v where e: "e = (a, v)" by fastforce
  have "run (data_evs (es @ [e])) s = pm_step (Flush [Data a]) (pm_step (Store (Data a) v) (run (data_evs es) s))"
    by (simp add: data_evs_def e)
  then show ?case using snoc e by auto
qed simp

lemma processed_clearing:
  assumes "processing N es m0 s"
  shows "clearing N es m0 (run (data_evs es @ [Drain]) s)"
proof -
  let ?s = "run (data_evs es) s" and ?d = "run (data_evs es @ [Drain]) s"
  have p: "processing N es m0 ?s"
    using run_prefix_invariant [of "processing N es m0" s "data_evs es" "length (data_evs es)"] assms processing_step data_evs_store
    by (metis order_refl take_all)
  then have d: "processing N es m0 ?d" using processing_step [of N es m0 ?s Drain] by simp
  have "durable ?d (Data off) \<subseteq> {commit es m0 (Data off)}" for off
  proof (cases "off \<in> fst ` set es")
    case True
    then have "durable ?d (Data off) = {cache ?s (Data off)}"
      using data_evs_pending [OF True, of s] by simp
    also have "cache ?s (Data off) = commit es m0 (Data off)"
      using commit_agree [of off es "cache s" m0] True by (simp add: cache_data_evs)
    finally show ?thesis by simp
  next
    case False
    then show ?thesis using d commit_other [OF False, of m0] by (simp add: processing_def)
  qed
  then show ?thesis using d unfolding processing_def clearing_def by blast
qed

text \<open>Every crash while a flagged log is processed leaves a flagged log, or the new data.\<close>

lemma process_crash:
  assumes "processing N es m0 s" "ok_updates N es" "m \<in> crash (run (take k (process_evs es)) s)"
  shows "committed N es m0 m \<or> old_data N (commit es m0) m"
proof -
  let ?a = "data_evs es @ [Drain]" and ?b = "clear_evs (length es - 1)"
  have split: "process_evs es = ?a @ ?b" by (simp add: process_evs_def)
  show ?thesis
  proof (cases "k < length ?a")
    case True
    have "processing N es m0 (pm_step e t)" if "e \<in> set ?a" "processing N es m0 t" for e t
      using processing_step [OF that(2), of e] that(1) data_evs_store by fastforce
    then have p: "processing N es m0 (run (take k ?a) s)"
      using run_prefix_invariant [of "processing N es m0" s ?a k] assms(1) by blast
    have "run (take k (process_evs es)) s = run (take k ?a) s"
      using True unfolding split run_take_append by simp
    with crash_phases(2) [OF assms(2) _ p] assms(3) show ?thesis by simp
  next
    case False
    have "clearing N es m0 (pm_step e t)" if "e \<in> set ?b" "clearing N es m0 t" for e t
      using clearing_step [OF that(2), of e] that(1) assms(2) by (auto simp: clear_evs_def persist_def ok_updates_def)
    then have "clearing N es m0 (run (take (k - length ?a) ?b) (run ?a s))"
      using run_prefix_invariant [of "clearing N es m0" "run ?a s" ?b] processed_clearing [OF assms(1)] by blast
    moreover have "run (take k (process_evs es)) s = run (take (k - length ?a) ?b) (run ?a s)"
      using False unfolding split run_take_append by simp
    ultimately show ?thesis using crash_phases(3) [OF assms(2,3)] by simp
  qed
qed

lemma committed_processing: "committed N es m0 m \<Longrightarrow> ok_updates N es \<Longrightarrow> processing N es m0 (boot m)"
  by (auto simp: processing_def log_fixed_def committed_def log_off_def ok_updates_def last_conv_nth)

subsection \<open>A whole update\<close>

definition log_writes :: "update list \<Rightarrow> (redo_log, u64) ev list" where
  "log_writes es = concat (map (\<lambda>i. redo_log_store i (fst (es ! i)) (snd (es ! i))) [0 ..< length es])"

definition flag_evs :: "update list \<Rightarrow> (redo_log, u64) ev list" where
  "flag_evs es = [Store (LogOff (length es - 1)) (fst (last es) OR REDO_FINISH_FLAG)] @ persist [LogOff (length es - 1)]"

definition update_evs :: "update list \<Rightarrow> (redo_log, u64) ev list" where
  "update_evs es = log_writes es @ persist (log_prefix (length es)) @ flag_evs es @ process_evs es"

text \<open>While the log is written, words in \<open>U\<close> may be written as well, such as those of an object that nothing points to yet.\<close>

definition writing :: "nat \<Rightarrow> u64 set \<Rightarrow> redo_mem \<Rightarrow> (redo_log, u64) pm \<Rightarrow> bool" where
  "writing N U m0 s \<longleftrightarrow> pm_ok s \<and> (\<forall>i<N. durable s (LogOff i) \<subseteq> {v. \<not> finish_flag v}) \<and>
     (\<forall>off. off \<notin> U \<longrightarrow> durable s (Data off) \<subseteq> {m0 (Data off)})"

definition stage_store :: "u64 set \<Rightarrow> redo_log \<Rightarrow> u64 \<Rightarrow> bool" where
  "stage_store U l v \<longleftrightarrow> (case l of LogVal i \<Rightarrow> True | LogOff i \<Rightarrow> \<not> finish_flag v | Data off \<Rightarrow> off \<in> U)"

lemma writing_step:
  assumes "writing N U m0 s" "\<And>l v. e = Store l v \<Longrightarrow> stage_store U l v"
  shows "writing N U m0 (pm_step e s)"
proof -
  have ok: "pm_ok s" using assms(1) by (simp add: writing_def)
  have "durable (pm_step e s) (Data off) \<subseteq> durable s (Data off)" if "off \<notin> U" for off
    using durable_kept [OF ok, of e "Data off"] assms(2) that by (fastforce simp: stage_store_def)
  moreover have "durable (pm_step e s) (LogOff i) \<subseteq> durable s (LogOff i) \<union> {v. \<not> finish_flag v}" for i
    using durable_after_step [OF ok, of e "LogOff i"] assms(2) by (cases e) (auto simp: stage_store_def split: if_splits)
  ultimately show ?thesis
    using assms(1) pm_ok_step [OF ok, of e] unfolding writing_def by blast
qed

lemma writing_run:
  assumes "clean N m0" "\<And>l v. Store l v \<in> set p \<Longrightarrow> stage_store U l v"
  shows "writing N U m0 (run (take k p) (boot m0))"
proof (rule run_prefix_invariant)
  show "writing N U m0 (boot m0)" using assms(1) by (auto simp: writing_def clean_def)
  show "writing N U m0 (pm_step e s)" if "e \<in> set p" "writing N U m0 s" for e s
    using that assms(2) by (intro writing_step) auto
qed

lemma crash_writing:
  assumes "writing N U m0 s" "m \<in> crash s"
  shows "clean N m" "off \<notin> U \<Longrightarrow> m (Data off) = m0 (Data off)"
proof -
  have "m (LogOff i) \<in> {v. \<not> finish_flag v}" if "i < N" for i
    by (rule crash_in [OF assms(2)]) (use assms(1) that in \<open>simp add: writing_def\<close>)
  then show "clean N m" by (simp add: clean_def)
  have "m (Data off) \<in> {m0 (Data off)}" if "off \<notin> U"
    by (rule crash_in [OF assms(2)]) (use assms(1) that in \<open>simp add: writing_def\<close>)
  then show "off \<notin> U \<Longrightarrow> m (Data off) = m0 (Data off)" by simp
qed

lemma log_writes_snoc: "log_writes (es @ [e]) = log_writes es @ redo_log_store (length es) (fst e) (snd e)"
proof -
  have "concat (map (\<lambda>i. redo_log_store i (fst ((es @ [e]) ! i)) (snd ((es @ [e]) ! i))) [0 ..< length es]) = log_writes es"
    unfolding log_writes_def by (intro arg_cong [where f = concat] map_cong) (auto simp: nth_append)
  then show ?thesis by (simp add: log_writes_def [of "es @ [e]"])
qed

lemma log_writes_Nil [simp]: "log_writes [] = []"
  by (simp add: log_writes_def)

lemma cache_log_writes:
  "cache (run (log_writes es) s) (LogOff i) = (if i < length es then fst (es ! i) else cache s (LogOff i))"
  "cache (run (log_writes es) s) (LogVal i) = (if i < length es then snd (es ! i) else cache s (LogVal i))"
  "cache (run (log_writes es) s) (Data off) = cache s (Data off)"
  by (induction es rule: rev_induct)
    (auto simp: log_writes_snoc redo_log_store_def nth_append less_Suc_eq)

lemma log_prefix_set: "LogOff i \<in> set (log_prefix n) \<longleftrightarrow> i < n" "LogVal i \<in> set (log_prefix n) \<longleftrightarrow> i < n"
  by (auto simp: log_prefix_def)

lemma log_writes_store: "ok_updates N es \<Longrightarrow> Store l v \<in> set (log_writes es) \<Longrightarrow> stage_store U l v"
  by (auto simp: log_writes_def redo_log_store_def ok_updates_def stage_store_def)

text \<open>A stage of an update: the events \<open>p\<close> fill the log but for the offset of the last entry, and leave the words in \<open>U\<close> durable as in \<open>m1\<close>.\<close>

definition staged :: "nat \<Rightarrow> update list \<Rightarrow> u64 set \<Rightarrow> redo_mem \<Rightarrow> redo_mem \<Rightarrow> (redo_log, u64) ev list \<Rightarrow> bool" where
  "staged N es U m0 m1 p \<longleftrightarrow> ok_updates N es \<and> clean N m0 \<and> (\<forall>l v. Store l v \<in> set p \<longrightarrow> stage_store U l v) \<and>
     (\<forall>i<length es. (Suc i \<noteq> length es \<longrightarrow> cache (run p (boot m0)) (LogOff i) = fst (es ! i)) \<and> cache (run p (boot m0)) (LogVal i) = snd (es ! i)) \<and>
     (\<forall>off. if off \<in> U then durable (run p (boot m0)) (Data off) \<subseteq> {m1 (Data off)} else m1 (Data off) = m0 (Data off))"

lemma logged_deciding:
  assumes "staged N es U m0 m1 p"
  shows "deciding N es m1 (run (p @ persist (log_prefix (length es))) (boot m0))" (is "deciding N es m1 ?s")
proof -
  let ?w = "run p (boot m0)"
  have es: "es \<noteq> []" and c: "clean N m0" and p: "\<And>l v. Store l v \<in> set p \<Longrightarrow> stage_store U l v"
    using assms by (auto simp: staged_def ok_updates_def)
  let ?p = "p @ persist (log_prefix (length es))"
  have "Store l v \<in> set ?p \<Longrightarrow> stage_store U l v" for l v using p by (auto simp: persist_def)
  from writing_run [of N m0 ?p U "length ?p", OF c this] have s: "writing N U m0 ?s" by simp
  have ok: "pm_ok ?w" by (simp add: pm_ok_run)
  have d: "durable ?s l = {cache ?w l}" if "l \<in> set (log_prefix (length es))" for l
    using pm_run_persist [OF that, of ?w] by simp
  have D: "if off \<in> U then durable ?w (Data off) \<subseteq> {m1 (Data off)} else m1 (Data off) = m0 (Data off)" for off
    using assms unfolding staged_def by (elim conjE) (rule spec)
  have "durable ?s (Data off) \<subseteq> {m1 (Data off)}" for off
  proof (cases "off \<in> U")
    case True
    have "Data off \<notin> stored (persist (log_prefix (length es)))" by simp
    from run_untouched [OF this ok] have "durable ?s (Data off) \<subseteq> durable ?w (Data off)" by (simp only: run_simps)
    then show ?thesis using D [of off] True by (simp only: if_True)
  next
    case False
    then have "m1 (Data off) = m0 (Data off)" using D [of off] by simp
    with s False show ?thesis unfolding writing_def by metis
  qed
  moreover have "durable ?s (LogVal i) = {snd (es ! i)}" "Suc i \<noteq> length es \<Longrightarrow> durable ?s (LogOff i) = {fst (es ! i)}" if "i < length es" for i
    using d [of "LogOff i"] d [of "LogVal i"] that assms by (simp_all add: log_prefix_set staged_def)
  moreover have "length es - 1 < N" using assms es by (auto simp: staged_def ok_updates_def Suc_le_eq intro: less_le_trans)
  ultimately show ?thesis using s by (auto simp: deciding_def log_fixed_def writing_def)
qed

lemma flag_step:
  assumes "deciding N es m0 s" "es \<noteq> []"
  shows "deciding N es m0 (pm_step (Store (LogOff (length es - 1)) (fst (last es) OR REDO_FINISH_FLAG)) s)"
proof -
  let ?e = "Store (LogOff (length es - 1)) (fst (last es) OR REDO_FINISH_FLAG)"
  have *: "log_fixed N es s" "pm_ok s" using assms(1) by (simp_all add: deciding_def log_fixed_def)
  have "log_fixed N es (pm_step ?e s)" using log_fixed_step [OF *(1), of ?e] assms(2) by simp
  then show ?thesis using assms(1) by (simp add: deciding_def)
qed

lemma flagged_processing:
  assumes "deciding N es m0 s" "es \<noteq> []"
  shows "processing N es m0 (run (flag_evs es) s)"
proof -
  let ?s1 = "pm_step (Store (LogOff (length es - 1)) (fst (last es) OR REDO_FINISH_FLAG)) s"
  let ?s2 = "run (persist [LogOff (length es - 1)]) ?s1"
  have "deciding N es m0 ?s2"
    unfolding persist_def run_simps by (intro deciding_step flag_step assms) simp_all
  moreover have "durable ?s2 (LogOff (length es - 1)) = {fst (last es) OR REDO_FINISH_FLAG}"
    by (simp add: persist_def)
  moreover have "run (flag_evs es) s = ?s2" by (simp only: flag_evs_def run_simps)
  ultimately show ?thesis by (simp add: deciding_def processing_def)
qed

lemma decided_crash:
  assumes "deciding N es m1 s" "ok_updates N es" "m \<in> crash (run (take k (flag_evs es @ process_evs es)) s)"
  shows "if k < 3 then old_data N m1 m \<or> committed N es m1 m else committed N es m1 m \<or> old_data N (commit es m1) m"
proof -
  let ?b = "flag_evs es" and ?c = "process_evs es"
  have es: "es \<noteq> []" using assms(2) by (simp add: ok_updates_def)
  have len: "length ?b = 3" by (simp add: flag_evs_def persist_def)
  show ?thesis
  proof (cases "k < 3")
    case True
    have "deciding N es m1 (run (take k ?b) s)"
    proof (rule run_prefix_invariant)
      show "deciding N es m1 (pm_step e s)" if "e \<in> set ?b" "deciding N es m1 s" for e s
        using that flag_step [OF that(2) es] deciding_step [OF that(2), of e] by (auto simp: flag_evs_def persist_def)
    qed (rule assms(1))
    moreover have "run (take k (?b @ ?c)) s = run (take k ?b) s" using True len unfolding run_take_append by simp
    ultimately show ?thesis using crash_phases(1) [OF assms(2)] assms(3) True by auto
  next
    case False
    have "run (take k (?b @ ?c)) s = run (take (k - 3) ?c) (run ?b s)" using False len unfolding run_take_append by simp
    then show ?thesis using process_crash [OF flagged_processing [OF assms(1) es] assms(2), of m "k - 3"] assms(3) False by simp
  qed
qed

definition staged_evs :: "update list \<Rightarrow> (redo_log, u64) ev list \<Rightarrow> (redo_log, u64) ev list" where
  "staged_evs es p = p @ persist (log_prefix (length es)) @ flag_evs es @ process_evs es"

lemma staged_crash:
  assumes "staged N es U m0 m1 p" "m \<in> crash (run (take k (staged_evs es p)) (boot m0))"
  shows "if k < length p + 5 then (clean N m \<and> (\<forall>off. off \<notin> U \<longrightarrow> m (Data off) = m0 (Data off))) \<or> committed N es m1 m
    else committed N es m1 m \<or> old_data N (commit es m1) m"
proof -
  let ?a = "p @ persist (log_prefix (length es))" and ?b = "flag_evs es @ process_evs es"
  have ok: "ok_updates N es" "clean N m0" and p: "\<And>l v. Store l v \<in> set p \<Longrightarrow> stage_store U l v"
    and m1: "\<And>off. off \<notin> U \<Longrightarrow> m1 (Data off) = m0 (Data off)" using assms(1) by (auto simp: staged_def split: if_splits)
  have len: "length ?a = length p + 2" by (simp add: persist_def)
  have split: "staged_evs es p = ?a @ ?b" by (simp add: staged_evs_def)
  show ?thesis
  proof (cases "k < length ?a")
    case True
    have "Store l v \<in> set ?a \<Longrightarrow> stage_store U l v" for l v using p by (auto simp: persist_def)
    from writing_run [of N m0 ?a U k, OF ok(2) this] have "writing N U m0 (run (take k ?a) (boot m0))" .
    moreover have "run (take k (staged_evs es p)) (boot m0) = run (take k ?a) (boot m0)" using True unfolding split run_take_append [of k ?a] by simp
    ultimately show ?thesis using crash_writing assms(2) True len by auto
  next
    case False
    have "run (take k (staged_evs es p)) (boot m0) = run (take (k - length ?a) ?b) (run ?a (boot m0))"
      using False unfolding split run_take_append [of k ?a] by simp
    then have d: "if k - length ?a < 3 then old_data N m1 m \<or> committed N es m1 m else committed N es m1 m \<or> old_data N (commit es m1) m"
      using decided_crash [OF logged_deciding [OF assms(1)] ok(1), of m "k - length ?a"] assms(2) by simp
    show ?thesis
    proof (cases "k < length p + 5")
      case True
      then have "k - length ?a < 3" using False len by linarith
      then have "old_data N m1 m \<or> committed N es m1 m" using d by presburger
      then show ?thesis using True m1 by (auto simp: old_data_def)
    next
      case big: False
      then have "\<not> k - length ?a < 3" using len by linarith
      then show ?thesis using d big by presburger
    qed
  qed
qed

lemma log_writes_staged: "ok_updates N es \<Longrightarrow> clean N m0 \<Longrightarrow> staged N es {} m0 m0 (log_writes es)"
  by (simp add: staged_def cache_log_writes log_writes_store)

lemma update_crash:
  assumes "ok_updates N es" "clean N m0" "m \<in> crash (run (take k (update_evs es)) (boot m0))"
  shows "old_data N m0 m \<or> committed N es m0 m \<or> old_data N (commit es m0) m"
    and "length (log_writes es) + 5 \<le> k \<Longrightarrow> committed N es m0 m \<or> old_data N (commit es m0) m"
  using staged_crash [OF log_writes_staged [OF assms(1,2)], of m k] assms(3)
  by (auto simp: staged_evs_def update_evs_def old_data_def split: if_splits)

subsection \<open>The contents of a log\<close>

definition flagged_index :: "redo_mem \<Rightarrow> nat" where
  "flagged_index m = (LEAST i. finish_flag (m (LogOff i)))"

definition logged :: "redo_mem \<Rightarrow> update list" where
  "logged m = map (\<lambda>i. (m (LogOff i) AND REDO_FLAG_MASK, m (LogVal i))) [0 ..< Suc (flagged_index m)]"

lemma mask_unflagged [simp]:
  "\<not> finish_flag (off AND REDO_FLAG_MASK)" "\<not> finish_flag off \<Longrightarrow> off AND REDO_FLAG_MASK = off"
  "finish_flag off \<Longrightarrow> (off AND REDO_FLAG_MASK) OR REDO_FINISH_FLAG = off"
proof -
  show "\<not> finish_flag (off AND REDO_FLAG_MASK)"
    by (simp add: finish_flag_bit REDO_FLAG_MASK_def REDO_FINISH_FLAG_def bit_simps)
  show "\<not> finish_flag off \<Longrightarrow> off AND REDO_FLAG_MASK = off"
    by (intro bit_eqI) (auto simp: finish_flag_bit REDO_FLAG_MASK_def REDO_FINISH_FLAG_def bit_simps bit_1_iff intro!: gr0I)
  show "finish_flag off \<Longrightarrow> (off AND REDO_FLAG_MASK) OR REDO_FINISH_FLAG = off"
    by (intro bit_eqI) (auto simp: finish_flag_bit REDO_FLAG_MASK_def REDO_FINISH_FLAG_def bit_simps bit_1_iff)
qed

lemma one_flag:
  assumes "redo_log_nflags m N = 1"
  shows "flagged_index m < N" "i < N \<Longrightarrow> finish_flag (m (LogOff i)) \<longleftrightarrow> i = flagged_index m"
proof -
  let ?fs = "filter (\<lambda>i. finish_flag (m (LogOff i))) [0 ..< N]"
  have "length ?fs = Suc 0" using assms by (simp add: nflags_filter)
  then obtain j where "?fs = [j]" by (auto simp: length_Suc_conv)
  then have "set ?fs = {j}" by simp
  then have eq: "i < N \<and> finish_flag (m (LogOff i)) \<longleftrightarrow> i = j" for i by (auto simp: set_eq_iff)
  have "flagged_index m = j"
    unfolding flagged_index_def
  proof (rule Least_equality)
    show "finish_flag (m (LogOff j))" using eq [of j] by simp
    show "j \<le> i" if "finish_flag (m (LogOff i))" for i using eq [of i] eq [of j] that by linarith
  qed
  with eq show "flagged_index m < N" "i < N \<Longrightarrow> finish_flag (m (LogOff i)) \<longleftrightarrow> i = flagged_index m" by blast+
qed

lemma one_flag_committed:
  assumes "redo_log_nflags m N = 1"
  shows "ok_updates N (logged m)" "committed N (logged m) m m"
proof -
  let ?j = "flagged_index m"
  have len: "length (logged m) = Suc ?j" by (simp add: logged_def)
  have nth: "logged m ! i = (m (LogOff i) AND REDO_FLAG_MASK, m (LogVal i))" if "i \<le> ?j" for i
    using that unfolding logged_def by (simp del: upt_Suc)
  show "ok_updates N (logged m)"
    using one_flag(1) [OF assms] len by (auto simp: ok_updates_def logged_def)
  have "m (LogOff i) = log_off (logged m) i" if "i \<le> ?j" for i
    using one_flag [OF assms] that nth [OF that] len by (auto simp: log_off_def)
  then show "committed N (logged m) m m"
    using one_flag [OF assms] nth len by (auto simp: committed_def less_Suc_eq_le)
qed

lemma check_loop_spec:
  assumes "i \<le> flagged_index m" "flagged_index m < i + k" "finish_flag (m (LogOff (flagged_index m)))"
    "\<And>i. i < flagged_index m \<Longrightarrow> \<not> finish_flag (m (LogOff i))"
  shows "check_loop pop m k i = Some (if \<forall>j. i \<le> j \<and> j \<le> flagged_index m \<longrightarrow>
    redo_log_check_offset pop (m (LogOff j) AND REDO_FLAG_MASK) then 0 else -1)"
  using assms(1,2)
proof (induction k arbitrary: i)
  case (Suc k)
  show ?case
  proof (cases "i = flagged_index m")
    case True
    then show ?thesis using assms(3) by (auto simp: le_antisym)
  next
    case False
    then have i: "i < flagged_index m" using Suc.prems(1) by simp
    have split: "(\<forall>j. i \<le> j \<and> j \<le> flagged_index m \<longrightarrow> P j) \<longleftrightarrow> P i \<and> (\<forall>j. Suc i \<le> j \<and> j \<le> flagged_index m \<longrightarrow> P j)" for P
      using i by (metis Suc_leD Suc_leI le_less_Suc_eq less_imp_le not_less not_less_eq_eq order_refl)
    show ?thesis
      using Suc.IH [of "Suc i"] Suc.prems i assms(4) [OF i] by (simp add: split [of "\<lambda>j. redo_log_check_offset pop (m (LogOff j) AND REDO_FLAG_MASK)"])
  qed
qed simp

subsection \<open>Properties\<close>

text \<open>C20: Recovery may itself be interrupted. When the power fails after any number k of the memory operations of
  \<open>redo_log_recover\<close>, a second recovery of the memory left behind succeeds and restores the same data that one
  uninterrupted recovery would have, whatever the log contained.\<close>

theorem redo_recovery_idempotent:
  assumes "redo_log_recover m N = Some evs" "m' \<in> crash (run (take k evs) (boot m))"
  shows "\<exists>a b. recovered N m = Some a \<and> recovered N m' = Some b \<and> (\<forall>off. a (Data off) = b (Data off))"
proof (cases "redo_log_nflags m N = 1")
  case True
  note c = one_flag_committed [OF True]
  have evs: "evs = process_evs (logged m)" using recover_committed(1) [OF c(2,1)] assms(1) by simp
  obtain a where a: "recovered N m = Some a" "\<forall>off. a (Data off) = commit (logged m) m (Data off)"
    using recover_committed(2) [OF c(2,1)] by blast
  have "committed N (logged m) m m' \<or> old_data N (commit (logged m) m) m'"
    by (rule process_crash [OF committed_processing [OF c(2,1)] c(1)]) (use assms(2) evs in simp)
  then show ?thesis
  proof
    assume "committed N (logged m) m m'"
    from recover_committed(2) [OF this c(1)] a show ?thesis by auto
  next
    assume "old_data N (commit (logged m) m) m'"
    with recover_clean [of N m'] a show ?thesis by (auto simp: old_data_def)
  qed
next
  case False
  then have "evs = []" using assms(1) by (simp add: redo_log_recover_def)
  then have "m' = m" using assms(2) by (auto simp: crash_def)
  then show ?thesis using assms(1) by (simp add: recovered_def)
qed

definition example_log :: redo_mem where
  "example_log l = (if l = LogOff 0 then 64 else if l = LogVal 0 then 7 else if l = LogOff 1 then 129 else if l = LogVal 1 then 8 else 0)"

theorem redo_recovery_idempotent_witness:
  "let m = example_log; m' = m(Data 64 := 7)
   in redo_log_recover m 3 = Some (process_evs [(64, 7), (128, 8)]) \<and>
      m' \<in> crash (run (take 2 (process_evs [(64, 7), (128, 8)])) (boot m)) \<and>
      (\<exists>a b. recovered 3 m = Some a \<and> recovered 3 m' = Some b \<and> (\<forall>off. a (Data off) = b (Data off)))"
proof -
  define m where "m = example_log"
  define m' where "m' = m(Data 64 := 7)"
  have r: "redo_log_recover m 3 = Some (process_evs [(64, 7), (128, 8)])"
    by (simp add: m_def example_log_def redo_log_recover_def redo_log_nflags_def redo_log_process_def finish_flag_def
        REDO_FINISH_FLAG_def REDO_FLAG_MASK_def numeral_3_eq_3 process_evs_def data_evs_def clear_evs_def persist_def)
  have c: "m' \<in> crash (run (take 2 (process_evs [(64, 7), (128, 8)])) (boot m))"
    by (simp add: crash_def m'_def process_evs_def data_evs_def)
  show ?thesis
    using redo_recovery_idempotent [OF r c] r c unfolding Let_def m_def m'_def by blast
qed

text \<open>\<open>redo_log_check\<close> always terminates inside the log, and accepts exactly the logs with at most one finish flag whose
  entries, up to the flagged one, all target a valid offset: one in the heap, in the lanes or the root offset of the pool.\<close>

theorem redo_log_check_exact:
  "redo_log_check pop m N =
     Some (if redo_log_nflags m N = 0 \<or>
              redo_log_nflags m N = 1 \<and> list_all (\<lambda>e. redo_log_check_offset pop (fst e)) (logged m)
           then 0 else -1)"
proof (cases "redo_log_nflags m N = 1")
  case True
  note f = one_flag [OF True]
  have "list_all (\<lambda>e. redo_log_check_offset pop (fst e)) (logged m) \<longleftrightarrow>
      (\<forall>j. 0 \<le> j \<and> j \<le> flagged_index m \<longrightarrow> redo_log_check_offset pop (m (LogOff j) AND REDO_FLAG_MASK))"
    by (auto simp: logged_def list_all_iff less_Suc_eq_le simp del: upt_Suc)
  moreover have "check_loop pop m N 0 = Some (if \<forall>j. 0 \<le> j \<and> j \<le> flagged_index m \<longrightarrow>
      redo_log_check_offset pop (m (LogOff j) AND REDO_FLAG_MASK) then 0 else -1)"
    by (rule check_loop_spec) (use f in auto)
  ultimately show ?thesis using True by (simp add: redo_log_check_def)
qed (simp add: redo_log_check_def)

end
