(* ===== verification/Memops.thy ===== *)
theory Memops
  imports Redo_Props
begin

text \<open>
  Aggregated memory operations of libpmemobj, \<open>src/nvml/src/libpmemobj/memops.c\<close>: the allocator collects the words that it wants to change
  in an \<open>operation_context\<close> and changes them in one step. A pointer is a 64-bit address and its word is the location \<open>Data\<close> of
  its distance from the start of the pool (\<open>OBJ_PTR_TO_OFF\<close>, with wrap-around). The two entry arrays are lists; writing behind their
  last element is \<open>None\<close>.
\<close>

datatype operation_type = OPERATION_SET | OPERATION_AND | OPERATION_OR

datatype operation_entry_type = ENTRY_PERSISTENT | ENTRY_TRANSIENT

record operation_entry =
  en_ptr :: u64
  en_value :: u64
  en_op :: operation_type

definition MAX_PERSITENT_ENTRIES :: nat where
  "MAX_PERSITENT_ENTRIES = 10"

record operation_context =
  op_pop :: PMEMobjpool
  op_base :: u64
  entries :: "operation_entry_type \<Rightarrow> operation_entry list"

definition OBJ_PTR_TO_OFF :: "u64 \<Rightarrow> u64 \<Rightarrow> u64" where
  "OBJ_PTR_TO_OFF pop ptr = ptr - pop"

definition operation_init :: "PMEMobjpool \<Rightarrow> u64 \<Rightarrow> operation_context" where
  "operation_init pop base = \<lparr>op_pop = pop, op_base = base, entries = (\<lambda>_. [])\<rparr>"

fun operation_perform :: "u64 \<Rightarrow> u64 \<Rightarrow> operation_type \<Rightarrow> u64" where
  "operation_perform field v OPERATION_AND = field AND v"
| "operation_perform field v OPERATION_OR = field OR v"
| "operation_perform field v OPERATION_SET = field"

fun update_existing :: "u64 \<Rightarrow> u64 \<Rightarrow> operation_type \<Rightarrow> operation_entry list \<Rightarrow> operation_entry list option" where
  "update_existing ptr v type [] = None"
| "update_existing ptr v type (e # es) =
     (if en_ptr e = ptr then Some (e\<lparr>en_value := operation_perform (en_value e) v type\<rparr> # es)
      else map_option ((#) e) (update_existing ptr v type es))"

definition operation_add_typed_entry :: "redo_mem \<Rightarrow> operation_context \<Rightarrow> u64 \<Rightarrow> u64 \<Rightarrow> operation_type \<Rightarrow>
    operation_entry_type \<Rightarrow> operation_context option" where
  "operation_add_typed_entry m ctx ptr v type en_type =
     (case update_existing ptr v type (entries ctx en_type) of
        Some es \<Rightarrow> Some (ctx\<lparr>entries := (entries ctx)(en_type := es)\<rparr>)
      | None \<Rightarrow>
          let value = (if type = OPERATION_AND \<or> type = OPERATION_OR
                       then operation_perform (m (Data (OBJ_PTR_TO_OFF (op_base ctx) ptr))) v type else v);
              en = \<lparr>en_ptr = ptr, en_value = value, en_op = OPERATION_SET\<rparr>
          in if length (entries ctx en_type) < MAX_PERSITENT_ENTRIES
             then Some (ctx\<lparr>entries := (entries ctx)(en_type := entries ctx en_type @ [en])\<rparr>) else None)"

definition operation_add_entry :: "redo_mem \<Rightarrow> operation_context \<Rightarrow> u64 \<Rightarrow> u64 \<Rightarrow> operation_type \<Rightarrow> operation_context option" where
  "operation_add_entry m ctx ptr v type =
     operation_add_typed_entry m ctx ptr v type
       (if redo_log_check_offset (op_pop ctx) (OBJ_PTR_TO_OFF (op_base ctx) ptr) then ENTRY_PERSISTENT else ENTRY_TRANSIENT)"

fun operation_add_entries :: "redo_mem \<Rightarrow> operation_context \<Rightarrow> operation_entry list \<Rightarrow> operation_context option" where
  "operation_add_entries m ctx [] = Some ctx"
| "operation_add_entries m ctx (e # es) =
     Option.bind (operation_add_entry m ctx (en_ptr e) (en_value e) (en_op e)) (\<lambda>ctx. operation_add_entries m ctx es)"

text \<open>The memory operations of an entry list, with the memory that each function reads.\<close>

definition update_of :: "operation_context \<Rightarrow> operation_entry \<Rightarrow> update" where
  "update_of ctx e = (OBJ_PTR_TO_OFF (op_base ctx) (en_ptr e), en_value e)"

fun store_entries :: "operation_context \<Rightarrow> nat \<Rightarrow> operation_entry list \<Rightarrow> (redo_log, u64) ev list" where
  "store_entries ctx i [] = []"
| "store_entries ctx i (e # es) =
     redo_log_store i (OBJ_PTR_TO_OFF (op_base ctx) (en_ptr e)) (en_value e) @ store_entries ctx (i + 1) es"

definition operation_process_persistent_redo :: "redo_mem \<Rightarrow> operation_context \<Rightarrow> (redo_log, u64) ev list option" where
  "operation_process_persistent_redo m ctx =
     (let es = entries ctx ENTRY_PERSISTENT;
          i = length es;
          stores = store_entries ctx 0 es;
          m1 = cache (run stores (boot m));
          flag = redo_log_set_last m1 (i - 1);
          m2 = cache (run flag (boot m1))
      in map_option (\<lambda>process. stores @ flag @ process) (redo_log_process m2 i))"

definition transient_stores :: "operation_context \<Rightarrow> (redo_log, u64) ev list" where
  "transient_stores ctx =
     map (\<lambda>e. Store (Data (OBJ_PTR_TO_OFF (op_base ctx) (en_ptr e))) (en_value e)) (entries ctx ENTRY_TRANSIENT)"

definition operation_process :: "redo_mem \<Rightarrow> operation_context \<Rightarrow> (redo_log, u64) ev list option" where
  "operation_process m ctx =
     map_option (\<lambda>evs. evs @ transient_stores ctx)
       (if length (entries ctx ENTRY_PERSISTENT) = 1
        then let e = hd (entries ctx ENTRY_PERSISTENT); loc = Data (OBJ_PTR_TO_OFF (op_base ctx) (en_ptr e))
             in Some ([Store loc (en_value e)] @ persist [loc])
        else if length (entries ctx ENTRY_PERSISTENT) \<noteq> 0 then operation_process_persistent_redo m ctx
        else Some [])"

subsection \<open>The entries of a context\<close>

definition ctx_ok :: "operation_context \<Rightarrow> bool" where
  "ctx_ok ctx \<longleftrightarrow> (\<forall>t. distinct (map en_ptr (entries ctx t)) \<and> length (entries ctx t) \<le> MAX_PERSITENT_ENTRIES)"

definition entry_value :: "operation_entry list \<Rightarrow> u64 \<Rightarrow> u64 option" where
  "entry_value es = map_of (map (\<lambda>e. (en_ptr e, en_value e)) es)"

lemma entry_value_simps [simp]:
  "entry_value [] = Map.empty" "entry_value (e # es) = (entry_value es)(en_ptr e \<mapsto> en_value e)"
  by (simp_all add: entry_value_def)

lemma entry_value_None [simp]: "entry_value es ptr = None \<longleftrightarrow> ptr \<notin> en_ptr ` set es"
  by (induction es) auto

lemma entry_value_snoc: "ptr \<notin> en_ptr ` set es \<Longrightarrow> en_ptr e = ptr \<Longrightarrow> entry_value (es @ [e]) = (entry_value es)(ptr \<mapsto> en_value e)"
  by (induction es) auto

lemma update_existing_None: "update_existing ptr v type es = None \<longleftrightarrow> ptr \<notin> en_ptr ` set es"
  by (induction es) auto

lemma update_existing_Some:
  "update_existing ptr v type es = Some es' \<Longrightarrow>
     map en_ptr es' = map en_ptr es \<and> ptr \<in> en_ptr ` set es \<and>
     entry_value es' = (entry_value es)(ptr \<mapsto> operation_perform (the (entry_value es ptr)) v type)"
  by (induction es arbitrary: es') (auto split: if_splits)

lemma ctx_ok_init [simp]: "ctx_ok (operation_init pop base)"
  by (simp add: ctx_ok_def operation_init_def)

lemma ctx_ok_add_typed:
  assumes "operation_add_typed_entry m ctx ptr v type en_type = Some ctx'" "ctx_ok ctx"
  shows "ctx_ok ctx'"
proof (cases "update_existing ptr v type (entries ctx en_type)")
  case None
  moreover from this have "ptr \<notin> en_ptr ` set (entries ctx en_type)" by (rule update_existing_None [THEN iffD1])
  ultimately show ?thesis
    using assms by (auto simp: operation_add_typed_entry_def ctx_ok_def Let_def split: if_splits)
next
  case (Some es)
  then have "map en_ptr es = map en_ptr (entries ctx en_type)" using update_existing_Some by blast
  moreover from this have "length es = length (entries ctx en_type)" by (rule map_eq_imp_length_eq)
  ultimately show ?thesis using assms Some by (auto simp: operation_add_typed_entry_def ctx_ok_def)
qed

lemma ctx_ok_add_entries:
  "operation_add_entries m ctx es = Some ctx' \<Longrightarrow> ctx_ok ctx \<Longrightarrow> ctx_ok ctx'"
  by (induction es arbitrary: ctx)
    (auto simp: operation_add_entry_def bind_eq_Some_conv intro: ctx_ok_add_typed)

subsection \<open>Processing\<close>

definition updates :: "operation_context \<Rightarrow> update list" where
  "updates ctx = map (update_of ctx) (entries ctx ENTRY_PERSISTENT)"

lemma store_entries_log_writes: "store_entries ctx 0 (entries ctx ENTRY_PERSISTENT) = log_writes (updates ctx)"
proof -
  have "store_entries ctx i es = concat (map (\<lambda>j. redo_log_store (i + j) (fst (map (update_of ctx) es ! j)) (snd (map (update_of ctx) es ! j)))
      [0 ..< length es])" for i es
  proof (induction es arbitrary: i)
    case (Cons e es)
    have "[0 ..< length (e # es)] = 0 # map Suc [0 ..< length es]" by (simp add: upt_conv_Cons map_Suc_upt del: upt_Suc)
    then show ?case by (simp add: Cons.IH update_of_def comp_def del: upt_Suc)
  qed simp
  from this [of 0] show ?thesis by (simp add: log_writes_def updates_def)
qed

lemma persistent_redo_evs:
  assumes "ok_updates N (updates ctx)"
  shows "operation_process_persistent_redo m ctx = Some (update_evs (updates ctx))"
proof -
  let ?es = "updates ctx" and ?n = "length (updates ctx)"
  have es: "?es \<noteq> []" "\<forall>e\<in>set ?es. \<not> finish_flag (fst e)" using assms by (auto simp: ok_updates_def)
  have n: "length (entries ctx ENTRY_PERSISTENT) = ?n" by (simp add: updates_def)
  define m1 where "m1 = cache (run (log_writes ?es) (boot m))"
  have m1: "m1 (LogOff i) = fst (?es ! i)" "m1 (LogVal i) = snd (?es ! i)" if "i < ?n" for i
    using cache_log_writes(1,2) [of ?es "boot m" i] that by (simp_all add: m1_def)
  have flag: "redo_log_set_last m1 (?n - 1) = persist (log_prefix ?n) @ flag_evs ?es"
    using es(1) m1(1) [of "?n - 1"] by (simp add: redo_log_set_last_def flag_evs_def last_conv_nth)
  define m2 where "m2 = cache (run (persist (log_prefix ?n) @ flag_evs ?es) (boot m1))"
  have m2: "m2 = m1(LogOff (?n - 1) := fst (last ?es) OR REDO_FINISH_FLAG)"
    by (simp add: m2_def flag_evs_def persist_def)
  have "\<forall>i<?n. m2 (LogOff i) = log_off ?es i \<and> m2 (LogVal i) = snd (?es ! i)"
    using m1 es(1) by (auto simp: m2 log_off_def last_conv_nth)
  then have "redo_log_process m2 ?n = Some (process_evs ?es)"
    using process_loop_evs [of ?es m2 0 ?n] es by (simp add: redo_log_process_def process_evs_def)
  then show ?thesis
    unfolding operation_process_persistent_redo_def Let_def n store_entries_log_writes m1_def [symmetric] flag m2_def [symmetric]
    by (simp add: update_evs_def)
qed

lemma transient_untouched:
  assumes "Data off \<notin> stored (transient_stores ctx)" "pm_ok s"
  shows "durable (run (take k (transient_stores ctx)) s) (Data off) \<subseteq> durable s (Data off)"
proof -
  have "Data off \<notin> stored (take k (transient_stores ctx))" using assms(1) by (auto simp: stored_def dest: in_set_takeD)
  from run_untouched [OF this assms(2)] show ?thesis by blast
qed

definition agree :: "operation_context \<Rightarrow> redo_mem \<Rightarrow> redo_mem \<Rightarrow> bool" where
  "agree ctx m m' \<longleftrightarrow> (\<forall>off. Data off \<notin> stored (transient_stores ctx) \<longrightarrow> m (Data off) = m' (Data off))"

definition persistent_evs :: "operation_context \<Rightarrow> (redo_log, u64) ev list" where
  "persistent_evs ctx = (case updates ctx of [] \<Rightarrow> [] | [u] \<Rightarrow> [Store (Data (fst u)) (snd u)] @ persist [Data (fst u)] | es \<Rightarrow> update_evs es)"

lemma operation_process_evs:
  assumes "list_all (\<lambda>u. \<not> finish_flag (fst u)) (updates ctx)"
  shows "operation_process m ctx = Some (persistent_evs ctx @ transient_stores ctx)"
proof -
  consider "entries ctx ENTRY_PERSISTENT = []" | e where "entries ctx ENTRY_PERSISTENT = [e]"
    | e e' es where "entries ctx ENTRY_PERSISTENT = e # e' # es" by (metis list.exhaust)
  then show ?thesis
  proof cases
    case 3
    then have "ok_updates (length (updates ctx)) (updates ctx)" using assms by (auto simp: ok_updates_def updates_def list_all_iff)
    from persistent_redo_evs [OF this, of m] show ?thesis
      using 3 by (simp add: operation_process_def persistent_evs_def updates_def)
  qed (simp_all add: operation_process_def persistent_evs_def updates_def update_of_def Let_def)
qed

text \<open>The persistent part alone: every crash leaves the old or the new data, or a log that recovery completes.\<close>

lemma persistent_crash:
  assumes "list_all (\<lambda>u. \<not> finish_flag (fst u)) (updates ctx)" "length (updates ctx) \<le> N" "clean N m0"
    "m \<in> crash (run (take k (persistent_evs ctx)) (boot m0))"
  shows "old_data N m0 m \<or> ok_updates N (updates ctx) \<and> committed N (updates ctx) m0 m \<or> old_data N (commit (updates ctx) m0) m"
proof -
  consider "updates ctx = []" | u where "updates ctx = [u]" | u u' us where "updates ctx = u # u' # us" by (metis list.exhaust)
  then show ?thesis
  proof cases
    case 1
    then have "m = m0" using assms(4) by (auto simp: persistent_evs_def crash_def)
    then show ?thesis using assms(3) by (simp add: old_data_def)
  next
    case 2
    obtain off v where u: "u = (off, v)" by fastforce
    have "stored (take k (persistent_evs ctx)) \<subseteq> {Data off}"
      using 2 u by (auto simp: persistent_evs_def stored_def persist_def dest!: in_set_takeD)
    then have other: "m l = m0 l" if "l \<noteq> Data off" for l
      using run_untouched [of l "take k (persistent_evs ctx)" "boot m0"] that assms(4) by (auto simp: crash_def)
    have I: "pm_ok (run (take k (persistent_evs ctx)) (boot m0)) \<and> durable (run (take k (persistent_evs ctx)) (boot m0)) (Data off) \<subseteq> {m0 (Data off), v}"
    proof (rule run_prefix_invariant)
      show "pm_ok (boot m0) \<and> durable (boot m0) (Data off) \<subseteq> {m0 (Data off), v}" by simp
    next
      fix e s assume e: "e \<in> set (persistent_evs ctx)" and s: "pm_ok s \<and> durable s (Data off) \<subseteq> {m0 (Data off), v}"
      consider "e = Store (Data off) v" | "e = Flush [Data off]" | "e = Drain" using e 2 u by (auto simp: persistent_evs_def persist_def)
      then have "durable (pm_step e s) (Data off) \<subseteq> insert v (durable s (Data off))"
      proof cases
        case 1
        then show ?thesis by simp
      qed (use durable_after_step [of s e "Data off"] s in auto)
      then show "pm_ok (pm_step e s) \<and> durable (pm_step e s) (Data off) \<subseteq> {m0 (Data off), v}" using pm_ok_step s by blast
    qed
    then have "m (Data off) \<in> {m0 (Data off), v}" using assms(4) by (auto simp: crash_def)
    moreover have "clean N m" using other assms(3) by (simp add: clean_def)
    moreover have "\<forall>o'. m (Data o') = (m0(Data off := m (Data off))) (Data o')" using other by simp
    ultimately have "old_data N m0 m \<or> old_data N (commit (updates ctx) m0) m"
      unfolding old_data_def 2 u commit_simps by (metis (no_types) fun_upd_triv insertE singletonD)
    then show ?thesis by blast
  next
    case 3
    then have ok: "ok_updates N (updates ctx)" using assms(1,2) by (auto simp: ok_updates_def list_all_iff)
    have "persistent_evs ctx = update_evs (updates ctx)" using 3 by (simp add: persistent_evs_def)
    then show ?thesis using update_crash(1) [OF ok assms(3)] assms(4) ok by auto
  qed
qed

lemma persistent_done:
  assumes "list_all (\<lambda>u. \<not> finish_flag (fst u)) (updates ctx)" "length (updates ctx) \<le> N" "clean N m0"
    "m \<in> crash (run (persistent_evs ctx) (boot m0))"
  shows "old_data N (commit (updates ctx) m0) m"
proof -
  consider "updates ctx = []" | u where "updates ctx = [u]" | u u' us where "updates ctx = u # u' # us" by (metis list.exhaust)
  then show ?thesis
  proof cases
    case 1
    then have "m = m0" using assms(4) by (auto simp: persistent_evs_def crash_def)
    then show ?thesis using assms(3) 1 by (simp add: old_data_def)
  next
    case 2
    obtain off v where u: "u = (off, v)" by fastforce
    have "m l = (m0(Data off := v)) l" for l
      using assms(4) 2 u by (cases "l = Data off") (auto simp: persistent_evs_def crash_def persist_def boot_def dest: spec [of _ l])
    then show ?thesis using assms(3) 2 u by (auto simp: old_data_def clean_def)
  next
    case 3
    then have ok: "ok_updates N (updates ctx)" using assms(1,2) by (auto simp: ok_updates_def list_all_iff)
    let ?n = "length (updates ctx) - 1" and ?len = "length (update_evs (updates ctx))"
    have evs: "persistent_evs ctx = update_evs (updates ctx)" using 3 by (simp add: persistent_evs_def)
    have "durable (run (update_evs (updates ctx)) (boot m0)) (LogOff ?n) = {0}"
      by (simp add: update_evs_def process_evs_def clear_evs_def persist_def)
    then have "m (LogOff ?n) = 0" using assms(4) by (auto simp: crash_def evs)
    moreover have "finish_flag (m (LogOff ?n))" if "committed N (updates ctx) m0 m"
    proof -
      have "?n < length (updates ctx)" using 3 by simp
      then have "m (LogOff ?n) = log_off (updates ctx) ?n" using that unfolding committed_def by blast
      then show ?thesis using 3 by (simp add: log_off_def)
    qed
    ultimately have "\<not> committed N (updates ctx) m0 m" by auto
    moreover have "length (log_writes (updates ctx)) + 5 \<le> ?len" by (simp add: update_evs_def persist_def flag_evs_def)
    ultimately show ?thesis using update_crash(2) [OF ok assms(3), of m ?len] assms(4) evs by simp
  qed
qed

lemma transient_crash:
  assumes "pm_ok s" "m \<in> crash (run (take k (transient_stores ctx)) s)" "\<And>m. m \<in> crash s \<Longrightarrow> old_data N d m"
  shows "clean N m \<and> agree ctx m d"
proof -
  let ?tr = "take k (transient_stores ctx)"
  define m' where "m' l = (if l \<in> stored ?tr then cache s l else m l)" for l
  have "m' l \<in> durable s l" for l
  proof (cases "l \<in> stored ?tr")
    case True
    then show ?thesis using assms(1) by (simp add: m'_def pm_ok_def)
  next
    case False
    then show ?thesis using run_untouched [OF False assms(1)] assms(2) by (auto simp: m'_def crash_def)
  qed
  then have "m' \<in> crash s" by (simp add: crash_def)
  from assms(3) [OF this] have m': "clean N m'" "\<And>off. m' (Data off) = d (Data off)" by (simp_all add: old_data_def)
  have "LogOff i \<notin> stored ?tr" for i by (auto simp: stored_def transient_stores_def dest!: in_set_takeD)
  then have "clean N m" using m'(1) by (simp add: clean_def m'_def)
  moreover have "stored ?tr \<subseteq> stored (transient_stores ctx)" by (auto simp: stored_def dest: in_set_takeD)
  ultimately show ?thesis using m'(2) unfolding agree_def m'_def by (metis subsetD)
qed

text \<open>C21: \<open>operation_process\<close> changes its persistent words failure-atomically. Let the redo log be clean and have room for the entries,
  and let their offsets be aligned. When the power fails after any number k of memory operations, recovery succeeds and yields the
  old data or all of the new data, on every word that is not written transiently; once the persistent part is done, the new data is found.\<close>

theorem operation_process_atomic:
  assumes "list_all (\<lambda>u. \<not> finish_flag (fst u)) (updates ctx)" "length (updates ctx) \<le> N" "clean N m0"
    "operation_process m0 ctx = Some evs" "m \<in> crash (run (take k evs) (boot m0))"
  shows "\<exists>m'. recovered N m = Some m' \<and> clean N m' \<and>
    (length evs \<le> k + length (transient_stores ctx) \<and> agree ctx m' (commit (updates ctx) m0) \<or>
     k + length (transient_stores ctx) < length evs \<and> (agree ctx m' m0 \<or> agree ctx m' (commit (updates ctx) m0)))"
proof -
  have evs: "evs = persistent_evs ctx @ transient_stores ctx" using operation_process_evs [OF assms(1), of m0] assms(4) by simp
  show ?thesis
  proof (cases "k < length (persistent_evs ctx)")
    case True
    then have "run (take k evs) (boot m0) = run (take k (persistent_evs ctx)) (boot m0)" unfolding evs run_take_append by simp
    with persistent_crash [OF assms(1-3)] assms(5)
    consider "old_data N m0 m" | "ok_updates N (updates ctx)" "committed N (updates ctx) m0 m" | "old_data N (commit (updates ctx) m0) m"
      by metis
    then show ?thesis
    proof cases
      case 2
      from recover_committed(2) [OF this(2,1)] show ?thesis using True by (auto simp: evs agree_def)
    qed (use recover_clean [of N m] True in \<open>auto simp: evs agree_def old_data_def\<close>)
  next
    case False
    let ?s = "run (persistent_evs ctx) (boot m0)"
    have "run (take k evs) (boot m0) = run (take (k - length (persistent_evs ctx)) (transient_stores ctx)) ?s"
      using False unfolding evs run_take_append by simp
    with transient_crash [of ?s m _ ctx N "commit (updates ctx) m0"] persistent_done [OF assms(1-3)] assms(5)
    have "clean N m \<and> agree ctx m (commit (updates ctx) m0)" by (metis pm_ok_run pm_ok_boot)
    then show ?thesis using recover_clean [of N m] False by (auto simp: evs)
  qed
qed

definition example_pop :: PMEMobjpool where
  "example_pop = \<lparr>heap_offset = 4096, heap_size = 65536, lanes_offset = 1024, nlanes = 1, root_offset_off = 512\<rparr>"

definition example_context :: operation_context where
  "example_context = \<lparr>op_pop = example_pop, op_base = 1048576,
     entries = (\<lambda>t. case t of
        ENTRY_PERSISTENT \<Rightarrow> [\<lparr>en_ptr = 1052672, en_value = 5, en_op = OPERATION_SET\<rparr>, \<lparr>en_ptr = 1052680, en_value = 6, en_op = OPERATION_SET\<rparr>]
      | ENTRY_TRANSIENT \<Rightarrow> [\<lparr>en_ptr = 64, en_value = 1, en_op = OPERATION_SET\<rparr>])\<rparr>"

lemma example_updates: "updates example_context = [(4096, 5), (4104, 6)]"
  by (simp add: updates_def example_context_def update_of_def OBJ_PTR_TO_OFF_def)

theorem operation_process_atomic_witness:
  "let ctx = example_context; m0 = (\<lambda>_. 0); k = 6
   in \<exists>evs m. operation_process m0 ctx = Some evs \<and> k + length (transient_stores ctx) < length evs \<and>
        m \<in> crash (run (take k evs) (boot m0)) \<and>
        (\<exists>m'. recovered 3 m = Some m' \<and> (agree ctx m' m0 \<or> agree ctx m' (commit (updates ctx) m0)))"
proof -
  define m0 :: redo_mem where "m0 = (\<lambda>_. 0)"
  let ?ctx = example_context
  have u: "list_all (\<lambda>u. \<not> finish_flag (fst u)) (updates ?ctx)" "length (updates ?ctx) \<le> 3"
    by (simp_all add: example_updates finish_flag_def REDO_FINISH_FLAG_def)
  have c: "clean 3 m0" by (simp add: clean_def m0_def)
  obtain evs where evs: "operation_process m0 ?ctx = Some evs" "evs = persistent_evs ?ctx @ transient_stores ?ctx"
    using operation_process_evs [OF u(1)] by simp
  have len: "6 + length (transient_stores ?ctx) < length evs"
    by (simp add: evs(2) persistent_evs_def example_updates update_evs_def log_writes_def redo_log_store_def persist_def flag_evs_def)
  define m where "m = cache (run (take 6 evs) (boot m0))"
  have m: "m \<in> crash (run (take 6 evs) (boot m0))"
    using pm_ok_run [OF pm_ok_boot, of "take 6 evs" m0] by (simp add: m_def crash_def pm_ok_def)
  have "\<exists>m'. recovered 3 m = Some m' \<and> (agree ?ctx m' m0 \<or> agree ?ctx m' (commit (updates ?ctx) m0))"
    using operation_process_atomic [OF u c evs(1) m] by blast
  then show ?thesis using evs(1) len m unfolding Let_def m0_def by blast
qed

lemma add_entry_cases:
  assumes "ctx_ok ctx"
  shows "let off = OBJ_PTR_TO_OFF (op_base ctx) ptr;
             t = (if redo_log_check_offset (op_pop ctx) off then ENTRY_PERSISTENT else ENTRY_TRANSIENT);
             es = entries ctx t;
             old = (case entry_value es ptr of Some x \<Rightarrow> x | None \<Rightarrow> m (Data off));
             new = (case type of OPERATION_AND \<Rightarrow> old AND v | OPERATION_OR \<Rightarrow> old OR v
                      | OPERATION_SET \<Rightarrow> (if entry_value es ptr = None then v else old))
         in case operation_add_entry m ctx ptr v type of
              None \<Rightarrow> entry_value es ptr = None \<and> length es = MAX_PERSITENT_ENTRIES
            | Some ctx' \<Rightarrow> entry_value (entries ctx' t) = (entry_value es)(ptr \<mapsto> new) \<and>
                (entries ctx')(t := es) = entries ctx \<and> ctx_ok ctx' \<and>
                \<not> (entry_value es ptr = None \<and> length es = MAX_PERSITENT_ENTRIES)"
proof -
  define off where "off = OBJ_PTR_TO_OFF (op_base ctx) ptr"
  define t where "t = (if redo_log_check_offset (op_pop ctx) off then ENTRY_PERSISTENT else ENTRY_TRANSIENT)"
  have add: "operation_add_entry m ctx ptr v type = operation_add_typed_entry m ctx ptr v type t"
    by (simp add: operation_add_entry_def t_def off_def)
  have max: "length (entries ctx t) \<le> MAX_PERSITENT_ENTRIES" using assms by (simp add: ctx_ok_def)
  show ?thesis
  proof (cases "update_existing ptr v type (entries ctx t)")
    case None
    then have new: "ptr \<notin> en_ptr ` set (entries ctx t)" by (rule update_existing_None [THEN iffD1])
    show ?thesis
      using None entry_value_None [THEN iffD2, OF new] max ctx_ok_add_typed [OF _ assms, of m ptr v type t] entry_value_snoc [OF new]
      unfolding Let_def off_def [symmetric] t_def [symmetric] add
      by (cases type) (auto simp: operation_add_typed_entry_def off_def [symmetric] Let_def simp del: entry_value_None)
  next
    case (Some es)
    note upd = update_existing_Some [OF Some]
    then obtain x where "entry_value (entries ctx t) ptr = Some x" by (metis entry_value_None not_Some_eq)
    with Some upd show ?thesis
      using ctx_ok_add_typed [OF _ assms, of m ptr v type t]
      unfolding Let_def off_def [symmetric] t_def [symmetric] add
      by (cases type) (auto simp: operation_add_typed_entry_def)
  qed
qed

text \<open>\<open>operation_add_entry\<close> registers the change of one word. A word that has an entry keeps one entry, whose value is combined with the
  new one by AND or OR and left alone by SET; a new word gets an entry with the new value, or with its current value combined with the new one.
  The other array and the other words are unchanged, no word has two entries, and the call overflows its array exactly when
  the word is new and the array is full.\<close>

theorem operation_add_entry_effect:
  assumes "ctx_ok ctx"
  shows "let off = OBJ_PTR_TO_OFF (op_base ctx) ptr;
             t = (if redo_log_check_offset (op_pop ctx) off then ENTRY_PERSISTENT else ENTRY_TRANSIENT);
             es = entries ctx t;
             old = (case entry_value es ptr of Some x \<Rightarrow> x | None \<Rightarrow> m (Data off));
             new = (case type of OPERATION_AND \<Rightarrow> old AND v | OPERATION_OR \<Rightarrow> old OR v
                      | OPERATION_SET \<Rightarrow> (if entry_value es ptr = None then v else old))
         in case operation_add_entry m ctx ptr v type of
              None \<Rightarrow> entry_value es ptr = None \<and> length es = MAX_PERSITENT_ENTRIES
            | Some ctx' \<Rightarrow> entry_value (entries ctx' t) = (entry_value es)(ptr \<mapsto> new) \<and>
                (entries ctx')(t := es) = entries ctx \<and> ctx_ok ctx' \<and>
                \<not> (entry_value es ptr = None \<and> length es = MAX_PERSITENT_ENTRIES)"
  by (rule add_entry_cases [OF assms])

theorem operation_add_entry_effect_witness:
  "ctx_ok (operation_init example_pop 1048576) \<and>
   (\<exists>ctx'. operation_add_entry (\<lambda>_. 12) (operation_init example_pop 1048576) 1052672 10 OPERATION_AND = Some ctx' \<and>
     entry_value (entries ctx' ENTRY_PERSISTENT) = [1052672 \<mapsto> 8] \<and> ctx_ok ctx')"
proof -
  let ?ctx = "operation_init example_pop 1048576"
  have ok: "ctx_ok ?ctx" by simp
  have v: "redo_log_check_offset (op_pop ?ctx) (OBJ_PTR_TO_OFF (op_base ?ctx) 1052672)" "entries ?ctx ENTRY_PERSISTENT = []"
    by (simp_all add: operation_init_def OBJ_PTR_TO_OFF_def redo_log_check_offset_def example_pop_def)
  have "\<exists>ctx'. operation_add_entry (\<lambda>_. 12) ?ctx 1052672 10 OPERATION_AND = Some ctx' \<and>
     entry_value (entries ctx' ENTRY_PERSISTENT) = [1052672 \<mapsto> 8] \<and> ctx_ok ctx'"
    using operation_add_entry_effect [OF ok, of 1052672 "\<lambda>_. 12" 10 OPERATION_AND] v
    by (auto simp: Let_def MAX_PERSITENT_ENTRIES_def split: option.splits)
  with ok show ?thesis by blast
qed

end
