(* ===== verification/Critbit.thy ===== *)
theory Critbit
  imports Prelude
begin

text \<open>
  Crit-bit trees, the structure behind \<open>src/nvml/src/libpmemobj/ctree.c\<close> and the example map
  \<open>src/nvml/src/examples/libpmemobj/tree_map/ctree_map.c\<close>. An internal node carries the most significant bit in which the keys below it
  differ, and sends the keys without the bit to slot 0 and those with the bit to slot 1.
\<close>

datatype 'v node = Leaf u64 'v | Node nat "'v node" "'v node"

definition clz :: "u64 \<Rightarrow> nat" where
  "clz w = length (takeWhile (\<lambda>i. \<not> bit w i) (rev [0 ..< 64]))"

definition find_crit_bit :: "u64 \<Rightarrow> u64 \<Rightarrow> nat" where
  "find_crit_bit lhs rhs = 64 - clz (lhs XOR rhs) - 1"

fun keys :: "'v node \<Rightarrow> u64 set" where
  "keys (Leaf k v) = {k}"
| "keys (Node d l r) = keys l \<union> keys r"

fun to_map :: "'v node \<Rightarrow> u64 \<Rightarrow> 'v option" where
  "to_map (Leaf k v) = [k \<mapsto> v]"
| "to_map (Node d l r) = to_map l ++ to_map r"

definition agree_above :: "nat \<Rightarrow> u64 \<Rightarrow> u64 \<Rightarrow> bool" where
  "agree_above d a b \<longleftrightarrow> (\<forall>i>d. bit a i = bit b i)"

fun crit_ok :: "'v node \<Rightarrow> bool" where
  "crit_ok (Leaf k v) = True"
| "crit_ok (Node d l r) \<longleftrightarrow> d < 64 \<and> crit_ok l \<and> crit_ok r \<and> (\<forall>k\<in>keys l. \<not> bit k d) \<and> (\<forall>k\<in>keys r. bit k d) \<and>
     (\<forall>a\<in>keys l \<union> keys r. \<forall>b\<in>keys l \<union> keys r. agree_above d a b)"

text \<open>Descending by the bits of a key ends in the leaf that matches it best.\<close>

fun best :: "u64 \<Rightarrow> 'v node \<Rightarrow> u64 \<times> 'v" where
  "best key (Leaf k v) = (k, v)"
| "best key (Node d l r) = best key (if bit key d then r else l)"

subsection \<open>Critical bits\<close>

lemma takeWhile_rev_upt:
  assumes "i < n" "P i" "\<And>j. i < j \<Longrightarrow> j < n \<Longrightarrow> \<not> P j"
  shows "length (takeWhile (\<lambda>j. \<not> P j) (rev [0 ..< n])) = n - i - 1"
  using assms
proof (induction n)
  case (Suc n)
  show ?case
  proof (cases "i = n")
    case True
    then show ?thesis using Suc.prems by simp
  next
    case False
    then show ?thesis using Suc.prems Suc.IH by (auto simp: less_Suc_eq)
  qed
qed simp

lemma find_crit_bit:
  assumes "a \<noteq> b"
  shows "find_crit_bit a b < 64" "bit a (find_crit_bit a b) \<noteq> bit b (find_crit_bit a b)" "agree_above (find_crit_bit a b) a b"
proof -
  let ?P = "\<lambda>i. i < 64 \<and> bit (a XOR b) i"
  have "\<exists>i. ?P i"
  proof (rule ccontr)
    assume "\<not> ?thesis"
    then have "a = b" by (intro bit_word_eqI) (auto simp: bit_xor_iff)
    with assms show False by simp
  qed
  then have "Max {i. ?P i} \<in> {i. ?P i}" by (intro Max_in) auto
  moreover have "j \<le> Max {i. ?P i}" if "?P j" for j using that by (intro Max_ge) auto
  ultimately obtain i where i: "?P i" "\<And>j. ?P j \<Longrightarrow> j \<le> i" by blast
  have "clz (a XOR b) = 64 - i - 1"
    unfolding clz_def by (rule takeWhile_rev_upt) (use i in \<open>auto simp: not_less dest: leD\<close>)
  then have f: "find_crit_bit a b = i" using i(1) by (simp add: find_crit_bit_def)
  show "find_crit_bit a b < 64" using f i(1) by simp
  show "bit a (find_crit_bit a b) \<noteq> bit b (find_crit_bit a b)" using f i(1) by (simp add: bit_xor_iff)
  have "bit a j = bit b j" if "i < j" for j
    using i(2) [of j] that by (cases "j < 64") (auto simp: bit_xor_iff dest: bit_imp_le_length)
  then show "agree_above (find_crit_bit a b) a b" unfolding f agree_above_def by simp
qed

lemma crit_bit_less:
  assumes "agree_above d a b" "\<not> bit a d" "bit b d"
  shows "a < (b :: u64)"
proof -
  have h: "drop_bit (Suc d) (uint a) = drop_bit (Suc d) (uint b)"
    using assms(1) by (intro bit_eqI) (simp add: bit_drop_bit_eq bit_uint_iff agree_above_def)
  have t: "take_bit (Suc d) (uint a) < 2 ^ d" "2 ^ d \<le> take_bit (Suc d) (uint b)"
    using assms(2,3) bit_imp_le_length [OF assms(3)] by (simp_all add: take_bit_Suc_from_most bit_uint_iff)
  obtain p x y where "uint a = p + x" "uint b = p + y" "x < 2 ^ d" "2 ^ d \<le> y"
    using bits_ident [of "Suc d" "uint a"] bits_ident [of "Suc d" "uint b"] h t by metis
  then have "uint a < uint b" by linarith
  then show ?thesis by (simp add: word_less_alt)
qed

lemma agree_above_mono: "agree_above d a b \<Longrightarrow> d \<le> d' \<Longrightarrow> agree_above d' a b"
  by (simp add: agree_above_def)

lemma agree_above_sym: "agree_above d a b \<Longrightarrow> agree_above d b a"
  by (simp add: agree_above_def)

lemma agree_above_trans: "agree_above d a b \<Longrightarrow> agree_above d b c \<Longrightarrow> agree_above d a c"
  by (simp add: agree_above_def)

lemma agree_above_bit: "agree_above d a b \<Longrightarrow> d < i \<Longrightarrow> bit a i = bit b i"
  by (simp add: agree_above_def)

subsection \<open>Lookup\<close>

lemma dom_to_map [simp]: "dom (to_map t) = keys t"
  by (induction t) (auto split: if_splits)

lemma to_map_None: "to_map t k = None \<longleftrightarrow> k \<notin> keys t"
  using dom_to_map [of t] by blast

lemma keys_nonempty [simp]: "keys t \<noteq> {}"
  by (induction t) auto

lemma finite_keys [simp]: "finite (keys t)"
  by (induction t) auto

lemma best_in: "fst (best key t) \<in> keys t"
  by (induction t) auto

lemma to_map_Node:
  assumes "crit_ok (Node d l r)"
  shows "to_map (Node d l r) k = (if bit k d then to_map r k else to_map l k)"
proof (cases "bit k d")
  case True
  then have "to_map l k = None" using assms unfolding to_map_None by auto
  then show ?thesis using True by (auto simp: map_add_def split: option.splits)
next
  case False
  then have "to_map r k = None" using assms unfolding to_map_None by auto
  then show ?thesis using False by (simp add: map_add_def)
qed

lemma best_to_map:
  assumes "crit_ok t"
  shows "to_map t key = (if fst (best key t) = key then Some (snd (best key t)) else None)"
  using assms
proof (induction t)
  case (Node d l r)
  then show ?case unfolding to_map_Node [OF Node.prems] by (simp split: if_splits)
qed simp

lemma best_key: "crit_ok t \<Longrightarrow> fst (best key t) = key \<longleftrightarrow> key \<in> keys t"
  using best_to_map [of t key] to_map_None [of t key] by (auto split: if_splits)

lemma best_value: "crit_ok t \<Longrightarrow> to_map t (fst (best key t)) = Some (snd (best key t))"
proof (induction t)
  case (Node d l r)
  let ?c = "if bit key d then r else l"
  have "bit (fst (best key ?c)) d = bit key d" using Node.prems best_in [of key ?c] by auto
  then show ?case unfolding to_map_Node [OF Node.prems] using Node by simp
qed simp

text \<open>The best match of a key shares with it every bit above its critical bit, and so does the subtree where the key belongs.\<close>

lemma best_child:
  assumes "crit_ok (Node d l r)"
  shows "bit (fst (best key (Node d l r))) d = bit key d"
  using assms best_in [of key "if bit key d then r else l"] by auto

definition mismatch :: "nat \<Rightarrow> u64 \<Rightarrow> 'v node \<Rightarrow> bool" where
  "mismatch diff key t \<longleftrightarrow> agree_above diff (fst (best key t)) key \<and> bit (fst (best key t)) diff \<noteq> bit key diff"

lemma mismatch_crit_bit: "fst (best key t) \<noteq> key \<Longrightarrow> mismatch (find_crit_bit (fst (best key t)) key) key t"
  using find_crit_bit by (simp add: mismatch_def)

fun stops :: "nat \<Rightarrow> 'v node \<Rightarrow> bool" where
  "stops diff (Leaf k v) = True"
| "stops diff (Node d l r) = (d < diff)"

lemma stop_keys:
  assumes "crit_ok t" "mismatch diff key t" "stops diff t" "k \<in> keys t"
  shows "agree_above diff k key" "bit k diff \<noteq> bit key diff"
proof -
  let ?b = "fst (best key t)"
  have "agree_above diff k ?b \<and> bit k diff = bit ?b diff"
  proof (cases t)
    case (Leaf k' v)
    then show ?thesis using assms(4) by (simp add: agree_above_def)
  next
    case (Node d l r)
    then have "agree_above d k ?b" using assms(1,4) best_in [of key t] by auto
    moreover have "d < diff" using assms(3) Node by simp
    ultimately show ?thesis using agree_above_bit agree_above_mono less_imp_le by blast
  qed
  then show "agree_above diff k key" "bit k diff \<noteq> bit key diff"
    using assms(2) agree_above_trans by (auto simp: mismatch_def)
qed

lemma mismatch_step:
  assumes "crit_ok (Node d l r)" "mismatch diff key (Node d l r)" "\<not> d < diff"
  shows "diff < d" "mismatch diff key (if bit key d then r else l)" "k \<in> keys l \<union> keys r \<Longrightarrow> agree_above d k key"
proof -
  let ?b = "fst (best key (Node d l r))"
  have "d \<noteq> diff" using best_child [OF assms(1), of key] assms(2) by (auto simp: mismatch_def)
  then show d: "diff < d" using assms(3) by simp
  show "mismatch diff key (if bit key d then r else l)" using assms(2) by (simp add: mismatch_def)
  assume "k \<in> keys l \<union> keys r"
  then have "agree_above d k ?b" using assms(1) best_in [of key "Node d l r"] by auto
  moreover have "agree_above d ?b key" using assms(2) d agree_above_mono by (auto simp: mismatch_def)
  ultimately show "agree_above d k key" by (rule agree_above_trans)
qed

subsection \<open>Insertion\<close>

fun insert_at :: "nat \<Rightarrow> u64 \<Rightarrow> 'v \<Rightarrow> 'v node \<Rightarrow> 'v node" where
  "insert_at diff key v (Leaf k w) =
     (if bit key diff then Node diff (Leaf k w) (Leaf key v) else Node diff (Leaf key v) (Leaf k w))"
| "insert_at diff key v (Node d l r) =
     (if d < diff then (if bit key diff then Node diff (Node d l r) (Leaf key v) else Node diff (Leaf key v) (Node d l r))
      else if bit key d then Node d l (insert_at diff key v r) else Node d (insert_at diff key v l) r)"

lemma insert_at_stop:
  "stops diff t \<Longrightarrow> insert_at diff key v t = (if bit key diff then Node diff t (Leaf key v) else Node diff (Leaf key v) t)"
  by (cases t) auto

lemma keys_insert_at: "keys (insert_at diff key v t) = insert key (keys t)"
  by (induction t) auto

lemma join_ok:
  assumes "crit_ok t" "diff < 64" "\<And>k. k \<in> keys t \<Longrightarrow> agree_above diff k key \<and> bit k diff \<noteq> bit key diff"
  shows "crit_ok (if bit key diff then Node diff t (Leaf key v) else Node diff (Leaf key v) t) \<and>
    to_map (if bit key diff then Node diff t (Leaf key v) else Node diff (Leaf key v) t) = (to_map t)(key \<mapsto> v)"
proof -
  have key: "key \<notin> dom (to_map t)" using assms(3) [of key] by auto
  have ab: "agree_above diff a b" if "a \<in> insert key (keys t)" "b \<in> insert key (keys t)" for a b
    using that assms(3) unfolding agree_above_def by (metis insertE)
  have "[key \<mapsto> v] ++ to_map t = to_map t ++ [key \<mapsto> v]" by (rule map_add_comm) (use key in auto)
  then show ?thesis using assms ab by auto
qed

lemma insert_at_ok:
  assumes "crit_ok t" "mismatch diff key t" "diff < 64"
  shows "crit_ok (insert_at diff key v t) \<and> to_map (insert_at diff key v t) = (to_map t)(key \<mapsto> v)"
  using assms(1,2)
proof (induction t)
  case (Leaf k w)
  have "stops diff (Leaf k w)" by simp
  from join_ok [OF Leaf(1) assms(3)] stop_keys [OF Leaf this] show ?case unfolding insert_at_stop [OF \<open>stops diff (Leaf k w)\<close>] by blast
next
  case (Node d l r)
  show ?case
  proof (cases "d < diff")
    case True
    then have st: "stops diff (Node d l r)" by simp
    from join_ok [OF Node.prems(1) assms(3)] stop_keys [OF Node.prems st] show ?thesis unfolding insert_at_stop [OF st] by blast
  next
    case False
    note m = mismatch_step [OF Node.prems False]
    have c: "crit_ok l" "crit_ok r" "d < 64" "\<forall>k\<in>keys l. \<not> bit k d" "\<forall>k\<in>keys r. bit k d" using Node.prems(1) by auto
    have ab: "\<forall>a\<in>insert key (keys l \<union> keys r). \<forall>b\<in>insert key (keys l \<union> keys r). agree_above d a b"
      using m(3) unfolding agree_above_def by (metis insertE)
    show ?thesis
    proof (cases "bit key d")
      case True
      then have "mismatch diff key r" using m(2) by simp
      note IH = Node.IH(2) [OF c(2) this]
      then show ?thesis using True False c ab by (simp add: keys_insert_at del: fun_upd_apply)
    next
      case bit: False
      then have "mismatch diff key l" using m(2) by simp
      note IH = Node.IH(1) [OF c(1) this]
      have "key \<notin> dom (to_map r)" using c(5) bit by auto
      then have "(to_map l)(key \<mapsto> v) ++ to_map r = (to_map l ++ to_map r)(key \<mapsto> v)" by (rule map_add_upd_left)
      then show ?thesis using bit False c ab IH by (simp add: keys_insert_at del: fun_upd_apply)
    qed
  qed
qed

subsection \<open>Largest key below, smallest key above\<close>

fun rightmost :: "'v node \<Rightarrow> u64 \<times> 'v" where
  "rightmost (Leaf k v) = (k, v)"
| "rightmost (Node d l r) = rightmost r"

text \<open>The walk towards the place of a key: slot 0 of the last node that was left through slot 1, and the subtree where the walk stops.\<close>

fun le_walk :: "nat \<Rightarrow> u64 \<Rightarrow> 'v node option \<Rightarrow> 'v node \<Rightarrow> 'v node option \<times> 'v node" where
  "le_walk diff key tp (Leaf k v) = (tp, Leaf k v)"
| "le_walk diff key tp (Node d l r) =
     (if d < diff then (tp, Node d l r) else if bit key d then le_walk diff key (Some l) r else le_walk diff key tp l)"

lemma node_order: "crit_ok (Node d l r) \<Longrightarrow> a \<in> keys l \<Longrightarrow> b \<in> keys r \<Longrightarrow> a < b"
  by (rule crit_bit_less [of d]) auto

lemma rightmost_Max:
  assumes "crit_ok t"
  shows "fst (rightmost t) = Max (keys t) \<and> to_map t (fst (rightmost t)) = Some (snd (rightmost t))"
  using assms
proof (induction t)
  case (Node d l r)
  have "Max (keys l) < Max (keys r)" by (rule node_order [OF Node.prems]) (simp_all add: Max_in)
  moreover have "Max (keys (Node d l r)) = max (Max (keys l)) (Max (keys r))" by (simp add: Max_Un)
  ultimately show ?case using Node by (auto simp: map_add_def split: option.splits)
qed simp

definition is_max :: "u64 set \<Rightarrow> u64 set \<Rightarrow> bool" where
  "is_max A B \<longleftrightarrow> A \<subseteq> B \<and> (\<forall>b\<in>B. \<exists>a\<in>A. b \<le> a)"

lemma is_max_Max:
  assumes "is_max A B" "A \<noteq> {}" "finite B"
  shows "Max A = Max B"
proof (rule antisym)
  have fin: "finite A" using assms finite_subset by (auto simp: is_max_def)
  show "Max A \<le> Max B" using assms by (intro Max_mono) (auto simp: is_max_def)
  have "Max B \<in> B" using assms by (intro Max_in) (auto simp: is_max_def)
  then obtain a where "a \<in> A" "Max B \<le> a" using assms(1) by (auto simp: is_max_def)
  then show "Max B \<le> Max A" using Max_ge [OF fin] order_trans by blast
qed

definition below :: "u64 \<Rightarrow> 'v node \<Rightarrow> u64 set" where
  "below key t = {k \<in> keys t. k < key}"

lemma stop_below:
  assumes "crit_ok t" "mismatch diff key t" "stops diff t"
  shows "below key t = (if bit key diff then keys t else {})"
proof -
  have "k < key \<longleftrightarrow> bit key diff" if "k \<in> keys t" for k
    using stop_keys [OF assms that] crit_bit_less [of diff k key] crit_bit_less [of diff key k] agree_above_sym
    by (metis order_less_asym)
  then show ?thesis by (auto simp: below_def)
qed

lemma step_below:
  assumes "crit_ok (Node d l r)" "mismatch diff key (Node d l r)" "\<not> d < diff"
  shows "below key (Node d l r) = (if bit key d then keys l \<union> below key r else below key l)"
proof -
  have l: "k < key" if "k \<in> keys l" "bit key d" for k
    by (rule crit_bit_less [of d]) (use assms(1) mismatch_step(3) [OF assms, of k] that in auto)
  have r: "key < k" if "k \<in> keys r" "\<not> bit key d" for k
    by (rule crit_bit_less [of d]) (use assms(1) mismatch_step(3) [OF assms, of k] that agree_above_sym in auto)
  then show ?thesis using l by (auto simp: below_def dest: order_less_asym)
qed

text \<open>What a walk has found: nothing below the key, and the candidate it started with, or a subtree with the largest keys below the key.\<close>

definition le_found :: "u64 \<Rightarrow> 'v node option \<Rightarrow> 'v node \<Rightarrow> 'v node option \<Rightarrow> bool" where
  "le_found key tp t res \<longleftrightarrow> below key t = {} \<and> res = tp \<or>
     (\<exists>u. res = Some u \<and> crit_ok u \<and> to_map u \<subseteq>\<^sub>m to_map t \<and> is_max (keys u) (below key t))"

lemma sub_maps:
  assumes "crit_ok (Node d l r)"
  shows "to_map l \<subseteq>\<^sub>m to_map (Node d l r)" "to_map r \<subseteq>\<^sub>m to_map (Node d l r)"
  using assms by (auto simp: map_le_def to_map_Node [OF assms] simp del: to_map.simps)

lemma le_found_right:
  assumes "crit_ok (Node d l r)" "le_found key (Some l) r res" "below key (Node d l r) = keys l \<union> below key r"
  shows "le_found key tp (Node d l r) res"
proof -
  consider "below key r = {}" "res = Some l"
    | u where "res = Some u" "crit_ok u" "to_map u \<subseteq>\<^sub>m to_map r" "is_max (keys u) (below key r)"
    using assms(2) unfolding le_found_def by blast
  then show ?thesis
  proof cases
    case 1
    then have "is_max (keys l) (below key (Node d l r))" using assms(3) by (auto simp: is_max_def)
    then show ?thesis using 1(2) assms(1) sub_maps(1) [OF assms(1)] unfolding le_found_def by auto
  next
    case 2
    obtain a where a: "a \<in> keys u" using keys_nonempty [of u] by blast
    then have ar: "a \<in> keys r" using 2(4) unfolding is_max_def below_def by blast
    have "b \<le> a" if "b \<in> keys l" for b using node_order [OF assms(1) that ar] by simp
    then have "is_max (keys u) (below key (Node d l r))" using 2(4) a unfolding assms(3) is_max_def by blast
    moreover have "to_map u \<subseteq>\<^sub>m to_map (Node d l r)" using 2(3) sub_maps(2) [OF assms(1)] map_le_trans by blast
    ultimately show ?thesis using 2(1,2) unfolding le_found_def by blast
  qed
qed

lemma le_walk_spec:
  assumes "crit_ok t" "mismatch diff key t"
  shows "le_found key tp t (case le_walk diff key tp t of (tp', s) \<Rightarrow> if bit key diff then Some s else tp')"
  using assms
proof (induction t arbitrary: tp)
  case (Leaf k v)
  show ?case using stop_below [OF Leaf] by (auto simp: le_found_def is_max_def)
next
  case (Node d l r)
  show ?case
  proof (cases "d < diff")
    case True
    show ?thesis using stop_below [OF Node.prems] True Node.prems(1) by (auto simp: le_found_def is_max_def)
  next
    case False
    note m = mismatch_step(2) [OF Node.prems False] and bl = step_below [OF Node.prems False]
    have c: "crit_ok l" "crit_ok r" using Node.prems(1) by auto
    show ?thesis
    proof (cases "bit key d")
      case True
      then have "mismatch diff key r" using m by simp
      from le_found_right [OF Node.prems(1) Node.IH(2) [OF c(2) this]] show ?thesis using True False bl by simp
    next
      case bit: False
      then have "mismatch diff key l" using m by simp
      from Node.IH(1) [OF c(1) this, of tp] sub_maps(1) [OF Node.prems(1)] show ?thesis
        using bit False bl map_le_trans unfolding le_found_def by simp blast
    qed
  qed
qed

subsection \<open>Paths and removal\<close>

text \<open>A reference to a slot is the path to it from the root; \<^term>\<open>True\<close> stands for slot 1.\<close>

fun valid_path :: "bool list \<Rightarrow> 'v node \<Rightarrow> bool" where
  "valid_path [] t = True"
| "valid_path (b # p) (Leaf k v) = False"
| "valid_path (b # p) (Node d l r) = valid_path p (if b then r else l)"

fun sub_at :: "bool list \<Rightarrow> 'v node \<Rightarrow> 'v node" where
  "sub_at [] t = t"
| "sub_at (b # p) (Leaf k v) = Leaf k v"
| "sub_at (b # p) (Node d l r) = sub_at p (if b then r else l)"

fun best_path :: "u64 \<Rightarrow> 'v node \<Rightarrow> bool list" where
  "best_path key (Leaf k v) = []"
| "best_path key (Node d l r) = bit key d # best_path key (if bit key d then r else l)"

fun leftmost_path :: "'v node \<Rightarrow> bool list" where
  "leftmost_path (Leaf k v) = []"
| "leftmost_path (Node d l r) = False # leftmost_path l"

text \<open>The walk towards the place of a key, with references: where it stops, and slot 1 of the last node that was left through slot 0.\<close>

fun ge_walk :: "nat \<Rightarrow> u64 \<Rightarrow> 'v node \<Rightarrow> bool list \<times> bool list option" where
  "ge_walk diff key (Leaf k v) = ([], None)"
| "ge_walk diff key (Node d l r) =
     (if d < diff then ([], None)
      else if bit key d then (case ge_walk diff key r of (p, q) \<Rightarrow> (True # p, map_option ((#) True) q))
      else (case ge_walk diff key l of (p, q) \<Rightarrow> (False # p, Some (case q of None \<Rightarrow> [True] | Some q \<Rightarrow> False # q))))"

text \<open>Removing the leaf at a path puts its sibling in the place of its parent; removing the root leaves nothing.\<close>

fun remove_at :: "bool list \<Rightarrow> 'v node \<Rightarrow> 'v node option" where
  "remove_at [] t = None"
| "remove_at (b # p) (Leaf k v) = None"
| "remove_at (b # p) (Node d l r) =
     (if p = [] then Some (if b then l else r)
      else if b then map_option (\<lambda>r'. Node d l r') (remove_at p r) else map_option (\<lambda>l'. Node d l' r) (remove_at p l))"

lemma best_path: "valid_path (best_path key t) t \<and> sub_at (best_path key t) t = Leaf (fst (best key t)) (snd (best key t))"
  by (induction t) auto

lemma path_append: "valid_path (p @ q) t \<longleftrightarrow> valid_path p t \<and> valid_path q (sub_at p t)" "sub_at (p @ q) t = sub_at q (sub_at p t)" if "valid_path p t"
  using that by (induction p t rule: valid_path.induct) auto

lemma sub_at_ok: "crit_ok t \<Longrightarrow> valid_path p t \<Longrightarrow> crit_ok (sub_at p t) \<and> keys (sub_at p t) \<subseteq> keys t"
  by (induction p t rule: valid_path.induct) auto

lemma leftmost_path:
  assumes "crit_ok t"
  shows "valid_path (leftmost_path t) t \<and> (\<exists>v. sub_at (leftmost_path t) t = Leaf (Min (keys t)) v)"
  using assms
proof (induction t)
  case (Node d l r)
  have "Min (keys l) < Min (keys r)" by (rule node_order [OF Node.prems]) (simp_all add: Min_in)
  moreover have "Min (keys (Node d l r)) = min (Min (keys l)) (Min (keys r))" by (simp add: Min_Un)
  ultimately show ?case using Node by auto
qed simp

lemma crit_ok_shrink:
  assumes "crit_ok (Node d l r)" "crit_ok l'" "crit_ok r'" "keys l' \<subseteq> keys l" "keys r' \<subseteq> keys r"
  shows "crit_ok (Node d l' r')"
proof -
  have "keys l' \<union> keys r' \<subseteq> keys l \<union> keys r" using assms(4,5) by blast
  then show ?thesis using assms unfolding crit_ok.simps by (meson subsetD)
qed

lemma remove_at_ok:
  assumes "crit_ok t" "valid_path p t" "sub_at p t = Leaf k v"
  shows "case remove_at p t of None \<Rightarrow> t = Leaf k v | Some t' \<Rightarrow> crit_ok t' \<and> keys t' \<subseteq> keys t \<and> to_map t' = (to_map t)(k := None)"
  using assms
proof (induction p t rule: valid_path.induct)
  case (3 b p d l r)
  have c: "crit_ok l" "crit_ok r" using 3(2) by auto
  have kin: "k \<in> keys (if b then r else l)"
    using sub_at_ok [of "if b then r else l" p] c 3(3,4) by (auto split: if_splits)
  then have kb: "bit k d = b" using 3(2) by (auto split: if_splits)
  show ?case
  proof (cases "p = []")
    case True
    then have leaf: "(if b then r else l) = Leaf k v" using 3(4) by simp
    have "to_map (if b then l else r) x = ((to_map (Node d l r))(k := None)) x" for x
      using to_map_Node [OF 3(2), of x] leaf kb 3(2) to_map_None [of l x] to_map_None [of r x]
      by (auto simp del: to_map.simps split: if_splits)
    then show ?thesis using True c by (auto simp: fun_eq_iff)
  next
    case False
    have IH: "case remove_at p (if b then r else l) of None \<Rightarrow> (if b then r else l) = Leaf k v
       | Some t' \<Rightarrow> crit_ok t' \<and> keys t' \<subseteq> keys (if b then r else l) \<and> to_map t' = (to_map (if b then r else l))(k := None)"
      by (rule 3(1)) (use c 3(3,4) in auto)
    have "remove_at p (if b then r else l) \<noteq> None"
      using IH False 3(3) by (cases p) (auto split: option.splits)
    then obtain t' where t': "remove_at p (if b then r else l) = Some t'" by blast
    note r = IH [unfolded t' option.case]
    have ok: "crit_ok (if b then Node d l t' else Node d t' r)" using r c crit_ok_shrink [OF 3(2), of l t'] crit_ok_shrink [OF 3(2), of t' r] by (cases b) (simp_all del: crit_ok.simps)
    have "to_map (if b then Node d l t' else Node d t' r) x = ((to_map (Node d l r))(k := None)) x" for x
      using to_map_Node [OF 3(2), of x] ok r kb to_map_Node [of d l t' x] to_map_Node [of d t' r x]
      by (auto simp del: to_map.simps crit_ok.simps split: if_splits)
    then show ?thesis using False ok r t' by (auto simp: fun_eq_iff)
  qed
qed auto

subsection \<open>The smallest key above\<close>

definition above :: "u64 \<Rightarrow> 'v node \<Rightarrow> u64 set" where
  "above key t = {k \<in> keys t. key < k}"

definition is_min :: "u64 set \<Rightarrow> u64 set \<Rightarrow> bool" where
  "is_min A B \<longleftrightarrow> A \<subseteq> B \<and> (\<forall>b\<in>B. \<exists>a\<in>A. a \<le> b)"

lemma is_min_Min:
  assumes "is_min A B" "A \<noteq> {}" "finite B"
  shows "Min A = Min B"
proof (rule antisym)
  have fin: "finite A" using assms finite_subset by (auto simp: is_min_def)
  show "Min B \<le> Min A" using assms by (intro Min_antimono) (auto simp: is_min_def)
  have "Min B \<in> B" using assms by (intro Min_in) (auto simp: is_min_def)
  then obtain a where "a \<in> A" "a \<le> Min B" using assms(1) by (auto simp: is_min_def)
  then show "Min A \<le> Min B" using Min_le [OF fin] order_trans by blast
qed

lemma above_below: "key \<notin> keys t \<Longrightarrow> above key t = keys t - below key t"
  unfolding above_def below_def by (auto simp: order_less_le not_less)

lemma mismatch_notin: "crit_ok t \<Longrightarrow> mismatch diff key t \<Longrightarrow> key \<notin> keys t"
  using best_to_map [of t key] to_map_None [of t key] by (auto simp: mismatch_def split: if_splits)

definition ge_found :: "u64 \<Rightarrow> 'v node \<Rightarrow> bool list option \<Rightarrow> bool" where
  "ge_found key t res \<longleftrightarrow> (case res of None \<Rightarrow> above key t = {} | Some p \<Rightarrow> valid_path p t \<and> is_min (keys (sub_at p t)) (above key t))"

lemma ge_found_left:
  assumes "crit_ok (Node d l r)" "ge_found key l res" "above key (Node d l r) = above key l \<union> keys r"
  shows "ge_found key (Node d l r) (Some (case res of None \<Rightarrow> [True] | Some q \<Rightarrow> False # q))"
proof (cases res)
  case None
  then show ?thesis using assms(2,3) by (auto simp: ge_found_def is_min_def)
next
  case (Some p)
  then have p: "valid_path p l" "is_min (keys (sub_at p l)) (above key l)" using assms(2) by (auto simp: ge_found_def)
  obtain a where a: "a \<in> keys (sub_at p l)" using keys_nonempty [of "sub_at p l"] by blast
  then have "a \<in> keys l" using p(2) unfolding is_min_def above_def by blast
  then have "a \<le> b" if "b \<in> keys r" for b using node_order [OF assms(1) _ that, of a] by simp
  then have "is_min (keys (sub_at p l)) (above key (Node d l r))" using p(2) a unfolding assms(3) is_min_def by blast
  then show ?thesis using Some p(1) by (simp add: ge_found_def)
qed

lemma ge_walk_spec:
  assumes "crit_ok t" "mismatch diff key t"
  shows "ge_found key t (case ge_walk diff key t of (p, q) \<Rightarrow> if bit key diff then q else Some p)"
  using assms
proof (induction t)
  case (Leaf k v)
  show ?case using stop_below [OF Leaf] above_below [OF mismatch_notin [OF Leaf]] by (auto simp: ge_found_def is_min_def)
next
  case (Node d l r)
  note ab = above_below [OF mismatch_notin [OF Node.prems]]
  show ?case
  proof (cases "d < diff")
    case True
    show ?thesis using stop_below [OF Node.prems] True Node.prems(1) ab by (auto simp: ge_found_def is_min_def)
  next
    case False
    note m = mismatch_step(2) [OF Node.prems False] and bl = step_below [OF Node.prems False]
    have c: "crit_ok l" "crit_ok r" "key \<notin> keys l" "key \<notin> keys r" using Node.prems(1) mismatch_notin [OF Node.prems] by auto
    have disj: "keys l \<inter> keys r = {}" using Node.prems(1) by auto
    show ?thesis
    proof (cases "bit key d")
      case True
      then have IH: "ge_found key r (case ge_walk diff key r of (p, q) \<Rightarrow> if bit key diff then q else Some p)"
        using Node.IH(2) [OF c(2)] m by simp
      have "above key (Node d l r) = above key r" using bl ab True disj above_below [OF c(4)] by (auto simp: below_def)
      then show ?thesis using IH True False by (auto simp: ge_found_def split: prod.splits option.splits)
    next
      case bit: False
      then have IH: "ge_found key l (case ge_walk diff key l of (p, q) \<Rightarrow> if bit key diff then q else Some p)"
        using Node.IH(1) [OF c(1)] m by simp
      have "above key (Node d l r) = above key l \<union> keys r" using bl ab bit disj above_below [OF c(3)] by (auto simp: below_def)
      from ge_found_left [OF Node.prems(1) IH this] show ?thesis
        using bit False by (auto split: prod.splits)
    qed
  qed
qed

end
