(* ===== verification/Ctree.thy ===== *)
theory Ctree
  imports Critbit
begin

text \<open>
  The volatile crit-bit tree of libpmemobj, \<open>src/nvml/src/libpmemobj/ctree.c\<close>: a map from 64-bit keys to 64-bit values behind a mutex.
  \<open>live\<close> counts the blocks obtained by \<open>Malloc\<close> and not yet given to \<open>Free\<close>; the answers of \<open>Malloc\<close> are arguments. A call
  on a locked tree does not return (\<open>None\<close>).
\<close>

record ctree =
  root :: "u64 node option"
  locked :: bool
  live :: nat

definition EINVAL :: int where
  "EINVAL = 22"

definition ENOMEM :: int where
  "ENOMEM = 12"

definition EEXIST :: int where
  "EEXIST = 17"

definition with_lock :: "(ctree \<Rightarrow> 'r \<times> ctree) \<Rightarrow> ctree \<Rightarrow> ('r \<times> ctree) option" where
  "with_lock f t = (if locked t then None
     else let (r, t') = f (t\<lparr>locked := True\<rparr>) in Some (r, t'\<lparr>locked := False\<rparr>))"

definition ctree_new :: "bool \<Rightarrow> ctree option" where
  "ctree_new malloc = (if malloc then Some \<lparr>root = None, locked = False, live = 0\<rparr> else None)"

fun ctree_free_internal_recursive :: "u64 node \<Rightarrow> nat \<Rightarrow> nat" where
  "ctree_free_internal_recursive (Node d l r) n =
     ctree_free_internal_recursive r (ctree_free_internal_recursive l n) - 1"
| "ctree_free_internal_recursive (Leaf k v) n = n - 1"

definition ctree_delete :: "ctree \<Rightarrow> nat" where
  "ctree_delete t = (case root t of Some n \<Rightarrow> ctree_free_internal_recursive n (live t) | None \<Rightarrow> live t)"

definition ctree_insert_unlocked :: "bool \<Rightarrow> bool \<Rightarrow> u64 \<Rightarrow> u64 \<Rightarrow> ctree \<Rightarrow> int \<times> ctree" where
  "ctree_insert_unlocked malloc_leaf malloc_node key val t =
     (if \<not> malloc_leaf then (ENOMEM, t)
      else let t = t\<lparr>live := live t + 1\<rparr>
      in case root t of
           None \<Rightarrow> (0, t\<lparr>root := Some (Leaf key val)\<rparr>)
         | Some n \<Rightarrow>
             if \<not> malloc_node then (ENOMEM, t\<lparr>live := live t - 1\<rparr>)
             else let t = t\<lparr>live := live t + 1\<rparr>; dstkey = fst (best key n)
             in if dstkey = key then (EEXIST, t\<lparr>live := live t - 2\<rparr>)
                else (0, t\<lparr>root := Some (insert_at (find_crit_bit dstkey key) key val n)\<rparr>))"

definition ctree_insert :: "bool \<Rightarrow> bool \<Rightarrow> u64 \<Rightarrow> u64 \<Rightarrow> ctree \<Rightarrow> (int \<times> ctree) option" where
  "ctree_insert malloc_leaf malloc_node key val = with_lock (ctree_insert_unlocked malloc_leaf malloc_node key val)"

definition ctree_find_unlocked :: "u64 \<Rightarrow> ctree \<Rightarrow> u64" where
  "ctree_find_unlocked key t =
     (case root t of Some n \<Rightarrow> (if fst (best key n) = key then key else 0) | None \<Rightarrow> 0)"

definition ctree_find :: "u64 \<Rightarrow> ctree \<Rightarrow> (u64 \<times> ctree) option" where
  "ctree_find key = with_lock (\<lambda>t. (ctree_find_unlocked key t, t))"

definition ctree_find_le_unlocked :: "u64 \<Rightarrow> ctree \<Rightarrow> u64 \<times> u64" where
  "ctree_find_le_unlocked key t =
     (case root t of
        None \<Rightarrow> (0, 0)
      | Some n \<Rightarrow>
          if fst (best key n) = key then best key n
          else let diff = find_crit_bit (fst (best key n)) key;
                   (tp, stop) = le_walk diff key None n;
                   dst = (if \<not> bit key diff then tp else Some stop)
               in case map_option rightmost dst of
                    None \<Rightarrow> (0, 0)
                  | Some (k, v) \<Rightarrow> if k > key then (0, 0) else (k, v))"

definition ctree_find_le :: "u64 \<Rightarrow> ctree \<Rightarrow> ((u64 \<times> u64) \<times> ctree) option" where
  "ctree_find_le key = with_lock (\<lambda>t. (ctree_find_le_unlocked key t, t))"

text \<open>The removal proper: \<open>dst\<close> is the path to a leaf, the node above it is its parent.\<close>

definition remove_leaf :: "u64 node \<Rightarrow> bool list \<Rightarrow> ctree \<Rightarrow> ctree" where
  "remove_leaf n dst t =
     (if dst = [] then t\<lparr>root := None, live := live t - 1\<rparr> else t\<lparr>root := remove_at dst n, live := live t - 2\<rparr>)"

fun key_at :: "u64 node \<Rightarrow> u64" where
  "key_at (Leaf k v) = k"
| "key_at (Node d l r) = 0"

definition ctree_remove_unlocked :: "u64 \<Rightarrow> bool \<Rightarrow> ctree \<Rightarrow> u64 \<times> ctree" where
  "ctree_remove_unlocked key eq t =
     (case root t of
        None \<Rightarrow> (0, t)
      | Some n \<Rightarrow>
          let dst = best_path key n; k = key_at (sub_at dst n)
          in if k = key then (k, remove_leaf n dst t)
             else if eq then (0, t)
             else let diff = find_crit_bit k key;
                      (stop, tp) = ge_walk diff key n;
                      dst = (if bit key diff then tp else Some stop)
                  in case dst of
                       None \<Rightarrow> (0, t)
                     | Some dst \<Rightarrow> let dst = dst @ leftmost_path (sub_at dst n) in (key_at (sub_at dst n), remove_leaf n dst t))"

definition ctree_remove :: "u64 \<Rightarrow> bool \<Rightarrow> ctree \<Rightarrow> (u64 \<times> ctree) option" where
  "ctree_remove key eq = with_lock (ctree_remove_unlocked key eq)"

definition ctree_is_empty_unlocked :: "ctree \<Rightarrow> bool" where
  "ctree_is_empty_unlocked t \<longleftrightarrow> root t = None"

definition ctree_is_empty :: "ctree \<Rightarrow> (bool \<times> ctree) option" where
  "ctree_is_empty = with_lock (\<lambda>t. (ctree_is_empty_unlocked t, t))"

subsection \<open>The map of a tree\<close>

fun node_count :: "'v node \<Rightarrow> nat" where
  "node_count (Leaf k v) = 1"
| "node_count (Node d l r) = node_count l + node_count r + 1"

definition ctree_ok :: "ctree \<Rightarrow> bool" where
  "ctree_ok t \<longleftrightarrow> (case root t of None \<Rightarrow> live t = 0 | Some n \<Rightarrow> crit_ok n \<and> live t = node_count n) \<and> \<not> locked t"

definition contents :: "ctree \<Rightarrow> u64 \<Rightarrow> u64 option" where
  "contents t = (case root t of None \<Rightarrow> Map.empty | Some n \<Rightarrow> to_map n)"

lemma contents_simps [simp]:
  "root t = None \<Longrightarrow> contents t = Map.empty" "root t = Some n \<Longrightarrow> contents t = to_map n"
  "contents (t\<lparr>locked := b\<rparr>) = contents t" "contents (t\<lparr>live := m\<rparr>) = contents t"
  by (simp_all add: contents_def)

lemma finite_contents [simp]: "finite (dom (contents t))"
  by (cases "root t") (simp_all del: contents_simps add: contents_def)

lemma node_count_insert_at: "node_count (insert_at diff key v n) = node_count n + 2"
  by (induction n) auto

lemma node_count_remove_at:
  "valid_path p n \<Longrightarrow> sub_at p n = Leaf k v \<Longrightarrow> remove_at p n = Some n' \<Longrightarrow> node_count n' + 2 = node_count n"
  by (induction p n arbitrary: n' rule: valid_path.induct) (auto split: if_splits)

lemma free_all: "ctree_free_internal_recursive n m = m - node_count n"
  by (induction n arbitrary: m) auto

lemma insert_spec:
  assumes "ctree_ok (t\<lparr>locked := False\<rparr>)"
  shows "ctree_insert_unlocked ml mn key val t =
      (if \<not> ml \<or> contents t \<noteq> Map.empty \<and> \<not> mn then (ENOMEM, t) else if key \<in> dom (contents t) then (EEXIST, t)
       else (0, snd (ctree_insert_unlocked True True key val t))) \<and>
    (key \<notin> dom (contents t) \<longrightarrow> (let t' = snd (ctree_insert_unlocked True True key val t) in
       contents t' = (contents t)(key \<mapsto> val) \<and> ctree_ok (t'\<lparr>locked := False\<rparr>) \<and> locked t' = locked t))"
proof (cases "root t")
  case None
  then show ?thesis using assms by (auto simp: ctree_insert_unlocked_def contents_def ctree_ok_def Let_def)
next
  case (Some n)
  then have n: "crit_ok n" "live t = node_count n" using assms by (simp_all add: ctree_ok_def)
  have ne: "to_map n \<noteq> Map.empty" using keys_nonempty [of n] dom_to_map [of n] by (metis dom_empty)
  have dup: "fst (best key n) = key \<longleftrightarrow> key \<in> dom (contents t)"
    using best_key [OF n(1), of key] Some by simp
  have "insert_at (find_crit_bit (fst (best key n)) key) key val n = n' \<Longrightarrow> key \<notin> dom (contents t) \<Longrightarrow>
      crit_ok n' \<and> to_map n' = (to_map n)(key \<mapsto> val) \<and> node_count n' = node_count n + 2" for n'
    using insert_at_ok [OF n(1) mismatch_crit_bit, of key val] find_crit_bit(1) [of "fst (best key n)" key] dup
    by (auto simp: node_count_insert_at simp del: fun_upd_apply)
  then show ?thesis
    using Some n ne dup
    by (auto simp: ctree_insert_unlocked_def ctree_ok_def Let_def simp del: fun_upd_apply)
qed

lemma find_spec:
  assumes "ctree_ok (t\<lparr>locked := False\<rparr>)"
  shows "ctree_find_unlocked key t = (if key \<in> dom (contents t) then key else 0)"
  using assms best_key [of _ key] by (cases "root t") (auto simp: ctree_find_unlocked_def ctree_ok_def)

lemma find_le_spec:
  assumes "ctree_ok (t\<lparr>locked := False\<rparr>)"
  shows "ctree_find_le_unlocked key t =
    (let S = {k \<in> dom (contents t). k \<le> key} in if S = {} then (0, 0) else (Max S, the (contents t (Max S))))"
proof (cases "root t")
  case (Some n)
  then have n: "crit_ok n" using assms by (simp add: ctree_ok_def)
  show ?thesis
  proof (cases "fst (best key n) = key")
    case True
    then have "key \<in> keys n" using best_key [OF n] by simp
    then have "Max {k \<in> keys n. k \<le> key} = key" by (intro Max_eqI) auto
    then show ?thesis using Some True \<open>key \<in> keys n\<close> best_value [OF n, of key] by (cases "best key n") (auto simp: ctree_find_le_unlocked_def Let_def)
  next
    case False
    let ?d = "find_crit_bit (fst (best key n)) key"
    have "key \<notin> keys n" using False best_key [OF n] by simp
    then have S: "{k \<in> dom (contents t). k \<le> key} = below key n" using Some by (auto simp: below_def order_less_le)
    have "le_found key None n (case le_walk ?d key None n of (tp', s) \<Rightarrow> if bit key ?d then Some s else tp')"
      by (rule le_walk_spec [OF n mismatch_crit_bit [OF False]])
    moreover obtain tp s where w: "le_walk ?d key None n = (tp, s)" by fastforce
    ultimately consider "below key n = {}" "(if bit key ?d then Some s else tp) = None"
      | u where "(if bit key ?d then Some s else tp) = Some u" "crit_ok u" "to_map u \<subseteq>\<^sub>m to_map n" "is_max (keys u) (below key n)"
      unfolding le_found_def by auto
    then show ?thesis
    proof cases
      case 1
      then show ?thesis using Some False w S by (simp add: ctree_find_le_unlocked_def Let_def split: if_splits)
    next
      case 2
      have fin: "finite (below key n)" by (simp add: below_def)
      note r = rightmost_Max [OF 2(2)] and mx = is_max_Max [OF 2(4) keys_nonempty fin]
      have ne: "below key n \<noteq> {}" using 2(4) keys_nonempty [of u] by (auto simp: is_max_def)
      then have "Max (below key n) \<in> below key n" using fin by (rule Max_in [rotated])
      then have "Max (below key n) \<le> key" unfolding below_def by (auto intro: order_less_imp_le)
      moreover have "to_map n (Max (below key n)) = Some (snd (rightmost u))"
        using r mx 2(3) unfolding map_le_def by (metis domI)
      moreover have "rightmost u = (Max (below key n), snd (rightmost u))" using r mx by (metis prod.collapse)
      ultimately obtain M x where M: "Max (below key n) = M" "\<not> key < M" "to_map n M = Some x" "rightmost u = (M, x)"
        by (metis leD)
      have "ctree_find_le_unlocked key t = (M, x)"
        using Some False w 2(1) M(2,4) by (simp add: ctree_find_le_unlocked_def Let_def split: if_splits)
      then show ?thesis unfolding S Let_def M(1) using Some ne M(3) by simp
    qed
  qed
qed (simp add: ctree_find_le_unlocked_def)

lemma remove_leaf_spec:
  assumes "ctree_ok (t\<lparr>locked := False\<rparr>)" "root t = Some n" "valid_path p n" "sub_at p n = Leaf k v"
  shows "contents (remove_leaf n p t) = (contents t)(k := None) \<and> ctree_ok ((remove_leaf n p t)\<lparr>locked := False\<rparr>) \<and>
    locked (remove_leaf n p t) = locked t"
proof -
  have n: "crit_ok n" "live t = node_count n" using assms(1,2) by (simp_all add: ctree_ok_def)
  note r = remove_at_ok [OF n(1) assms(3,4)]
  show ?thesis
  proof (cases "remove_at p n")
    case None
    with r assms(3) have "p = []" "n = Leaf k v" by (cases p; auto)+
    then show ?thesis using assms n by (auto simp: remove_leaf_def ctree_ok_def contents_def)
  next
    case (Some n')
    then have "p \<noteq> []" by auto
    then show ?thesis using assms n Some r node_count_remove_at [OF assms(3,4) Some]
      by (auto simp: remove_leaf_def ctree_ok_def)
  qed
qed

lemma remove_spec:
  assumes "ctree_ok (t\<lparr>locked := False\<rparr>)"
  shows "let S = {k \<in> dom (contents t). if eq then k = key else key \<le> k}; (k, t') = ctree_remove_unlocked key eq t in
    (if S = {} then k = 0 \<and> t' = t
     else k = Min S \<and> contents t' = (contents t)(k := None) \<and> ctree_ok (t'\<lparr>locked := False\<rparr>) \<and> locked t' = locked t)"
proof (cases "root t")
  case None
  then show ?thesis by (simp add: ctree_remove_unlocked_def)
next
  case (Some n)
  then have n: "crit_ok n" using assms by (simp add: ctree_ok_def)
  let ?b = "fst (best key n)"
  note bp = best_path [of key n]
  show ?thesis
  proof (cases "?b = key")
    case True
    then have "key \<in> keys n" using best_key [OF n] by simp
    then have "Min {k \<in> keys n. if eq then k = key else key \<le> k} = key" by (intro Min_eqI) (auto split: if_splits)
    moreover have "ctree_remove_unlocked key eq t = (key, remove_leaf n (best_path key n) t)"
      using Some True bp by (simp add: ctree_remove_unlocked_def)
    ultimately show ?thesis
      using remove_leaf_spec [OF assms Some conjunct1 [OF bp] conjunct2 [OF bp]] Some True \<open>key \<in> keys n\<close> by (auto simp: Let_def)
  next
    case False
    let ?d = "find_crit_bit ?b key"
    have nk: "key \<notin> keys n" using False best_key [OF n] by simp
    show ?thesis
    proof (cases eq)
      case True
      then show ?thesis using Some False bp nk by (auto simp: ctree_remove_unlocked_def)
    next
      case neq: False
      have S: "{k \<in> dom (contents t). if eq then k = key else key \<le> k} = above key n"
        using Some nk neq by (auto simp: above_def order_less_le)
      obtain stop tp where w: "ge_walk ?d key n = (stop, tp)" by fastforce
      have g: "ge_found key n (if bit key ?d then tp else Some stop)"
        using ge_walk_spec [OF n mismatch_crit_bit [OF False]] w by simp
      have rm: "ctree_remove_unlocked key eq t = (case (if bit key ?d then tp else Some stop) of None \<Rightarrow> (0, t)
          | Some dst \<Rightarrow> let dst = dst @ leftmost_path (sub_at dst n) in (key_at (sub_at dst n), remove_leaf n dst t))"
        using Some False bp neq w by (simp add: ctree_remove_unlocked_def Let_def split: option.split)
      show ?thesis
      proof (cases "if bit key ?d then tp else Some stop")
        case None
        then have "above key n = {}" using g by (simp only: ge_found_def option.case)
        then show ?thesis unfolding rm S None by simp
      next
        case (Some p)
        then have p: "valid_path p n" "is_min (keys (sub_at p n)) (above key n)" using g by (simp_all only: ge_found_def option.case)
        note sub = sub_at_ok [OF n p(1)]
        obtain v where lm: "valid_path (leftmost_path (sub_at p n)) (sub_at p n)"
            "sub_at (leftmost_path (sub_at p n)) (sub_at p n) = Leaf (Min (keys (sub_at p n))) v"
          using leftmost_path [OF conjunct1 [OF sub]] by blast
        have mn: "Min (keys (sub_at p n)) = Min (above key n)" by (rule is_min_Min [OF p(2) keys_nonempty]) (simp add: above_def)
        have dst: "valid_path (p @ leftmost_path (sub_at p n)) n" "sub_at (p @ leftmost_path (sub_at p n)) n = Leaf (Min (above key n)) v"
          using path_append [OF p(1)] p(1) lm mn by simp_all
        have "above key n \<noteq> {}" using p(2) keys_nonempty [of "sub_at p n"] by (auto simp: is_min_def)
        then show ?thesis
          using remove_leaf_spec [OF assms \<open>root t = Some n\<close> dst] dst(2) unfolding rm S Some by (simp add: Let_def)
      qed
    qed
  qed
qed

subsection \<open>Sequences of calls\<close>

datatype cop = Insert u64 u64 bool bool | Find u64 | Find_le u64 | Remove u64 bool | Is_empty

datatype cres = Code int | Key u64 | Entry "u64 \<times> u64" | Flag bool

fun call :: "cop \<Rightarrow> ctree \<Rightarrow> (cres \<times> ctree) option" where
  "call (Insert key val ml mn) t = map_option (map_prod Code id) (ctree_insert ml mn key val t)"
| "call (Find key) t = map_option (map_prod Key id) (ctree_find key t)"
| "call (Find_le key) t = map_option (map_prod Entry id) (ctree_find_le key t)"
| "call (Remove key eq) t = map_option (map_prod Key id) (ctree_remove key eq t)"
| "call Is_empty t = map_option (map_prod Flag id) (ctree_is_empty t)"

text \<open>The same calls on a map: the specification.\<close>

definition eligible :: "u64 \<Rightarrow> bool \<Rightarrow> (u64 \<Rightarrow> u64 option) \<Rightarrow> u64 set" where
  "eligible key eq m = {k \<in> dom m. if eq then k = key else key \<le> k}"

fun spec_call :: "cop \<Rightarrow> (u64 \<Rightarrow> u64 option) \<Rightarrow> cres \<times> (u64 \<Rightarrow> u64 option)" where
  "spec_call (Insert key val ml mn) m =
     (if \<not> ml \<or> m \<noteq> Map.empty \<and> \<not> mn then (Code ENOMEM, m) else if key \<in> dom m then (Code EEXIST, m) else (Code 0, m(key \<mapsto> val)))"
| "spec_call (Find key) m = (Key (if key \<in> dom m then key else 0), m)"
| "spec_call (Find_le key) m =
     (let S = {k \<in> dom m. k \<le> key} in (Entry (if S = {} then (0, 0) else (Max S, the (m (Max S)))), m))"
| "spec_call (Remove key eq) m =
     (if eligible key eq m = {} then (Key 0, m) else (Key (Min (eligible key eq m)), m(Min (eligible key eq m) := None)))"
| "spec_call Is_empty m = (Flag (m = Map.empty), m)"

fun calls :: "cop list \<Rightarrow> ctree \<Rightarrow> (cres list \<times> ctree) option" where
  "calls [] t = Some ([], t)"
| "calls (c # cs) t = Option.bind (call c t) (\<lambda>(r, t). map_option (map_prod ((#) r) id) (calls cs t))"

fun spec_calls :: "cop list \<Rightarrow> (u64 \<Rightarrow> u64 option) \<Rightarrow> cres list \<times> (u64 \<Rightarrow> u64 option)" where
  "spec_calls [] m = ([], m)"
| "spec_calls (c # cs) m = (let (r, m) = spec_call c m; (rs, m) = spec_calls cs m in (r # rs, m))"

lemma with_lock_ok:
  assumes "ctree_ok t" "f (t\<lparr>locked := True\<rparr>) = (r, t')" "ctree_ok (t'\<lparr>locked := False\<rparr>)"
  shows "with_lock f t = Some (r, t'\<lparr>locked := False\<rparr>)"
  using assms by (simp add: with_lock_def ctree_ok_def)

lemma unlocked: "ctree_ok t \<Longrightarrow> t\<lparr>locked := False\<rparr> = t" "ctree_ok t \<Longrightarrow> \<not> locked t"
  by (cases t; simp add: ctree_ok_def)+

lemma empty_iff: "ctree_is_empty_unlocked t \<longleftrightarrow> contents t = Map.empty"
proof (cases "root t")
  case (Some n)
  have "to_map n \<noteq> Map.empty" using keys_nonempty [of n] dom_to_map [of n] by (metis dom_empty)
  then show ?thesis using Some by (simp add: ctree_is_empty_unlocked_def)
qed (simp add: ctree_is_empty_unlocked_def)

lemma call_refines:
  assumes "ctree_ok t"
  shows "\<exists>t'. call c t = Some (fst (spec_call c (contents t)), t') \<and> ctree_ok t' \<and> contents t' = snd (spec_call c (contents t))"
proof -
  let ?t = "t\<lparr>locked := True\<rparr>"
  have ok: "ctree_ok (?t\<lparr>locked := False\<rparr>)" "ctree_ok (t\<lparr>locked := False\<rparr>)" using assms by (simp_all add: unlocked)
  show ?thesis
  proof (cases c)
    case (Insert key val ml mn)
    obtain r t' where i: "ctree_insert_unlocked ml mn key val ?t = (r, t')" by fastforce
    have "Code r = fst (spec_call c (contents t)) \<and> ctree_ok (t'\<lparr>locked := False\<rparr>) \<and> contents t' = snd (spec_call c (contents t))"
      using insert_spec [OF ok(1), of ml mn key val] i Insert ok by (auto simp: Let_def split: if_splits)
    then show ?thesis using with_lock_ok [of t "ctree_insert_unlocked ml mn key val"] assms i Insert by (auto simp: ctree_insert_def)
  next
    case (Find key)
    then show ?thesis using find_spec [OF ok(1), of key] assms by (simp add: ctree_find_def with_lock_def unlocked)
  next
    case (Find_le key)
    then show ?thesis using find_le_spec [OF ok(1), of key] assms
      by (auto simp: ctree_find_le_def with_lock_def unlocked Let_def)
  next
    case (Remove key eq)
    obtain r t' where i: "ctree_remove_unlocked key eq ?t = (r, t')" by fastforce
    have "Key r = fst (spec_call c (contents t)) \<and> ctree_ok (t'\<lparr>locked := False\<rparr>) \<and> contents t' = snd (spec_call c (contents t))"
      using remove_spec [OF ok(1), of eq key] i Remove ok by (auto simp: Let_def eligible_def split: if_splits)
    then show ?thesis using with_lock_ok [of t "ctree_remove_unlocked key eq"] assms i Remove by (auto simp: ctree_remove_def)
  next
    case Is_empty
    then show ?thesis using assms empty_iff [of ?t] by (simp add: ctree_is_empty_def with_lock_def unlocked)
  qed
qed

lemma calls_refine:
  assumes "ctree_ok t"
  shows "\<exists>t'. calls cs t = Some (fst (spec_calls cs (contents t)), t') \<and> ctree_ok t' \<and> contents t' = snd (spec_calls cs (contents t))"
  using assms
proof (induction cs arbitrary: t)
  case (Cons c cs)
  obtain t1 where t1: "call c t = Some (fst (spec_call c (contents t)), t1)" "ctree_ok t1" "contents t1 = snd (spec_call c (contents t))"
    using call_refines [OF Cons.prems] by blast
  from Cons.IH [OF t1(2)] t1 show ?case by (auto simp: split_beta Let_def)
qed simp

text \<open>C28: A crit-bit tree is a map ordered by its keys. Whatever calls are made on a new tree, and whichever allocations fail, every call
  returns what the specification on maps returns, including the largest key not above and the smallest key not below a given one, the
  tree holds that map, and deleting it frees every block that was allocated.\<close>

theorem ctree_refines_map:
  "\<exists>t. Option.bind (ctree_new True) (calls cs) = Some (fst (spec_calls cs Map.empty), t) \<and>
     contents t = snd (spec_calls cs Map.empty) \<and> ctree_delete t = 0"
proof -
  obtain t0 where t0: "ctree_new True = Some t0" "ctree_ok t0" "contents t0 = Map.empty"
    by (simp add: ctree_new_def ctree_ok_def contents_def)
  obtain t where t: "calls cs t0 = Some (fst (spec_calls cs Map.empty), t)" "ctree_ok t" "contents t = snd (spec_calls cs Map.empty)"
    using calls_refine [OF t0(2), of cs] t0(3) by auto
  have "ctree_delete t = 0" using t(2) by (auto simp: ctree_delete_def ctree_ok_def free_all split: option.splits)
  with t t0 show ?thesis by simp
qed

end
