(* ===== verification/Bucket.thy ===== *)
theory Bucket
  imports Ctree "HOL-Library.Product_Lexorder"
begin

text \<open>
  Buckets of memory blocks, \<open>src/nvml/src/libpmemobj/bucket.c\<close>. A bucket keeps its free blocks in a container that it calls through a
  table of operations; the only container is the crit-bit tree of \<open>Ctree\<close>, whose keys pack the four fields of a block so that
  the order of keys is the order by size. The contract of a container is the locale \<open>block_container\<close>.
\<close>

type_synonym u32 = "32 word"

type_synonym u16 = "16 word"

record memory_block =
  chunk_id :: u32
  zone_id :: u32
  size_idx :: u32
  block_off :: u16

subsection \<open>Keys\<close>

definition CHUNK_KEY_PACK :: "u32 \<Rightarrow> u32 \<Rightarrow> u16 \<Rightarrow> u32 \<Rightarrow> u64" where
  "CHUNK_KEY_PACK z c b s = push_bit 48 (ucast s) OR push_bit 32 (ucast b) OR push_bit 16 (ucast c) OR ucast z"

definition CHUNK_KEY_GET_ZONE_ID :: "u64 \<Rightarrow> u16" where
  "CHUNK_KEY_GET_ZONE_ID k = ucast (k AND 0xFFFF)"

definition CHUNK_KEY_GET_CHUNK_ID :: "u64 \<Rightarrow> u16" where
  "CHUNK_KEY_GET_CHUNK_ID k = ucast (drop_bit 16 (k AND 0xFFFF0000))"

definition CHUNK_KEY_GET_BLOCK_OFF :: "u64 \<Rightarrow> u16" where
  "CHUNK_KEY_GET_BLOCK_OFF k = ucast (drop_bit 32 (k AND 0xFFFF00000000))"

definition CHUNK_KEY_GET_SIZE_IDX :: "u64 \<Rightarrow> u16" where
  "CHUNK_KEY_GET_SIZE_IDX k = ucast (drop_bit 48 (k AND 0xFFFF000000000000))"

definition pack :: "memory_block \<Rightarrow> u64" where
  "pack m = CHUNK_KEY_PACK (zone_id m) (chunk_id m) (block_off m) (size_idx m)"

subsection \<open>Containers\<close>

datatype block_container_type = CONTAINER_UNKNOWN | CONTAINER_CTREE

record block_container_ctree =
  bc_type :: block_container_type
  bc_unit_size :: u64
  tree :: ctree

record 'c block_container_ops =
  c_insert :: "bool \<Rightarrow> bool \<Rightarrow> memory_block \<Rightarrow> 'c \<Rightarrow> (int \<times> 'c) option"
  c_get_rm_exact :: "memory_block \<Rightarrow> 'c \<Rightarrow> (int \<times> 'c) option"
  c_get_rm_bestfit :: "memory_block \<Rightarrow> 'c \<Rightarrow> ((int \<times> memory_block) \<times> 'c) option"
  c_get_exact :: "memory_block \<Rightarrow> 'c \<Rightarrow> (int \<times> 'c) option"
  c_is_empty :: "'c \<Rightarrow> (bool \<times> 'c) option"

definition on_tree :: "(ctree \<Rightarrow> ('r \<times> ctree) option) \<Rightarrow> block_container_ctree \<Rightarrow> ('r \<times> block_container_ctree) option" where
  "on_tree f c = map_option (\<lambda>(r, t). (r, c\<lparr>tree := t\<rparr>)) (f (tree c))"

definition bucket_tree_insert_block :: "bool \<Rightarrow> bool \<Rightarrow> memory_block \<Rightarrow> block_container_ctree \<Rightarrow> (int \<times> block_container_ctree) option" where
  "bucket_tree_insert_block malloc_leaf malloc_node m = on_tree (ctree_insert malloc_leaf malloc_node (pack m) 0)"

definition bucket_tree_get_rm_block_bestfit :: "memory_block \<Rightarrow> block_container_ctree \<Rightarrow>
    ((int \<times> memory_block) \<times> block_container_ctree) option" where
  "bucket_tree_get_rm_block_bestfit m c =
     map_option (\<lambda>(key, c). (if key = 0 then (ENOMEM, m)
         else (0, \<lparr>chunk_id = ucast (CHUNK_KEY_GET_CHUNK_ID key), zone_id = ucast (CHUNK_KEY_GET_ZONE_ID key),
                   size_idx = ucast (CHUNK_KEY_GET_SIZE_IDX key), block_off = CHUNK_KEY_GET_BLOCK_OFF key\<rparr>), c))
       (on_tree (ctree_remove (pack m) False) c)"

definition bucket_tree_get_rm_block_exact :: "memory_block \<Rightarrow> block_container_ctree \<Rightarrow> (int \<times> block_container_ctree) option" where
  "bucket_tree_get_rm_block_exact m c =
     map_option (\<lambda>(key, c). (if key = 0 then ENOMEM else 0, c)) (on_tree (ctree_remove (pack m) True) c)"

definition bucket_tree_get_block_exact :: "memory_block \<Rightarrow> block_container_ctree \<Rightarrow> (int \<times> block_container_ctree) option" where
  "bucket_tree_get_block_exact m c =
     map_option (\<lambda>(key, c). (if key = pack m then 0 else ENOMEM, c)) (on_tree (ctree_find (pack m)) c)"

definition bucket_tree_is_empty :: "block_container_ctree \<Rightarrow> (bool \<times> block_container_ctree) option" where
  "bucket_tree_is_empty = on_tree ctree_is_empty"

definition container_ctree_ops :: "block_container_ctree block_container_ops" where
  "container_ctree_ops = \<lparr>c_insert = bucket_tree_insert_block, c_get_rm_exact = bucket_tree_get_rm_block_exact,
     c_get_rm_bestfit = bucket_tree_get_rm_block_bestfit, c_get_exact = bucket_tree_get_block_exact, c_is_empty = bucket_tree_is_empty\<rparr>"

definition bucket_tree_create :: "bool \<Rightarrow> bool \<Rightarrow> u64 \<Rightarrow> block_container_ctree option" where
  "bucket_tree_create malloc malloc_tree unit_size =
     (if \<not> malloc then None
      else map_option (\<lambda>t. \<lparr>bc_type = CONTAINER_CTREE, bc_unit_size = unit_size, tree = t\<rparr>) (ctree_new malloc_tree))"

text \<open>The number of blocks that are still allocated after a container has been deleted.\<close>

definition bucket_tree_delete :: "block_container_ctree \<Rightarrow> nat" where
  "bucket_tree_delete c = ctree_delete (tree c)"

subsection \<open>Buckets\<close>

definition CHUNKSIZE :: nat where "CHUNKSIZE = 1024 * 256"
definition BITS_PER_VALUE :: nat where "BITS_PER_VALUE = 64"
definition RUN_METASIZE :: nat where "RUN_METASIZE = 40 * 8"
definition MAX_BITMAP_VALUES :: nat where "MAX_BITMAP_VALUES = 40 - 2"
definition RUN_BITMAP_SIZE :: nat where "RUN_BITMAP_SIZE = BITS_PER_VALUE * MAX_BITMAP_VALUES"
definition RUNSIZE :: nat where "RUNSIZE = CHUNKSIZE - RUN_METASIZE"

datatype bucket_type = BUCKET_UNKNOWN | BUCKET_HUGE | BUCKET_RUN

record bucket_run =
  bitmap_lastval :: u64
  bitmap_nval :: nat
  bitmap_nallocs :: nat
  unit_max :: u32

record bucket =
  b_type :: bucket_type
  b_id :: "8 word"
  b_unit_size :: u64
  b_run :: "bucket_run option"
  b_container :: block_container_ctree
  b_ops :: "block_container_ctree block_container_ops"

definition RUN_NALLOCS :: "u64 \<Rightarrow> nat" where
  "RUN_NALLOCS bs = RUNSIZE div unat bs"

definition bucket_run_create :: "u64 \<Rightarrow> u32 \<Rightarrow> bucket_run" where
  "bucket_run_create unit_size umax =
     (let nallocs = RUN_NALLOCS unit_size;
          unused_bits = RUN_BITMAP_SIZE - nallocs;
          unused_values = unused_bits div BITS_PER_VALUE;
          nval = MAX_BITMAP_VALUES - unused_values;
          unused_bits = unused_bits - unused_values * BITS_PER_VALUE;
          lastval = (if unused_bits \<noteq> 0 then push_bit (BITS_PER_VALUE - unused_bits) (push_bit unused_bits 1 - 1) else 0)
      in \<lparr>bitmap_lastval = lastval, bitmap_nval = nval, bitmap_nallocs = nallocs, unit_max = umax\<rparr>)"

definition bucket_calc_units :: "bucket \<Rightarrow> u64 \<Rightarrow> u32" where
  "bucket_calc_units b sz = ucast ((sz - 1) div b_unit_size b + 1)"

text \<open>The tables \<open>bucket_types\<close> and \<open>block_containers\<close> hold NULL for the unknown types; calling such an entry is \<open>None\<close>, and the
  inner option is the returned pointer.\<close>

definition bucket_new :: "bool \<Rightarrow> bool \<Rightarrow> bool \<Rightarrow> 8 word \<Rightarrow> bucket_type \<Rightarrow> block_container_type \<Rightarrow> u64 \<Rightarrow> u32 \<Rightarrow> bucket option option" where
  "bucket_new malloc_bucket malloc_container malloc_tree bid type ctype unit_size umax =
     (if type = BUCKET_UNKNOWN then None
      else if \<not> malloc_bucket then Some None
      else if ctype = CONTAINER_UNKNOWN then None
      else Some (map_option
        (\<lambda>c. \<lparr>b_type = type, b_id = bid, b_unit_size = unit_size,
              b_run = (if type = BUCKET_RUN then Some (bucket_run_create unit_size umax) else None),
              b_container = c\<lparr>bc_unit_size := unit_size\<rparr>, b_ops = container_ctree_ops\<rparr>)
        (bucket_tree_create malloc_container malloc_tree unit_size)))"

definition bucket_delete :: "bucket \<Rightarrow> nat" where
  "bucket_delete b = bucket_tree_delete (b_container b)"

subsection \<open>Packing\<close>

lemma or_high_low:
  fixes A B :: int
  assumes "0 \<le> B" "B < 2 ^ n"
  shows "push_bit n A OR B = A * 2 ^ n + B"
proof -
  have "take_bit n B = B" using assms by (simp add: take_bit_int_eq_self_iff)
  then have "\<not> bit B i" if "n \<le> i" for i using that by (metis bit_take_bit_iff not_less)
  then have "push_bit n A OR B = push_bit n A + B"
    by (intro disjunctive_add [symmetric]) (auto simp: bit_push_bit_iff not_le)
  then show ?thesis by (simp add: push_bit_eq_mult)
qed

definition fits :: "memory_block \<Rightarrow> bool" where
  "fits m \<longleftrightarrow> chunk_id m < 2 ^ 16 \<and> zone_id m < 2 ^ 16 \<and> size_idx m < 2 ^ 16 \<and> size_idx m \<noteq> 0"

text \<open>The order of blocks: by size, then by position.\<close>

definition block_key :: "memory_block \<Rightarrow> int \<times> int \<times> int \<times> int" where
  "block_key m = (uint (size_idx m), uint (block_off m), uint (chunk_id m), uint (zone_id m))"

lemma fits_bounds:
  assumes "fits m"
  shows "uint (chunk_id m) < 2 ^ 16" "uint (zone_id m) < 2 ^ 16" "uint (size_idx m) < 2 ^ 16" "uint (block_off m) < 2 ^ 16" "0 < uint (size_idx m)"
  using assms uint_lt2p [of "block_off m"] uint_0_iff [of "size_idx m"] uint_ge_0 [of "size_idx m"]
  by (auto simp: fits_def word_less_alt order_less_le simp del: uint_ge_0)

lemma uint_pack:
  assumes "fits m"
  shows "uint (pack m) = uint (size_idx m) * 2 ^ 48 + uint (block_off m) * 2 ^ 32 + uint (chunk_id m) * 2 ^ 16 + uint (zone_id m)"
proof -
  define z c b s where "z = zone_id m" and "c = chunk_id m" and "b = block_off m" and "s = size_idx m"
  note f = fits_bounds [OF assms, folded z_def c_def b_def s_def]
  have u: "uint (ucast s :: u64) = uint s" "uint (ucast c :: u64) = uint c" "uint (ucast z :: u64) = uint z" "uint (ucast b :: u64) = uint b"
    by (simp_all add: uint_up_ucast is_up)
  have t: "take_bit 64 (push_bit 48 (uint s)) = push_bit 48 (uint s)" "take_bit 64 (push_bit 32 (uint b)) = push_bit 32 (uint b)"
    "take_bit 64 (push_bit 16 (uint c)) = push_bit 16 (uint c)"
    using f by (simp_all add: take_bit_int_eq_self_iff push_bit_eq_mult)
  have "uint (pack m) = push_bit 48 (uint s) OR (push_bit 32 (uint b) OR (push_bit 16 (uint c) OR uint z))"
    unfolding pack_def CHUNK_KEY_PACK_def unsigned_or_eq unsigned_push_bit_eq z_def [symmetric] c_def [symmetric] b_def [symmetric] s_def [symmetric]
    using t by (simp add: u or.assoc)
  moreover have "push_bit 16 (uint c) OR uint z = uint c * 2 ^ 16 + uint z" by (rule or_high_low) (use f in simp_all)
  moreover have "push_bit 32 (uint b) OR (uint c * 2 ^ 16 + uint z) = uint b * 2 ^ 32 + (uint c * 2 ^ 16 + uint z)"
    by (rule or_high_low) (use f in simp_all)
  moreover have "push_bit 48 (uint s) OR (uint b * 2 ^ 32 + (uint c * 2 ^ 16 + uint z)) = uint s * 2 ^ 48 + (uint b * 2 ^ 32 + (uint c * 2 ^ 16 + uint z))"
    by (rule or_high_low) (use f in simp_all)
  ultimately show ?thesis by (simp add: z_def c_def b_def s_def)
qed

lemma radix_le:
  fixes A B x y M :: int
  assumes "0 \<le> x" "x < M" "0 \<le> y" "y < M"
  shows "A * M + x \<le> B * M + y \<longleftrightarrow> A < B \<or> A \<le> B \<and> x \<le> y" "A * M + x < B * M + y \<longleftrightarrow> A < B \<or> A \<le> B \<and> x < y"
proof -
  have *: "C * M + u < D * M + v" if "C < D" "u < M" "0 \<le> v" for C D u v
  proof -
    have "(C + 1) * M \<le> D * M" using that(1) assms by (intro mult_right_mono) auto
    then show ?thesis using that(2,3) by (simp add: distrib_right)
  qed
  show "A * M + x \<le> B * M + y \<longleftrightarrow> A < B \<or> A \<le> B \<and> x \<le> y" "A * M + x < B * M + y \<longleftrightarrow> A < B \<or> A \<le> B \<and> x < y"
    using * [of A B x y] * [of B A y x] assms by (cases A B rule: linorder_cases; auto)+
qed

lemma pack_le:
  assumes "fits a" "fits b"
  shows "pack a \<le> pack b \<longleftrightarrow> block_key a \<le> block_key b"
proof -
  define M :: int where "M = 65536"
  have p: "uint (pack m) = ((uint (size_idx m) * M + uint (block_off m)) * M + uint (chunk_id m)) * M + uint (zone_id m)"
    if "fits m" for m using uint_pack [OF that] by (simp add: M_def algebra_simps)
  have f: "uint (chunk_id m) < M" "uint (zone_id m) < M" "uint (block_off m) < M" if "fits m" for m
    using fits_bounds [OF that] by (simp_all add: M_def)
  show ?thesis
    unfolding word_le_def p [OF assms(1)] p [OF assms(2)] block_key_def less_eq_prod_simp
    using f [OF assms(1)] f [OF assms(2)] by (simp add: radix_le) linarith
qed

lemma pack_inj:
  assumes "fits a" "fits b" "pack a = pack b"
  shows "a = b"
proof -
  have "block_key a \<le> block_key b" "block_key b \<le> block_key a" using pack_le assms by (metis order_refl)+
  then have "block_key a = block_key b" by (rule order.antisym)
  then show ?thesis unfolding block_key_def by (intro memory_block.equality) (simp_all add: word_uint_eq_iff)
qed

lemma pack_nonzero:
  assumes "fits m"
  shows "pack m \<noteq> 0"
proof -
  have "0 < uint (pack m)"
    unfolding uint_pack [OF assms] using fits_bounds(5) [OF assms] by (intro add_pos_nonneg) simp_all
  then show ?thesis by auto
qed

text \<open>The block of a key.\<close>

definition unpack :: "u64 \<Rightarrow> memory_block" where
  "unpack key = \<lparr>chunk_id = ucast (CHUNK_KEY_GET_CHUNK_ID key), zone_id = ucast (CHUNK_KEY_GET_ZONE_ID key),
     size_idx = ucast (CHUNK_KEY_GET_SIZE_IDX key), block_off = CHUNK_KEY_GET_BLOCK_OFF key\<rparr>"

lemma key_fields:
  "uint (CHUNK_KEY_GET_ZONE_ID k) = uint k mod 2 ^ 16" "uint (CHUNK_KEY_GET_CHUNK_ID k) = uint k div 2 ^ 16 mod 2 ^ 16"
  "uint (CHUNK_KEY_GET_BLOCK_OFF k) = uint k div 2 ^ 32 mod 2 ^ 16" "uint (CHUNK_KEY_GET_SIZE_IDX k) = uint k div 2 ^ 48 mod 2 ^ 16"
proof -
  have d: "drop_bit n (k AND push_bit n (mask 16)) = take_bit 16 (drop_bit n k)" for n
    by (rule bit_eqI) (auto simp: bit_simps dest: bit_imp_le_length)
  have u: "uint (ucast (take_bit 16 (drop_bit n k)) :: u16) = uint k div 2 ^ n mod 2 ^ 16" for n
    using uint_lt2p [of k] unfolding unsigned_ucast_eq unsigned_take_bit_eq unsigned_drop_bit_eq
    by (simp add: drop_bit_eq_div take_bit_eq_mod)
  have m: "0xFFFF0000 = push_bit 16 (mask 16 :: u64)" "0xFFFF00000000 = push_bit 32 (mask 16 :: u64)" "0xFFFF000000000000 = push_bit 48 (mask 16 :: u64)"
    "0xFFFF = (mask 16 :: u64)" by (simp_all add: mask_eq_exp_minus_1 push_bit_eq_mult)
  show "uint (CHUNK_KEY_GET_ZONE_ID k) = uint k mod 2 ^ 16"
    using u [of 0] d [of 0] unfolding CHUNK_KEY_GET_ZONE_ID_def m by simp
  show "uint (CHUNK_KEY_GET_CHUNK_ID k) = uint k div 2 ^ 16 mod 2 ^ 16" unfolding CHUNK_KEY_GET_CHUNK_ID_def m d by (rule u)
  show "uint (CHUNK_KEY_GET_BLOCK_OFF k) = uint k div 2 ^ 32 mod 2 ^ 16" unfolding CHUNK_KEY_GET_BLOCK_OFF_def m d by (rule u)
  show "uint (CHUNK_KEY_GET_SIZE_IDX k) = uint k div 2 ^ 48 mod 2 ^ 16" unfolding CHUNK_KEY_GET_SIZE_IDX_def m d by (rule u)
qed

lemma unpack_pack:
  assumes "fits m"
  shows "unpack (pack m) = m"
proof -
  note f = fits_bounds [OF assms]
  define M :: int where "M = 2 ^ 16"
  have dg: "(A * M + x) mod M = x" "(A * M + x) div M = A" if "0 \<le> x" "x < M" for A x using that by (simp_all add: M_def)
  have p: "uint (pack m) = ((uint (size_idx m) * M + uint (block_off m)) * M + uint (chunk_id m)) * M + uint (zone_id m)"
    using uint_pack [OF assms] by (simp add: M_def algebra_simps)
  have d: "2 ^ 16 = M" "2 ^ 32 = M * M" "2 ^ 48 = M * (M * M)" "0 \<le> M" by (simp_all add: M_def)
  have "uint (pack m) mod 2 ^ 16 = uint (zone_id m)" "uint (pack m) div 2 ^ 16 mod 2 ^ 16 = uint (chunk_id m)"
    "uint (pack m) div 2 ^ 32 mod 2 ^ 16 = uint (block_off m)" "uint (pack m) div 2 ^ 48 mod 2 ^ 16 = uint (size_idx m)"
    using f [unfolded d(1)] d(4) unfolding p d(1-3) by (simp_all only: zdiv_zmult2_eq dg uint_ge_0 mod_pos_pos_trivial mult_nonneg_nonneg)
  then show ?thesis
    unfolding unpack_def by (intro memory_block.equality) (simp_all add: word_uint_eq_iff key_fields uint_up_ucast is_up)
qed

end
