(* ===== verification/Bucket_Props.thy ===== *)
theory Bucket_Props
  imports Bucket
begin

text \<open>
  The contract of a block container and its implementation by crit-bit trees; the calls of its clients on a set of blocks. At the end,
  the bitmap of a run that \<open>bucket_run_create\<close> computes.
\<close>

definition eligible_blocks :: "memory_block \<Rightarrow> memory_block set \<Rightarrow> memory_block set" where
  "eligible_blocks m B = {b \<in> B. block_key m \<le> block_key b}"

definition is_least :: "memory_block \<Rightarrow> memory_block set \<Rightarrow> bool" where
  "is_least b S \<longleftrightarrow> b \<in> S \<and> (\<forall>b'\<in>S. block_key b \<le> block_key b')"

locale block_container =
  fixes ops :: "'c block_container_ops"
    and inv :: "'c \<Rightarrow> bool"
    and blocks :: "'c \<Rightarrow> memory_block set"
  assumes fitting: "inv c \<Longrightarrow> b \<in> blocks c \<Longrightarrow> fits b"
    and insert_law: "inv c \<Longrightarrow> fits m \<Longrightarrow> \<exists>c'. inv c' \<and>
      c_insert ops ml mn m c = Some (if \<not> ml \<or> blocks c \<noteq> {} \<and> \<not> mn then ENOMEM else if m \<in> blocks c then EEXIST else 0, c') \<and>
      blocks c' = (if \<not> ml \<or> blocks c \<noteq> {} \<and> \<not> mn then blocks c else insert m (blocks c))"
    and rm_exact_law: "inv c \<Longrightarrow> fits m \<Longrightarrow> \<exists>c'. inv c' \<and>
      c_get_rm_exact ops m c = Some (if m \<in> blocks c then 0 else ENOMEM, c') \<and> blocks c' = blocks c - {m}"
    and bestfit_law: "inv c \<Longrightarrow> fits m \<Longrightarrow> \<exists>c'. inv c' \<and>
      (if eligible_blocks m (blocks c) = {} then c_get_rm_bestfit ops m c = Some ((ENOMEM, m), c') \<and> blocks c' = blocks c
       else \<exists>b. is_least b (eligible_blocks m (blocks c)) \<and> c_get_rm_bestfit ops m c = Some ((0, b), c') \<and> blocks c' = blocks c - {b})"
    and get_exact_law: "inv c \<Longrightarrow> fits m \<Longrightarrow> c_get_exact ops m c = Some (if m \<in> blocks c then 0 else ENOMEM, c)"
    and is_empty_law: "inv c \<Longrightarrow> c_is_empty ops c = Some (blocks c = {}, c)"

subsection \<open>Crit-bit trees as containers\<close>

definition container_ok :: "block_container_ctree \<Rightarrow> bool" where
  "container_ok c \<longleftrightarrow> ctree_ok (tree c) \<and> (\<forall>k\<in>dom (contents (tree c)). \<exists>m. fits m \<and> k = pack m)"

definition tree_blocks :: "block_container_ctree \<Rightarrow> memory_block set" where
  "tree_blocks c = {m. fits m \<and> pack m \<in> dom (contents (tree c))}"

lemma keys_blocks:
  assumes "container_ok c"
  shows "dom (contents (tree c)) = pack ` tree_blocks c"
proof
  show "dom (contents (tree c)) \<subseteq> pack ` tree_blocks c"
  proof
    fix k assume k: "k \<in> dom (contents (tree c))"
    then obtain m where "fits m" "k = pack m" using assms unfolding container_ok_def by blast
    then show "k \<in> pack ` tree_blocks c" using k unfolding tree_blocks_def by blast
  qed
qed (auto simp: tree_blocks_def)

lemma container_update:
  assumes "container_ok c" "ctree_ok t" "dom (contents t) = pack ` B" "\<And>b. b \<in> B \<Longrightarrow> fits b"
  shows "container_ok (c\<lparr>tree := t\<rparr>)" "tree_blocks (c\<lparr>tree := t\<rparr>) = B"
proof -
  show "container_ok (c\<lparr>tree := t\<rparr>)" using assms by (auto simp: container_ok_def)
  show "tree_blocks (c\<lparr>tree := t\<rparr>) = B" using assms(3,4) pack_inj by (auto simp: tree_blocks_def)
qed

lemma call_on_tree:
  assumes "container_ok c"
  obtains t' where "call op (tree c) = Some (fst (spec_call op (contents (tree c))), t')" "ctree_ok t'"
    "contents t' = snd (spec_call op (contents (tree c)))"
  using call_refines [of "tree c" op] assms unfolding container_ok_def by blast

lemma tree_block_fits: "m \<in> tree_blocks c \<Longrightarrow> fits m"
  by (simp add: tree_blocks_def)

lemma pack_in: "fits m \<Longrightarrow> pack m \<in> dom (contents (tree c)) \<longleftrightarrow> m \<in> tree_blocks c"
  by (simp add: tree_blocks_def)

lemma image_pack_minus:
  assumes "fits m"
  shows "pack ` (tree_blocks c - {m}) = pack ` tree_blocks c - {pack m}"
proof -
  have "inj_on pack (insert m (tree_blocks c))" using assms tree_block_fits pack_inj by (intro inj_onI) blast
  from inj_on_image_set_diff [OF this, of "tree_blocks c" "{m}"] show ?thesis by blast
qed

lemma contents_empty: "container_ok c \<Longrightarrow> contents (tree c) = Map.empty \<longleftrightarrow> tree_blocks c = {}"
  using keys_blocks [of c] by (metis dom_eq_empty_conv image_is_empty)

lemma tree_insert:
  assumes "container_ok c" "fits m"
  shows "\<exists>c'. container_ok c' \<and>
      bucket_tree_insert_block ml mn m c =
        Some (if \<not> ml \<or> tree_blocks c \<noteq> {} \<and> \<not> mn then ENOMEM else if m \<in> tree_blocks c then EEXIST else 0, c') \<and>
      tree_blocks c' = (if \<not> ml \<or> tree_blocks c \<noteq> {} \<and> \<not> mn then tree_blocks c else insert m (tree_blocks c))"
proof -
  let ?B = "if \<not> ml \<or> tree_blocks c \<noteq> {} \<and> \<not> mn then tree_blocks c else insert m (tree_blocks c)"
  let ?op = "Insert (pack m) 0 ml mn"
  obtain t where t: "call ?op (tree c) = Some (fst (spec_call ?op (contents (tree c))), t)" "ctree_ok t"
    "contents t = snd (spec_call ?op (contents (tree c)))" by (rule call_on_tree [OF assms(1)])
  have "dom (contents t) = pack ` ?B"
    using t(3) keys_blocks [OF assms(1)] contents_empty [OF assms(1)] pack_in [OF assms(2), of c] by (auto split: if_splits)
  note u = container_update [OF assms(1) t(2) this]
  have "bucket_tree_insert_block ml mn m c =
      Some (if \<not> ml \<or> tree_blocks c \<noteq> {} \<and> \<not> mn then ENOMEM else if m \<in> tree_blocks c then EEXIST else 0, c\<lparr>tree := t\<rparr>)"
    using t(1) contents_empty [OF assms(1)] pack_in [OF assms(2), of c]
    by (auto simp: bucket_tree_insert_block_def on_tree_def split: if_splits)
  then show ?thesis using u assms(2) tree_block_fits by (intro exI [of _ "c\<lparr>tree := t\<rparr>"]) (auto split: if_splits)
qed

lemma tree_rm_exact:
  assumes "container_ok c" "fits m"
  shows "\<exists>c'. container_ok c' \<and> bucket_tree_get_rm_block_exact m c = Some (if m \<in> tree_blocks c then 0 else ENOMEM, c') \<and>
      tree_blocks c' = tree_blocks c - {m}"
proof -
  let ?op = "Remove (pack m) True"
  obtain t where t: "call ?op (tree c) = Some (fst (spec_call ?op (contents (tree c))), t)" "ctree_ok t"
    "contents t = snd (spec_call ?op (contents (tree c)))" by (rule call_on_tree [OF assms(1)])
  have el: "eligible (pack m) True (contents (tree c)) = (if m \<in> tree_blocks c then {pack m} else {})"
    using pack_in [OF assms(2), of c] unfolding eligible_def by auto
  have "dom (contents t) = dom (contents (tree c)) - {pack m}"
    using t(3) el pack_in [OF assms(2), of c] by (cases "m \<in> tree_blocks c") auto
  then have "dom (contents t) = pack ` (tree_blocks c - {m})" using image_pack_minus [OF assms(2)] keys_blocks [OF assms(1)] by simp
  note u = container_update [OF assms(1) t(2) this]
  have "bucket_tree_get_rm_block_exact m c = Some (if m \<in> tree_blocks c then 0 else ENOMEM, c\<lparr>tree := t\<rparr>)"
    using t(1) el pack_nonzero [OF assms(2)] by (auto simp: bucket_tree_get_rm_block_exact_def on_tree_def split: if_splits)
  then show ?thesis using u tree_block_fits by (intro exI [of _ "c\<lparr>tree := t\<rparr>"]) auto
qed

lemma tree_bestfit:
  assumes "container_ok c" "fits m"
  defines "S \<equiv> eligible_blocks m (tree_blocks c)"
  shows "\<exists>c'. container_ok c' \<and>
      (if S = {} then bucket_tree_get_rm_block_bestfit m c = Some ((ENOMEM, m), c') \<and> tree_blocks c' = tree_blocks c
       else \<exists>b. is_least b S \<and> bucket_tree_get_rm_block_bestfit m c = Some ((0, b), c') \<and> tree_blocks c' = tree_blocks c - {b})"
proof -
  let ?op = "Remove (pack m) False"
  obtain t where t: "call ?op (tree c) = Some (fst (spec_call ?op (contents (tree c))), t)" "ctree_ok t"
    "contents t = snd (spec_call ?op (contents (tree c)))" by (rule call_on_tree [OF assms(1)])
  have el: "eligible (pack m) False (contents (tree c)) = pack ` S"
    unfolding eligible_def keys_blocks [OF assms(1)] S_def eligible_blocks_def
    using pack_le [OF assms(2)] tree_block_fits by (auto simp: image_iff)
  show ?thesis
  proof (cases "S = {}")
    case True
    then have "contents t = contents (tree c)" "bucket_tree_get_rm_block_bestfit m c = Some ((ENOMEM, m), c\<lparr>tree := t\<rparr>)"
      using t(1,3) el by (auto simp: bucket_tree_get_rm_block_bestfit_def on_tree_def)
    then show ?thesis using container_update [OF assms(1) t(2), of "tree_blocks c"] keys_blocks [OF assms(1)] tree_block_fits True
      by (intro exI [of _ "c\<lparr>tree := t\<rparr>"]) auto
  next
    case False
    let ?k = "Min (pack ` S)"
    have fin: "finite (pack ` S)" unfolding el [symmetric] eligible_def by simp
    then obtain b where b: "b \<in> S" "?k = pack b" using Min_in [OF fin] False by blast
    have fb: "fits b" "b \<in> tree_blocks c" using b(1) tree_block_fits by (auto simp: S_def eligible_blocks_def)
    have "block_key b \<le> block_key b'" if "b' \<in> S" for b'
    proof -
      have "pack b \<le> pack b'" using Min_le [OF fin, of "pack b'"] that b(2) by simp
      then show ?thesis using pack_le [OF fb(1)] tree_block_fits that by (auto simp: S_def eligible_blocks_def)
    qed
    then have least: "is_least b S" using b(1) by (simp add: is_least_def)
    have bf: "bucket_tree_get_rm_block_bestfit m c = Some ((0, b), c\<lparr>tree := t\<rparr>)"
      using t(1) el False b(2) pack_nonzero [OF fb(1)] unpack_pack [OF fb(1)]
      by (auto simp: bucket_tree_get_rm_block_bestfit_def on_tree_def unpack_def)
    have "dom (contents t) = pack ` (tree_blocks c - {b})"
      using t(3) el False b(2) keys_blocks [OF assms(1)] image_pack_minus [OF fb(1), of c] by simp
    from container_update [OF assms(1) t(2) this] bf least False show ?thesis
      using tree_block_fits by (intro exI [of _ "c\<lparr>tree := t\<rparr>"]) auto
  qed
qed

lemma tree_get_exact:
  assumes "container_ok c" "fits m"
  shows "bucket_tree_get_block_exact m c = Some (if m \<in> tree_blocks c then 0 else ENOMEM, c)"
  using assms find_spec [of "(tree c)\<lparr>locked := True\<rparr>" "pack m"] pack_in [OF assms(2), of c] pack_nonzero [OF assms(2)]
  by (auto simp: bucket_tree_get_block_exact_def on_tree_def ctree_find_def with_lock_def container_ok_def unlocked)

lemma tree_is_empty:
  assumes "container_ok c"
  shows "bucket_tree_is_empty c = Some (tree_blocks c = {}, c)"
  using assms empty_iff [of "(tree c)\<lparr>locked := True\<rparr>"] contents_empty [OF assms]
  by (auto simp: bucket_tree_is_empty_def on_tree_def ctree_is_empty_def with_lock_def container_ok_def unlocked)

interpretation ctree_container: block_container container_ctree_ops container_ok tree_blocks
proof (unfold_locales, goal_cases)
  case 1
  then show ?case using tree_block_fits by blast
next
  case (2 c m ml mn)
  then show ?case unfolding container_ctree_ops_def block_container_ops.simps by (rule tree_insert)
next
  case (3 c m)
  then show ?case unfolding container_ctree_ops_def block_container_ops.simps by (rule tree_rm_exact)
next
  case (4 c m)
  then show ?case unfolding container_ctree_ops_def block_container_ops.simps by (rule tree_bestfit)
next
  case (5 c m)
  then show ?case unfolding container_ctree_ops_def block_container_ops.simps by (rule tree_get_exact)
next
  case (6 c)
  then show ?case unfolding container_ctree_ops_def block_container_ops.simps by (rule tree_is_empty)
qed

subsection \<open>The bitmap of a run\<close>

text \<open>The words of the bitmap of a free run, as the heap writes them: zeros, and the last value.\<close>

definition fresh_bitmap :: "bucket_run \<Rightarrow> nat \<Rightarrow> u64" where
  "fresh_bitmap b v = (if Suc v = bitmap_nval b then bitmap_lastval b else 0)"

lemma lastval_bit:
  assumes "u < 64" "u \<noteq> 0" "i < 64"
  shows "bit (push_bit (64 - u) (push_bit u 1 - 1) :: u64) i \<longleftrightarrow> 64 - u \<le> i"
proof -
  have "push_bit u 1 - 1 = (mask u :: u64)" by (simp add: mask_eq_exp_minus_1 push_bit_eq_mult)
  then show ?thesis using assms by (auto simp: bit_push_bit_iff bit_mask_iff)
qed

lemma fresh_bitmap_bits:
  assumes "RUNSIZE div unat unit_size \<le> RUN_BITMAP_SIZE"
  shows "let b = bucket_run_create unit_size umax
    in {i. i < BITS_PER_VALUE * bitmap_nval b \<and> \<not> bit (fresh_bitmap b (i div BITS_PER_VALUE)) (i mod BITS_PER_VALUE)} =
         {..< RUNSIZE div unat unit_size} \<and>
       bitmap_nval b \<le> MAX_BITMAP_VALUES"
proof -
  define n where "n = RUNSIZE div unat unit_size"
  define w u where "w = (2432 - n) div 64" and "u = (2432 - n) mod 64"
  have n: "n \<le> 2432" using assms by (simp add: n_def RUN_BITMAP_SIZE_def BITS_PER_VALUE_def MAX_BITMAP_VALUES_def)
  have wu: "2432 - n = 64 * w + u" "u < 64" by (simp_all add: w_def u_def)
  then have w: "w \<le> 38" "64 * (38 - w) = n + u" using n by linarith+
  let ?b = "bucket_run_create unit_size umax"
  have b: "bitmap_nval ?b = 38 - w" "bitmap_lastval ?b = (if u \<noteq> 0 then push_bit (64 - u) (push_bit u 1 - 1) else 0)"
    using wu unfolding bucket_run_create_def Let_def RUN_NALLOCS_def n_def [symmetric] RUN_BITMAP_SIZE_def BITS_PER_VALUE_def MAX_BITMAP_VALUES_def
    by (simp_all flip: w_def)
  have bits: "\<not> bit (fresh_bitmap ?b (i div 64)) (i mod 64) \<longleftrightarrow> i < n" if i: "i < 64 * (38 - w)" for i
  proof (cases "Suc (i div 64) = 38 - w")
    case True
    have "i = 64 * (i div 64) + i mod 64" by simp
    then have "i + 64 = n + u + i mod 64" using True w by linarith
    then have "i < n \<longleftrightarrow> \<not> 64 - u \<le> i mod 64" using wu(2) by linarith
    then show ?thesis using True b lastval_bit [of u "i mod 64"] wu(2) by (auto simp: fresh_bitmap_def)
  next
    case False
    have "i div 64 < 38 - w" using i by (simp add: less_mult_imp_div_less mult.commute)
    then have "Suc (i div 64) < 38 - w" using False by linarith
    then have "i < n" using w wu(2) by linarith
    then show ?thesis using False b by (simp add: fresh_bitmap_def)
  qed
  have "n \<le> 64 * (38 - w)" using w by linarith
  then have "i < 64 * (38 - w) \<and> \<not> bit (fresh_bitmap ?b (i div 64)) (i mod 64) \<longleftrightarrow> i < n" for i
    using bits [of i] by (cases "i < 64 * (38 - w)") simp_all
  then have "{i. i < 64 * (38 - w) \<and> \<not> bit (fresh_bitmap ?b (i div 64)) (i mod 64)} = {..< n}"
    unfolding lessThan_def by (rule Collect_cong)
  then show ?thesis unfolding Let_def b(1) n_def [symmetric] BITS_PER_VALUE_def MAX_BITMAP_VALUES_def by simp
qed

text \<open>C29: \<open>bucket_run_create\<close> describes the bitmap of a run exactly: for a unit size whose blocks fit into the bitmap, the words it counts
  have a clear bit for each of the blocks that fit into the run and for no other position.\<close>

theorem run_bitmap_exact:
  assumes "RUNSIZE div unat unit_size \<le> RUN_BITMAP_SIZE"
  shows "let b = bucket_run_create unit_size umax
    in {i. i < BITS_PER_VALUE * bitmap_nval b \<and> \<not> bit (fresh_bitmap b (i div BITS_PER_VALUE)) (i mod BITS_PER_VALUE)} =
         {..< RUNSIZE div unat unit_size} \<and>
       bitmap_nval b \<le> MAX_BITMAP_VALUES"
  by (rule fresh_bitmap_bits [OF assms])

theorem run_bitmap_exact_witness:
  "RUNSIZE div unat (128 :: u64) \<le> RUN_BITMAP_SIZE \<and> bitmap_nval (bucket_run_create 128 8) \<le> MAX_BITMAP_VALUES \<and>
   {i. i < BITS_PER_VALUE * bitmap_nval (bucket_run_create 128 8) \<and>
       \<not> bit (fresh_bitmap (bucket_run_create 128 8) (i div BITS_PER_VALUE)) (i mod BITS_PER_VALUE)} = {..< 2045}"
proof -
  have c: "RUNSIZE div unat (128 :: u64) = 2045" "RUNSIZE div unat (128 :: u64) \<le> RUN_BITMAP_SIZE"
    by (simp_all add: RUNSIZE_def CHUNKSIZE_def RUN_METASIZE_def RUN_BITMAP_SIZE_def BITS_PER_VALUE_def MAX_BITMAP_VALUES_def)
  show ?thesis using run_bitmap_exact [OF c(2), of 8] c unfolding Let_def by simp
qed

end
