(* ===== verification/Heap_Run.thy ===== *)
theory Heap_Run
  imports Bucket_Props Pmem
begin

text \<open>
  Runs of \<open>src/nvml/src/libpmemobj/heap.c\<close>: chunks that are divided into blocks of one size, with a bitmap of the used blocks. Filling a bucket
  from a run is the list of blocks that the code inserts, in order; the results of these calls are ignored by the code and do not
  influence it, so the insertions follow in \<open>insert_blocks\<close>. A loop that does not end is \<open>None\<close>. The number of blocks of a run is a natural number: the assertions
  of the code say that it fits the 16 bits of \<open>run_bits\<close>, and the block size of a run is not zero.
\<close>

subsection \<open>Splitting a range of blocks\<close>

fun run_insert_loop :: "u32 \<Rightarrow> u32 \<Rightarrow> nat \<Rightarrow> nat \<Rightarrow> nat \<Rightarrow> nat \<Rightarrow> memory_block list option" where
  "run_insert_loop cid zid umax sz msize off =
     (let m = \<lparr>chunk_id = cid, zone_id = zid, size_idx = of_nat msize, block_off = of_nat off\<rparr>; rest = sz - msize
      in if rest = 0 then Some [m]
         else if msize = 0 then None
         else map_option ((#) m) (run_insert_loop cid zid umax rest (if rest > umax then umax else rest) (off + msize)))"

declare run_insert_loop.simps [simp del]

definition heap_run_insert :: "u32 \<Rightarrow> u32 \<Rightarrow> nat \<Rightarrow> nat \<Rightarrow> nat \<Rightarrow> memory_block list option" where
  "heap_run_insert cid zid umax sz off =
     (let msize = umax - off mod umax in run_insert_loop cid zid umax sz (if msize > sz then sz else msize) off)"

subsection \<open>Reading the bitmap of a run\<close>

text \<open>The inner loop over the bits of a word: the blocks found so far, the bit position, the number of clear bits before it, and whether the
  end of the run has been met.\<close>

record scan =
  found :: "(nat \<times> nat) list"
  pos :: nat
  clear :: nat
  at_end :: bool

definition flush_clear :: "scan \<Rightarrow> scan" where
  "flush_clear s = (if clear s \<noteq> 0 then s\<lparr>found := found s @ [(pos s - clear s, clear s)], clear := 0\<rparr> else s)"

definition scan_bit :: "u64 \<Rightarrow> nat \<Rightarrow> nat \<Rightarrow> scan \<Rightarrow> scan" where
  "scan_bit v run_bits j s =
     (if at_end s then s
      else let s = (if \<not> bit v j then s\<lparr>clear := clear s + 1\<rparr> else flush_clear s)
           in s\<lparr>pos := pos s + 1, at_end := pos s = run_bits\<rparr>)"

definition scan_word :: "(nat \<Rightarrow> u64) \<Rightarrow> nat \<Rightarrow> nat \<Rightarrow> scan \<Rightarrow> scan" where
  "scan_word bitmap run_bits i s =
     (if at_end s then s
      else let s = s\<lparr>pos := BITS_PER_VALUE * i\<rparr>
           in if bitmap i = 0 then s\<lparr>found := found s @ [(pos s, BITS_PER_VALUE)]\<rparr>
              else if bitmap i = - 1 then s
              else flush_clear (fold (scan_bit (bitmap i) run_bits) [0 ..< BITS_PER_VALUE] s))"

definition free_ranges :: "(nat \<Rightarrow> u64) \<Rightarrow> nat \<Rightarrow> nat \<Rightarrow> (nat \<times> nat) list" where
  "free_ranges bitmap nval run_bits =
     found (fold (scan_word bitmap run_bits) [0 ..< nval] \<lparr>found = [], pos = 0, clear = 0, at_end = False\<rparr>)"

fun insert_ranges :: "u32 \<Rightarrow> u32 \<Rightarrow> nat \<Rightarrow> (nat \<times> nat) list \<Rightarrow> memory_block list option" where
  "insert_ranges cid zid umax [] = Some []"
| "insert_ranges cid zid umax ((off, sz) # rs) =
     Option.bind (heap_run_insert cid zid umax sz off) (\<lambda>bs. map_option ((@) bs) (insert_ranges cid zid umax rs))"

definition run_blocks :: "(nat \<Rightarrow> u64) \<Rightarrow> bucket_run \<Rightarrow> u64 \<Rightarrow> u32 \<Rightarrow> u32 \<Rightarrow> memory_block list option" where
  "run_blocks bitmap r block_size cid zid =
     insert_ranges cid zid (unat (unit_max r)) (free_ranges bitmap (bitmap_nval r) (RUN_NALLOCS block_size))"

text \<open>Inserting blocks into a container; \<open>alloc\<close> tells for which blocks the memory allocations of the container succeed.\<close>

fun insert_blocks :: "'c block_container_ops \<Rightarrow> (memory_block \<Rightarrow> bool) \<Rightarrow> memory_block list \<Rightarrow> 'c \<Rightarrow> 'c option" where
  "insert_blocks ops alloc [] c = Some c"
| "insert_blocks ops alloc (b # bs) c =
     Option.bind (c_insert ops (alloc b) (alloc b) b c) (\<lambda>(_, c). insert_blocks ops alloc bs c)"

definition heap_process_run_metadata :: "'c block_container_ops \<Rightarrow> (memory_block \<Rightarrow> bool) \<Rightarrow> (nat \<Rightarrow> u64) \<Rightarrow> bucket_run \<Rightarrow> u64 \<Rightarrow>
    u32 \<Rightarrow> u32 \<Rightarrow> 'c \<Rightarrow> 'c option" where
  "heap_process_run_metadata ops alloc bitmap r block_size cid zid c =
     Option.bind (run_blocks bitmap r block_size cid zid) (\<lambda>bs. insert_blocks ops alloc bs c)"

definition heap_run_is_empty :: "(nat \<Rightarrow> u64) \<Rightarrow> bool" where
  "heap_run_is_empty bitmap \<longleftrightarrow> list_all (\<lambda>i. bitmap i = - 1) [0 ..< MAX_BITMAP_VALUES]"

subsection \<open>Ranges and the positions they cover\<close>

definition covered :: "(nat \<times> nat) list \<Rightarrow> nat list" where
  "covered rs = concat (map (\<lambda>(off, sz). [off ..< off + sz]) rs)"

definition block_range :: "memory_block \<Rightarrow> nat \<times> nat" where
  "block_range m = (unat (block_off m), unat (size_idx m))"

lemma covered_simps [simp]:
  "covered [] = []" "covered ((off, sz) # rs) = [off ..< off + sz] @ covered rs" "covered (rs @ rs') = covered rs @ covered rs'"
  by (simp_all add: covered_def)

text \<open>The pieces of a split range: at most \<open>umax\<close> blocks each, never across a multiple of \<open>umax\<close>.\<close>

definition piece_ok :: "nat \<Rightarrow> nat \<times> nat \<Rightarrow> bool" where
  "piece_ok umax = (\<lambda>(off, sz). 0 < sz \<and> off mod umax + sz \<le> umax)"

lemma run_insert_loop_spec:
  assumes "0 < umax" "umax \<le> 65535" "0 < msize" "msize \<le> sz" "off mod umax + msize \<le> umax" "msize < sz \<Longrightarrow> (off + msize) mod umax = 0"
    "off + sz \<le> 65535"
  shows "\<exists>bs. run_insert_loop cid zid umax sz msize off = Some bs \<and> covered (map block_range bs) = [off ..< off + sz] \<and>
    list_all (\<lambda>b. piece_ok umax (block_range b) \<and> chunk_id b = cid \<and> zone_id b = zid) bs"
  using assms
proof (induction cid zid umax sz msize off rule: run_insert_loop.induct)
  case (1 cid zid umax sz msize off)
  define m where "m = \<lparr>chunk_id = cid, zone_id = zid, size_idx = of_nat msize, block_off = of_nat off\<rparr>"
  have "msize < 2 ^ LENGTH(32)" "off < 2 ^ LENGTH(16)" using "1.prems" by auto
  then have "unat (of_nat msize :: u32) = msize" "unat (of_nat off :: u16) = off" by (simp_all only: unat_of_nat mod_less)
  then have m: "block_range m = (off, msize)" "piece_ok umax (block_range m)"
    using "1.prems" by (simp_all add: m_def block_range_def piece_ok_def)
  show ?case
  proof (cases "sz - msize = 0")
    case True
    then have "run_insert_loop cid zid umax sz msize off = Some [m]" by (subst run_insert_loop.simps) (simp add: Let_def m_def)
    then show ?thesis using True m "1.prems"(4) by (simp add: m_def)
  next
    case False
    let ?rest = "sz - msize"
    let ?ms = "if ?rest > umax then umax else ?rest"
    have al: "(off + msize) mod umax = 0" using "1.prems" False by simp
    have "\<exists>bs. run_insert_loop cid zid umax ?rest ?ms (off + msize) = Some bs \<and>
        covered (map block_range bs) = [off + msize ..< off + msize + ?rest] \<and>
        list_all (\<lambda>b. piece_ok umax (block_range b) \<and> chunk_id b = cid \<and> zone_id b = zid) bs"
    proof (rule "1.IH" [OF m_def refl False])
      show "?ms < ?rest \<Longrightarrow> (off + msize + ?ms) mod umax = 0" using al by (auto split: if_splits)
    qed (use "1.prems" False al in auto)
    then obtain bs where bs: "run_insert_loop cid zid umax ?rest ?ms (off + msize) = Some bs"
        "covered (map block_range bs) = [off + msize ..< off + msize + ?rest]"
        "list_all (\<lambda>b. piece_ok umax (block_range b) \<and> chunk_id b = cid \<and> zone_id b = zid) bs" by blast
    have "run_insert_loop cid zid umax sz msize off = Some (m # bs)"
      using bs(1) False "1.prems"(3) by (subst run_insert_loop.simps) (simp add: Let_def m_def)
    moreover have "[off ..< off + msize] @ [off + msize ..< off + msize + ?rest] = [off ..< off + sz]"
      using "1.prems"(4) upt_add_eq_append [of off "off + msize" "sz - msize"] by simp
    ultimately show ?thesis using bs m by (simp add: m_def)
  qed
qed

lemma heap_run_insert_spec:
  assumes "0 < umax" "umax \<le> 65535" "0 < sz" "off + sz \<le> 65535"
  shows "\<exists>bs. heap_run_insert cid zid umax sz off = Some bs \<and> covered (map block_range bs) = [off ..< off + sz] \<and>
    list_all (\<lambda>b. piece_ok umax (block_range b) \<and> chunk_id b = cid \<and> zone_id b = zid) bs"
proof -
  let ?ms = "if umax - off mod umax > sz then sz else umax - off mod umax"
  have lt: "off mod umax < umax" using assms(1) by simp
  have al: "(off + (umax - off mod umax)) mod umax = 0"
  proof -
    have "off + (umax - off mod umax) = umax * (off div umax) + umax" using lt mult_div_mod_eq [of umax off] by linarith
    then show ?thesis by simp
  qed
  have "\<exists>bs. run_insert_loop cid zid umax sz ?ms off = Some bs \<and> covered (map block_range bs) = [off ..< off + sz] \<and>
      list_all (\<lambda>b. piece_ok umax (block_range b) \<and> chunk_id b = cid \<and> zone_id b = zid) bs"
    by (rule run_insert_loop_spec) (use assms lt al in \<open>auto split: if_splits\<close>)
  then show ?thesis by (simp add: heap_run_insert_def Let_def)
qed

lemma insert_ranges_spec:
  assumes "0 < umax" "umax \<le> 65535" "list_all (\<lambda>(off, sz). 0 < sz \<and> off + sz \<le> 65535) rs"
  shows "\<exists>bs. insert_ranges cid zid umax rs = Some bs \<and> covered (map block_range bs) = covered rs \<and>
    list_all (\<lambda>b. piece_ok umax (block_range b) \<and> chunk_id b = cid \<and> zone_id b = zid) bs"
  using assms(3)
proof (induction rs)
  case (Cons r rs)
  obtain off sz where r: "r = (off, sz)" by fastforce
  then have "0 < sz" "off + sz \<le> 65535" "list_all (\<lambda>(off, sz). 0 < sz \<and> off + sz \<le> 65535) rs" using Cons.prems by auto
  with heap_run_insert_spec [OF assms(1,2), of sz off cid zid] Cons.IH r show ?case by fastforce
qed simp

subsection \<open>The scan finds the free blocks\<close>

definition is_free :: "(nat \<Rightarrow> u64) \<Rightarrow> nat \<Rightarrow> bool" where
  "is_free bitmap k \<longleftrightarrow> \<not> bit (bitmap (k div BITS_PER_VALUE)) (k mod BITS_PER_VALUE)"

definition tail_used :: "(nat \<Rightarrow> u64) \<Rightarrow> nat \<Rightarrow> nat \<Rightarrow> bool" where
  "tail_used bitmap nval run_bits \<longleftrightarrow> (\<forall>k. run_bits \<le> k \<and> k < BITS_PER_VALUE * nval \<longrightarrow> \<not> is_free bitmap k)"

definition scanned :: "(nat \<Rightarrow> u64) \<Rightarrow> nat \<Rightarrow> nat \<Rightarrow> scan \<Rightarrow> bool" where
  "scanned bitmap run_bits n s \<longleftrightarrow> clear s \<le> pos s \<and>
     covered (found s) @ [pos s - clear s ..< pos s] = filter (is_free bitmap) [0 ..< n] \<and>
     list_all (\<lambda>(off, sz). 0 < sz \<and> off + sz \<le> n) (found s) \<and> (if at_end s then run_bits < n \<and> pos s \<le> n else pos s = n)"

lemma flush_scanned: "scanned bitmap run_bits n s \<Longrightarrow> scanned bitmap run_bits n (flush_clear s) \<and> clear (flush_clear s) = 0 \<and>
    pos (flush_clear s) = pos s \<and> at_end (flush_clear s) = at_end s"
  by (auto simp: flush_clear_def scanned_def split: if_splits)

lemma ranges_mono: "list_all (\<lambda>(off, sz). 0 < sz \<and> off + sz \<le> n) rs \<Longrightarrow> n \<le> n' \<Longrightarrow> list_all (\<lambda>(off, sz). 0 < sz \<and> off + sz \<le> (n' :: nat)) rs"
  by (auto simp: list_all_iff)

lemma scan_bit_scanned:
  assumes "scanned bitmap run_bits (64 * i + j) s" "j < 64" "64 * i + j < 64 * nval" "tail_used bitmap nval run_bits"
  shows "scanned bitmap run_bits (Suc (64 * i + j)) (scan_bit (bitmap i) run_bits j s)"
proof -
  let ?n = "64 * i + j"
  have fr: "is_free bitmap ?n \<longleftrightarrow> \<not> bit (bitmap i) j" using assms(2) by (simp add: is_free_def BITS_PER_VALUE_def)
  show ?thesis
  proof (cases "at_end s")
    case True
    then have "\<not> is_free bitmap ?n" using assms by (auto simp: scanned_def tail_used_def BITS_PER_VALUE_def)
    then show ?thesis using assms(1) True ranges_mono [of ?n "found s" "Suc ?n"] by (simp add: scan_bit_def scanned_def)
  next
    case False
    show ?thesis
    proof (cases "bit (bitmap i) j")
      case True
      note f = flush_scanned [OF assms(1)]
      then show ?thesis using True False fr ranges_mono [of ?n "found (flush_clear s)" "Suc ?n"]
        by (auto simp: scan_bit_def scanned_def Let_def)
    next
      case clr: False
      have "covered (found s) @ [pos s - clear s ..< Suc (pos s)] = filter (is_free bitmap) [0 ..< ?n] @ [?n]"
        using assms(1) False by (auto simp: scanned_def simp flip: append_assoc)
      moreover have "filter (is_free bitmap) [0 ..< Suc ?n] = filter (is_free bitmap) [0 ..< ?n] @ [?n]" using clr fr by simp
      ultimately show ?thesis using clr False assms(1) ranges_mono [of ?n "found s" "Suc ?n"]
        by (auto simp: scan_bit_def scanned_def Let_def simp del: upt_Suc)
    qed
  qed
qed

text \<open>Between words nothing is pending.\<close>

definition at_word :: "(nat \<Rightarrow> u64) \<Rightarrow> nat \<Rightarrow> nat \<Rightarrow> scan \<Rightarrow> bool" where
  "at_word bitmap run_bits n s \<longleftrightarrow> clear s = 0 \<and> covered (found s) = filter (is_free bitmap) [0 ..< n] \<and>
     list_all (\<lambda>(off, sz). 0 < sz \<and> off + sz \<le> n) (found s) \<and> (at_end s \<longrightarrow> run_bits < n)"

lemma filter_word:
  "filter (is_free bitmap) [0 ..< 64 * i + 64] = filter (is_free bitmap) [0 ..< 64 * i] @ filter (is_free bitmap) [64 * i ..< 64 * i + 64]"
proof -
  have "[0 ..< 64 * i + 64] = [0 ..< 64 * i] @ [64 * i ..< 64 * i + 64]" using upt_add_eq_append [of 0 "64 * i" 64] by (simp add: add.commute)
  then show ?thesis by simp
qed

lemma scan_word_bits:
  assumes "scanned bitmap run_bits (64 * i) s" "i < nval" "tail_used bitmap nval run_bits" "j \<le> 64"
  shows "scanned bitmap run_bits (64 * i + j) (fold (scan_bit (bitmap i) run_bits) [0 ..< j] s)"
  using assms(4)
proof (induction j)
  case (Suc j)
  then show ?case using scan_bit_scanned [OF _ _ _ assms(3), of i j] assms(2) by simp
qed (use assms(1) in simp)

lemma scan_word_ok:
  assumes "at_word bitmap run_bits (64 * i) s" "i < nval" "tail_used bitmap nval run_bits"
  shows "at_word bitmap run_bits (64 * i + 64) (scan_word bitmap run_bits i s)"
proof -
  have word: "is_free bitmap k \<longleftrightarrow> \<not> bit (bitmap i) (k - 64 * i)" if "k \<in> set [64 * i ..< 64 * i + 64]" for k
  proof -
    have "k = 64 * i + (k - 64 * i)" "k - 64 * i < 64" using that by auto
    then have "k div 64 = i" "k mod 64 = k - 64 * i" by (metis div_mult_self4 div_less add_0_right zero_neq_numeral, metis mod_mult_self4 mod_less)
    then show ?thesis by (simp add: is_free_def BITS_PER_VALUE_def)
  qed
  note mono = ranges_mono [of "64 * i" _ "64 * i + 64"]
  consider "at_end s" | "\<not> at_end s" "bitmap i = 0" | "\<not> at_end s" "bitmap i = - 1" | "\<not> at_end s" "bitmap i \<noteq> 0" "bitmap i \<noteq> - 1" by blast
  then show ?thesis
  proof cases
    case 1
    then have "run_bits < 64 * i" using assms(1) by (simp add: at_word_def)
    then have "filter (is_free bitmap) [64 * i ..< 64 * i + 64] = []"
      using assms(2,3) by (auto simp: filter_empty_conv tail_used_def BITS_PER_VALUE_def)
    then show ?thesis using 1 assms(1) mono by (auto simp: scan_word_def at_word_def filter_word)
  next
    case 2
    have "filter (is_free bitmap) [64 * i ..< 64 * i + 64] = [64 * i ..< 64 * i + 64]" using 2(2) word by (simp add: filter_id_conv)
    then show ?thesis using 2 assms(1) mono by (auto simp: scan_word_def at_word_def filter_word Let_def BITS_PER_VALUE_def)
  next
    case 3
    have "bit (- 1 :: u64) (k - 64 * i)" if "k < 64 * i + 64" for k using that by (simp add: bit_simps) 
    then have "filter (is_free bitmap) [64 * i ..< 64 * i + 64] = []" using 3(2) word by (auto simp: filter_empty_conv)
    then show ?thesis using 3 assms(1) mono by (auto simp: scan_word_def at_word_def filter_word Let_def)
  next
    case 4
    have "scanned bitmap run_bits (64 * i) (s\<lparr>pos := 64 * i\<rparr>)" using assms(1) 4(1) by (auto simp: at_word_def scanned_def)
    from flush_scanned [OF scan_word_bits [OF this assms(2,3), of 64]] show ?thesis
      using 4 by (auto simp: scan_word_def at_word_def scanned_def Let_def BITS_PER_VALUE_def add.commute split: if_splits)
  qed
qed

lemma free_ranges_spec:
  assumes "tail_used bitmap nval run_bits"
  shows "covered (free_ranges bitmap nval run_bits) = filter (is_free bitmap) [0 ..< 64 * nval] \<and>
    list_all (\<lambda>(off, sz). 0 < sz \<and> off + sz \<le> 64 * nval) (free_ranges bitmap nval run_bits)"
proof -
  have "at_word bitmap run_bits (64 * n) (fold (scan_word bitmap run_bits) [0 ..< n] \<lparr>found = [], pos = 0, clear = 0, at_end = False\<rparr>)"
    if "n \<le> nval" for n
    using that
  proof (induction n)
    case (Suc n)
    then show ?case using scan_word_ok [OF _ _ assms, of n] by (simp add: add.commute)
  qed (simp add: at_word_def)
  from this [of nval] show ?thesis by (simp add: at_word_def free_ranges_def)
qed

subsection \<open>Filling a container\<close>

context block_container
begin

lemma insert_blocks_law:
  assumes "inv c" "\<forall>b\<in>set bs. fits b"
  shows "\<exists>c'. insert_blocks ops alloc bs c = Some c' \<and> inv c' \<and> blocks c' = blocks c \<union> {b \<in> set bs. alloc b}"
  using assms
proof (induction bs arbitrary: c)
  case (Cons b bs)
  obtain r c1 where c1: "inv c1" "c_insert ops (alloc b) (alloc b) b c = Some (r, c1)"
      "blocks c1 = (if alloc b then insert b (blocks c) else blocks c)"
    using insert_law [OF Cons.prems(1), of b "alloc b" "alloc b"] Cons.prems(2) by auto
  obtain c' where "insert_blocks ops alloc bs c1 = Some c'" "inv c'" "blocks c' = blocks c1 \<union> {b \<in> set bs. alloc b}"
    using Cons.IH [OF c1(1)] Cons.prems(2) by auto
  then show ?case using c1 by auto
qed simp

end

lemma piece_fits:
  assumes "piece_ok umax (block_range b)" "umax \<le> 65535" "chunk_id b < 2 ^ 16" "zone_id b < 2 ^ 16"
  shows "fits b"
proof -
  have "unat (size_idx b) \<noteq> 0" "unat (size_idx b) < 65536" using assms(1,2) by (auto simp: piece_ok_def block_range_def)
  then show ?thesis using assms(3,4) by (auto simp: fits_def word_less_nat_alt unat_eq_zero)
qed

text \<open>C31: \<open>heap_process_run_metadata\<close> turns the bitmap of a run into memory blocks without loss. The loops end; the blocks cover exactly the
  clear bits, in order and without overlap; no block is larger than the maximum of its bucket or crosses a multiple of it; and
  the container gets exactly those blocks for which its memory allocation succeeds, the others being dropped silently.\<close>

theorem run_metadata_exact:
  assumes "container_ok c" "bitmap_nval r \<le> MAX_BITMAP_VALUES" "0 < unit_max r" "unit_max r < 2 ^ 16" "cid < 2 ^ 16" "zid < 2 ^ 16"
    "tail_used bitmap (bitmap_nval r) (RUN_NALLOCS block_size)"
  shows "\<exists>bs c'. run_blocks bitmap r block_size cid zid = Some bs \<and>
    covered (map block_range bs) = filter (is_free bitmap) [0 ..< BITS_PER_VALUE * bitmap_nval r] \<and>
    list_all (\<lambda>b. piece_ok (unat (unit_max r)) (block_range b) \<and> chunk_id b = cid \<and> zone_id b = zid) bs \<and>
    heap_process_run_metadata container_ctree_ops alloc bitmap r block_size cid zid c = Some c' \<and>
    tree_blocks c' = tree_blocks c \<union> {b \<in> set bs. alloc b}"
proof -
  have u: "0 < unat (unit_max r)" "unat (unit_max r) \<le> 65535" using assms(3,4) by (auto simp: word_less_nat_alt)
  note fr = free_ranges_spec [OF assms(7)]
  have "list_all (\<lambda>(off, sz). 0 < sz \<and> off + sz \<le> 65535) (free_ranges bitmap (bitmap_nval r) (RUN_NALLOCS block_size))"
    by (rule ranges_mono [OF conjunct2 [OF fr]]) (use assms(2) in \<open>simp add: MAX_BITMAP_VALUES_def\<close>)
  from insert_ranges_spec [OF u this] obtain bs where bs: "run_blocks bitmap r block_size cid zid = Some bs"
      "covered (map block_range bs) = covered (free_ranges bitmap (bitmap_nval r) (RUN_NALLOCS block_size))"
      "list_all (\<lambda>b. piece_ok (unat (unit_max r)) (block_range b) \<and> chunk_id b = cid \<and> zone_id b = zid) bs"
    unfolding run_blocks_def by blast
  have "\<forall>b\<in>set bs. fits b" using bs(3) piece_fits [OF _ u(2)] assms(5,6) by (auto simp: list_all_iff)
  from ctree_container.insert_blocks_law [OF assms(1) this] bs fr show ?thesis
    by (auto simp: heap_process_run_metadata_def BITS_PER_VALUE_def)
qed

definition example_bitmap :: "nat \<Rightarrow> u64" where
  "example_bitmap i = (if i = 0 then 0xF0 else if i = 1 then 0xFFFFFFFFFFFFFF00 else - 1)"

definition example_run :: bucket_run where
  "example_run = \<lparr>bitmap_lastval = 0xFFFFFFFFFFFFFF00, bitmap_nval = 2, bitmap_nallocs = 72, unit_max = 8\<rparr>"

theorem run_metadata_exact_witness:
  "let c = \<lparr>bc_type = CONTAINER_CTREE, bc_unit_size = 3600, tree = \<lparr>root = None, locked = False, live = 0\<rparr>\<rparr>
   in container_ok c \<and> tail_used example_bitmap 2 (RUN_NALLOCS 3600) \<and>
      (\<exists>bs c'. run_blocks example_bitmap example_run 3600 5 0 = Some bs \<and>
         covered (map block_range bs) = filter (is_free example_bitmap) [0 ..< 128] \<and>
         heap_process_run_metadata container_ctree_ops (\<lambda>_. True) example_bitmap example_run 3600 5 0 c = Some c' \<and>
         tree_blocks c' = tree_blocks c \<union> set bs)"
proof -
  define c where "c = \<lparr>bc_type = CONTAINER_CTREE, bc_unit_size = 3600, tree = \<lparr>root = None, locked = False, live = 0\<rparr>\<rparr>"
  have c: "container_ok c" by (simp add: c_def container_ok_def ctree_ok_def)
  have n: "RUN_NALLOCS 3600 = 72" by (simp add: RUN_NALLOCS_def RUNSIZE_def CHUNKSIZE_def RUN_METASIZE_def)
  have "bit (0xFFFFFFFFFFFFFF00 :: u64) k" if "8 \<le> k" "k < 64" for k
  proof -
    have eq: "(0xFFFFFFFFFFFFFF00 :: u64) = push_bit 8 (mask 56)" by (simp add: push_bit_eq_mult mask_eq_exp_minus_1)
    show ?thesis unfolding eq using that by (auto simp: bit_push_bit_iff bit_mask_iff)
  qed
  moreover have dm: "k div 64 = Suc 0" if "72 \<le> k" "k < 128" for k :: nat using that by (intro div_nat_eqI) auto
  moreover have "k mod 64 = k - 64" if "72 \<le> k" "k < 128" for k :: nat using dm [OF that] by (simp add: modulo_nat_def)
  ultimately have t: "tail_used example_bitmap 2 (RUN_NALLOCS 3600)"
    unfolding n tail_used_def is_free_def BITS_PER_VALUE_def example_bitmap_def by auto
  have r: "bitmap_nval example_run \<le> MAX_BITMAP_VALUES" "0 < unit_max example_run" "unit_max example_run < 2 ^ 16"
    "tail_used example_bitmap (bitmap_nval example_run) (RUN_NALLOCS 3600)"
    using t by (simp_all add: example_run_def MAX_BITMAP_VALUES_def)
  have i: "(5 :: u32) < 2 ^ 16" "(0 :: u32) < 2 ^ 16" "BITS_PER_VALUE * bitmap_nval example_run = 128"
    by (simp_all add: BITS_PER_VALUE_def example_run_def)
  show ?thesis
    using run_metadata_exact [OF c r(1-3) i(1,2) r(4), of "\<lambda>_. True"] c t unfolding Let_def c_def [symmetric] i(3) by auto
qed

end
