(* ===== verification/Memblock.thy ===== *)
theory Memblock
  imports Memops Heap_Run
begin

text \<open>
  Memory blocks, \<open>src/nvml/src/libpmemobj/memblock.c\<close>, on the memory of \<open>Redo_Log\<close>. A block is a huge chunk, described by a chunk header, or
  a range of bits in the bitmap of a run. Addresses follow the layout of \<open>heap_layout.h\<close>. Changes of headers and bitmaps are not
  made but registered in an operation context, which \<open>operation_process\<close> of \<open>Memops\<close> applies.
\<close>

subsection \<open>Layout\<close>

definition MAX_CHUNK :: nat where "MAX_CHUNK = 65535 - 7"
definition sizeof_heap_header :: nat where "sizeof_heap_header = 1024"
definition sizeof_zone_header :: nat where "sizeof_zone_header = 64"
definition sizeof_zone :: nat where "sizeof_zone = sizeof_zone_header + 8 * MAX_CHUNK"
definition ZONE_MAX_SIZE :: nat where "ZONE_MAX_SIZE = sizeof_zone + CHUNKSIZE * MAX_CHUNK"

definition ZID_TO_ZONE :: "u64 \<Rightarrow> u32 \<Rightarrow> u64" where
  "ZID_TO_ZONE hl zid = hl + of_nat sizeof_heap_header + of_nat ZONE_MAX_SIZE * ucast zid"

definition chunk_hdr_addr :: "u64 \<Rightarrow> memory_block \<Rightarrow> u64" where
  "chunk_hdr_addr hl m = ZID_TO_ZONE hl (zone_id m) + of_nat sizeof_zone_header + 8 * ucast (chunk_id m)"

definition chunk_addr :: "u64 \<Rightarrow> memory_block \<Rightarrow> u64" where
  "chunk_addr hl m = ZID_TO_ZONE hl (zone_id m) + of_nat sizeof_zone + of_nat CHUNKSIZE * ucast (chunk_id m)"

definition bitmap_addr :: "u64 \<Rightarrow> nat \<Rightarrow> u64" where
  "bitmap_addr chunk i = chunk + 16 + 8 * of_nat i"

definition word_at :: "u64 \<Rightarrow> redo_mem \<Rightarrow> u64 \<Rightarrow> u64" where
  "word_at base mem addr = mem (Data (OBJ_PTR_TO_OFF base addr))"

datatype chunk_type = CHUNK_TYPE_UNKNOWN | CHUNK_TYPE_FOOTER | CHUNK_TYPE_FREE | CHUNK_TYPE_USED | CHUNK_TYPE_RUN

fun chunk_type_code :: "chunk_type \<Rightarrow> u16" where
  "chunk_type_code CHUNK_TYPE_UNKNOWN = 0" | "chunk_type_code CHUNK_TYPE_FOOTER = 1" | "chunk_type_code CHUNK_TYPE_FREE = 2"
| "chunk_type_code CHUNK_TYPE_USED = 3" | "chunk_type_code CHUNK_TYPE_RUN = 4"

text \<open>A chunk header is one word: type, flags and size index from the low end.\<close>

definition hdr_type :: "u64 \<Rightarrow> u16" where
  "hdr_type w = ucast w"

definition hdr_size_idx :: "u64 \<Rightarrow> u32" where
  "hdr_size_idx w = ucast (drop_bit 32 w)"

definition chunk_get_chunk_hdr_value :: "u16 \<Rightarrow> u32 \<Rightarrow> u64" where
  "chunk_get_chunk_hdr_value type sz = ucast type OR push_bit 16 (ucast (0 :: u16)) OR push_bit 32 (ucast sz)"

subsection \<open>Operations\<close>

datatype memory_block_type = MEMORY_BLOCK_HUGE | MEMORY_BLOCK_RUN

datatype memblock_hdr_op = HDR_OP_ALLOC | HDR_OP_FREE

definition memblock_autodetect_type :: "u64 \<Rightarrow> redo_mem \<Rightarrow> u64 \<Rightarrow> memory_block \<Rightarrow> memory_block_type option" where
  "memblock_autodetect_type base mem hl m =
     (let t = hdr_type (word_at base mem (chunk_hdr_addr hl m))
      in if t = chunk_type_code CHUNK_TYPE_RUN then Some MEMORY_BLOCK_RUN
         else if t = chunk_type_code CHUNK_TYPE_FREE \<or> t = chunk_type_code CHUNK_TYPE_USED \<or> t = chunk_type_code CHUNK_TYPE_FOOTER
              then Some MEMORY_BLOCK_HUGE
         else None)"

definition huge_block_size :: u64 where
  "huge_block_size = of_nat CHUNKSIZE"

definition run_block_size :: "u64 \<Rightarrow> redo_mem \<Rightarrow> u64 \<Rightarrow> memory_block \<Rightarrow> u64" where
  "run_block_size base mem hl m = word_at base mem (chunk_addr hl m)"

definition heap_get_block_data :: "u64 \<Rightarrow> redo_mem \<Rightarrow> u64 \<Rightarrow> memory_block \<Rightarrow> u64" where
  "heap_get_block_data base mem hl m =
     (if hdr_type (word_at base mem (chunk_hdr_addr hl m)) \<noteq> chunk_type_code CHUNK_TYPE_RUN then chunk_addr hl m
      else chunk_addr hl m + of_nat RUN_METASIZE + run_block_size base mem hl m * ucast (block_off m))"

definition huge_block_offset :: u16 where
  "huge_block_offset = 0"

definition run_block_offset :: "u64 \<Rightarrow> redo_mem \<Rightarrow> u64 \<Rightarrow> memory_block \<Rightarrow> u64 \<Rightarrow> u16" where
  "run_block_offset base mem hl m ptr = ucast ((ptr - heap_get_block_data base mem hl m) div run_block_size base mem hl m)"

definition huge_prep_operation_hdr :: "redo_mem \<Rightarrow> u64 \<Rightarrow> memory_block \<Rightarrow> memblock_hdr_op \<Rightarrow> operation_context \<Rightarrow> operation_context option" where
  "huge_prep_operation_hdr mem hl m op ctx =
     (let hdr = chunk_hdr_addr hl m;
          val = chunk_get_chunk_hdr_value (chunk_type_code (if op = HDR_OP_ALLOC then CHUNK_TYPE_USED else CHUNK_TYPE_FREE)) (size_idx m)
      in Option.bind (operation_add_entry mem ctx hdr val OPERATION_SET) (\<lambda>ctx.
           if size_idx m = 1 then Some ctx
           else operation_add_typed_entry mem ctx (hdr + 8 * ucast (size_idx m) - 8)
                  (chunk_get_chunk_hdr_value (chunk_type_code CHUNK_TYPE_FOOTER) (size_idx m)) OPERATION_SET ENTRY_TRANSIENT))"

text \<open>A shift by 64 or more is undefined in C: \<open>None\<close>.\<close>

definition run_prep_operation_hdr :: "redo_mem \<Rightarrow> u64 \<Rightarrow> memory_block \<Rightarrow> memblock_hdr_op \<Rightarrow> operation_context \<Rightarrow> operation_context option" where
  "run_prep_operation_hdr mem hl m op ctx =
     (if unat (size_idx m) \<ge> 64 then None
      else let bmask = push_bit (unat (block_off m) mod BITS_PER_VALUE) (push_bit (unat (size_idx m)) 1 - 1);
               bpos = unat (block_off m) div BITS_PER_VALUE;
               addr = bitmap_addr (chunk_addr hl m) bpos
           in if op = HDR_OP_ALLOC then operation_add_entry mem ctx addr bmask OPERATION_OR
              else operation_add_entry mem ctx addr (NOT bmask) OPERATION_AND)"

text \<open>The locks of runs: the set of locked mutexes.\<close>

definition MAX_RUN_LOCKS :: nat where
  "MAX_RUN_LOCKS = 1024"

definition heap_get_run_lock :: "u32 \<Rightarrow> nat" where
  "heap_get_run_lock cid = unat cid mod MAX_RUN_LOCKS"

definition run_lock :: "memory_block \<Rightarrow> nat set \<Rightarrow> nat set option" where
  "run_lock m locks = (if heap_get_run_lock (chunk_id m) \<in> locks then None else Some (insert (heap_get_run_lock (chunk_id m)) locks))"

definition run_unlock :: "memory_block \<Rightarrow> nat set \<Rightarrow> nat set" where
  "run_unlock m locks = locks - {heap_get_run_lock (chunk_id m)}"

end
