(* ===== verification/Memblock_Props.thy ===== *)
theory Memblock_Props
  imports Memblock
begin

text \<open>
  What registered changes of a run's bitmap do once they are processed: several allocations and deallocations in one operation,
  possibly in the same word of the bitmap, act as if they were made one after the other.
\<close>

subsection \<open>The memory after an operation\<close>

lemma cache_update_evs: "es \<noteq> [] \<Longrightarrow> cache (run (update_evs es) s) (Data off) = commit es (cache s) (Data off)"
proof -
  have "cache (run (log_writes es @ persist (log_prefix (length es)) @ flag_evs es) s) (Data off) = cache s (Data off)" for off
    by (simp add: cache_log_writes flag_evs_def persist_def)
  then have "commit es (cache (run (log_writes es @ persist (log_prefix (length es)) @ flag_evs es) s)) (Data off) = commit es (cache s) (Data off)"
    by (intro commit_agree) simp
  then show ?thesis by (simp add: update_evs_def process_evs_def clear_evs_def cache_data_evs persist_def)
qed

lemma cache_persistent_evs: "cache (run (persistent_evs ctx) s) (Data off) = commit (updates ctx) (cache s) (Data off)"
proof -
  consider "updates ctx = []" | u where "updates ctx = [u]" | u u' us where "updates ctx = u # u' # us" by (metis list.exhaust)
  then show ?thesis
  proof cases
    case 2
    then show ?thesis by (cases u) (simp add: persistent_evs_def persist_def)
  next
    case 3
    then show ?thesis using cache_update_evs [of "updates ctx" s off] by (simp add: persistent_evs_def)
  qed (simp add: persistent_evs_def)
qed

lemma commit_entries:
  assumes "distinct (map en_ptr es)"
  shows "commit (map (\<lambda>e. (en_ptr e - base, en_value e)) es) m (Data (ptr - base)) =
    (case entry_value es ptr of Some v \<Rightarrow> v | None \<Rightarrow> m (Data (ptr - base)))"
  using assms
proof (induction es arbitrary: m)
  case (Cons e es)
  have inj: "a - base = b - base \<longleftrightarrow> a = b" for a b :: u64 by simp
  show ?case
  proof (cases "en_ptr e = ptr")
    case True
    then have "entry_value es ptr = None" using Cons.prems by auto
    then show ?thesis using Cons True by (simp del: entry_value_None)
  next
    case False
    then show ?thesis using Cons by (simp add: inj split: option.split del: entry_value_None)
  qed
qed simp

text \<open>The value that a word has once a context is processed.\<close>

definition pending_word :: "redo_mem \<Rightarrow> operation_context \<Rightarrow> u64 \<Rightarrow> u64" where
  "pending_word mem ctx ptr = (case entry_value (entries ctx ENTRY_PERSISTENT) ptr of Some v \<Rightarrow> v | None \<Rightarrow> word_at (op_base ctx) mem ptr)"

lemma processed_word:
  assumes "ctx_ok ctx" "list_all (\<lambda>u. \<not> finish_flag (fst u)) (updates ctx)" "entries ctx ENTRY_TRANSIENT = []"
  shows "\<exists>evs. operation_process mem ctx = Some evs \<and>
    (\<forall>ptr. word_at (op_base ctx) (cache (run evs (boot mem))) ptr = pending_word mem ctx ptr)"
proof -
  have "transient_stores ctx = []" using assms(3) by (simp add: transient_stores_def)
  then have evs: "operation_process mem ctx = Some (persistent_evs ctx)" using operation_process_evs [OF assms(2)] by simp
  have u: "updates ctx = map (\<lambda>e. (en_ptr e - op_base ctx, en_value e)) (entries ctx ENTRY_PERSISTENT)"
    by (simp add: updates_def update_of_def [abs_def] OBJ_PTR_TO_OFF_def)
  have "distinct (map en_ptr (entries ctx ENTRY_PERSISTENT))" using assms(1) by (simp add: ctx_ok_def)
  then have "word_at (op_base ctx) (cache (run (persistent_evs ctx) (boot mem))) ptr = pending_word mem ctx ptr" for ptr
    unfolding pending_word_def word_at_def OBJ_PTR_TO_OFF_def cache_persistent_evs u by (simp add: commit_entries)
  with evs show ?thesis by blast
qed

lemma dom_entry_value: "dom (entry_value es) = en_ptr ` set es"
  unfolding dom_def by simp

text \<open>Registering a logical operation on a persistent word.\<close>

lemma add_logical:
  assumes "ctx_ok ctx" "redo_log_check_offset (op_pop ctx) (OBJ_PTR_TO_OFF (op_base ctx) ptr)" "type \<noteq> OPERATION_SET"
    "operation_add_entry mem ctx ptr v type = Some ctx'"
  shows "ctx_ok ctx'" "op_pop ctx' = op_pop ctx" "op_base ctx' = op_base ctx" "entries ctx' ENTRY_TRANSIENT = entries ctx ENTRY_TRANSIENT"
    "en_ptr ` set (entries ctx' ENTRY_PERSISTENT) = insert ptr (en_ptr ` set (entries ctx ENTRY_PERSISTENT))"
    "pending_word mem ctx' p = (if p = ptr then operation_perform (pending_word mem ctx ptr) v type else pending_word mem ctx p)"
proof -
  note eff = add_entry_cases [OF assms(1), of ptr mem v type, unfolded Let_def assms(4) option.case]
  have t: "(if redo_log_check_offset (op_pop ctx) (OBJ_PTR_TO_OFF (op_base ctx) ptr) then ENTRY_PERSISTENT else ENTRY_TRANSIENT) = ENTRY_PERSISTENT"
    using assms(2) by simp
  let ?es = "entries ctx ENTRY_PERSISTENT"
  have ev: "entry_value (entries ctx' ENTRY_PERSISTENT) = (entry_value ?es)(ptr \<mapsto> operation_perform (pending_word mem ctx ptr) v type)"
    using eff assms(3) unfolding t pending_word_def word_at_def by (cases type) auto
  have oth: "(entries ctx')(ENTRY_PERSISTENT := ?es) = entries ctx" and ok: "ctx_ok ctx'" using eff unfolding t by auto
  show "ctx_ok ctx'" by (rule ok)
  show pb: "op_pop ctx' = op_pop ctx" "op_base ctx' = op_base ctx"
    using assms(4) by (auto simp: operation_add_entry_def operation_add_typed_entry_def Let_def split: option.splits if_splits)
  show "entries ctx' ENTRY_TRANSIENT = entries ctx ENTRY_TRANSIENT" using fun_cong [OF oth, of ENTRY_TRANSIENT] by simp
  show "en_ptr ` set (entries ctx' ENTRY_PERSISTENT) = insert ptr (en_ptr ` set ?es)"
    using arg_cong [OF ev, of dom] by (simp add: dom_entry_value)
  show "pending_word mem ctx' p = (if p = ptr then operation_perform (pending_word mem ctx ptr) v type else pending_word mem ctx p)"
    unfolding pending_word_def [of mem ctx'] ev pb by (simp add: pending_word_def)
qed

subsection \<open>Grouped changes of a bitmap\<close>

definition block_bits :: "memory_block \<Rightarrow> nat set" where
  "block_bits m = {unat (block_off m) ..< unat (block_off m) + unat (size_idx m)}"

text \<open>A block of a run lies in one word of the bitmap.\<close>

definition run_block :: "u32 \<Rightarrow> u32 \<Rightarrow> memory_block \<Rightarrow> bool" where
  "run_block cid zid m \<longleftrightarrow> chunk_id m = cid \<and> zone_id m = zid \<and> unat (size_idx m) < 64 \<and>
     unat (block_off m) mod 64 + unat (size_idx m) \<le> 64 \<and> unat (block_off m) < 64 * MAX_BITMAP_VALUES"

definition used_bits :: "(u64 \<Rightarrow> u64) \<Rightarrow> u64 \<Rightarrow> nat set" where
  "used_bits read chunk = {k. k < 64 * MAX_BITMAP_VALUES \<and> bit (read (bitmap_addr chunk (k div 64))) (k mod 64)}"

definition apply_op :: "memblock_hdr_op \<times> memory_block \<Rightarrow> nat set \<Rightarrow> nat set" where
  "apply_op = (\<lambda>(op, m) U. if op = HDR_OP_ALLOC then U \<union> block_bits m else U - block_bits m)"

fun prep_all :: "redo_mem \<Rightarrow> u64 \<Rightarrow> (memblock_hdr_op \<times> memory_block) list \<Rightarrow> operation_context \<Rightarrow> operation_context option" where
  "prep_all mem hl [] ctx = Some ctx"
| "prep_all mem hl ((op, m) # ops) ctx = Option.bind (run_prep_operation_hdr mem hl m op ctx) (prep_all mem hl ops)"

lemma bitmap_addr_eq: "i < MAX_BITMAP_VALUES \<Longrightarrow> j < MAX_BITMAP_VALUES \<Longrightarrow> bitmap_addr chunk i = bitmap_addr chunk j \<longleftrightarrow> i = j"
proof
  assume lt: "i < MAX_BITMAP_VALUES" "j < MAX_BITMAP_VALUES" and "bitmap_addr chunk i = bitmap_addr chunk j"
  then have "of_nat (8 * i) = (of_nat (8 * j) :: u64)" by (simp add: bitmap_addr_def)
  then have "unat (of_nat (8 * i) :: u64) = unat (of_nat (8 * j) :: u64)" by (rule arg_cong)
  moreover have "unat (of_nat (8 * n) :: u64) = 8 * n" if "n < MAX_BITMAP_VALUES" for n
    using that unfolding unat_of_nat by (simp add: MAX_BITMAP_VALUES_def)
  ultimately show "i = j" using lt by simp
qed simp

lemma mask_bits:
  assumes "j + n \<le> 64" "n < 64" "i < 64"
  shows "bit (push_bit j (push_bit n 1 - 1) :: u64) i \<longleftrightarrow> j \<le> i \<and> i < j + n"
proof -
  have "push_bit n 1 - 1 = (mask n :: u64)" by (simp add: mask_eq_exp_minus_1 push_bit_eq_mult)
  then show ?thesis using assms by (auto simp: bit_push_bit_iff bit_mask_iff)
qed

lemma block_bit_word:
  assumes "run_block cid zid m" "k < 64 * MAX_BITMAP_VALUES"
  shows "k \<in> block_bits m \<longleftrightarrow> k div 64 = unat (block_off m) div 64 \<and>
    unat (block_off m) mod 64 \<le> k mod 64 \<and> k mod 64 < unat (block_off m) mod 64 + unat (size_idx m)"
proof -
  let ?o = "unat (block_off m)" and ?n = "unat (size_idx m)"
  have o: "?o = 64 * (?o div 64) + ?o mod 64" and k: "k = 64 * (k div 64) + k mod 64" and n: "?o mod 64 + ?n \<le> 64"
    and lt: "k mod 64 < 64" "?o mod 64 < 64" using assms(1) by (simp_all add: run_block_def)
  show ?thesis unfolding block_bits_def atLeastLessThan_iff
  proof
    assume a: "?o \<le> k \<and> k < ?o + ?n"
    then have "64 * (?o div 64) < 64 * (k div 64) + 64" "64 * (k div 64) < 64 * (?o div 64) + 64" using o k n lt by linarith+
    then have "k div 64 = ?o div 64" by linarith
    then show "k div 64 = ?o div 64 \<and> ?o mod 64 \<le> k mod 64 \<and> k mod 64 < ?o mod 64 + ?n" using a o k by linarith
  next
    assume "k div 64 = ?o div 64 \<and> ?o mod 64 \<le> k mod 64 \<and> k mod 64 < ?o mod 64 + ?n"
    then show "?o \<le> k \<and> k < ?o + ?n" using o k by linarith
  qed
qed

definition run_ctx :: "PMEMobjpool \<Rightarrow> u64 \<Rightarrow> u64 \<Rightarrow> operation_context \<Rightarrow> bool" where
  "run_ctx pop base chunk ctx \<longleftrightarrow> ctx_ok ctx \<and> op_pop ctx = pop \<and> op_base ctx = base \<and> entries ctx ENTRY_TRANSIENT = [] \<and>
     en_ptr ` set (entries ctx ENTRY_PERSISTENT) \<subseteq> bitmap_addr chunk ` {..< MAX_BITMAP_VALUES}"

definition run_in_pool :: "PMEMobjpool \<Rightarrow> u64 \<Rightarrow> u64 \<Rightarrow> bool" where
  "run_in_pool pop base chunk \<longleftrightarrow> \<not> finish_flag (OBJ_PTR_TO_OFF base chunk) \<and>
     list_all (\<lambda>i. redo_log_check_offset pop (OBJ_PTR_TO_OFF base (bitmap_addr chunk i))) [0 ..< MAX_BITMAP_VALUES]"

lemma bitmap_unflagged:
  assumes "run_in_pool pop base chunk"
  shows "\<not> finish_flag (OBJ_PTR_TO_OFF base (bitmap_addr chunk i))"
proof -
  have "OBJ_PTR_TO_OFF base (bitmap_addr chunk i) = OBJ_PTR_TO_OFF base chunk + 2 * (8 + 4 * of_nat i)"
    by (simp add: OBJ_PTR_TO_OFF_def bitmap_addr_def)
  then show ?thesis using assms by (simp add: run_in_pool_def finish_flag_bit bit_0)
qed

lemma run_prep_step:
  assumes "run_in_pool pop base chunk" "run_block cid zid m" "chunk = chunk_addr hl m" "run_ctx pop base chunk ctx"
    "run_prep_operation_hdr mem hl m op ctx = Some ctx'"
  shows "run_ctx pop base chunk ctx'" "used_bits (pending_word mem ctx') chunk = apply_op (op, m) (used_bits (pending_word mem ctx) chunk)"
proof -
  let ?j = "unat (block_off m) mod 64" and ?b = "unat (block_off m) div 64" and ?n = "unat (size_idx m)"
  define bmask :: u64 where "bmask = push_bit ?j (push_bit ?n 1 - 1)"
  define ptr where "ptr = bitmap_addr chunk ?b"
  define v type where "v = (if op = HDR_OP_ALLOC then bmask else NOT bmask)" and "type = (if op = HDR_OP_ALLOC then OPERATION_OR else OPERATION_AND)"
  have n: "?n < 64" "?j + ?n \<le> 64" and b: "?b < MAX_BITMAP_VALUES" using assms(2) by (simp_all add: run_block_def less_mult_imp_div_less)
  have add: "operation_add_entry mem ctx ptr v type = Some ctx'"
    using assms(3,5) n by (auto simp: run_prep_operation_hdr_def Let_def v_def type_def bmask_def ptr_def BITS_PER_VALUE_def split: if_splits)
  have c: "ctx_ok ctx" "op_pop ctx = pop" "op_base ctx = base" using assms(4) by (simp_all add: run_ctx_def)
  have valid: "redo_log_check_offset (op_pop ctx) (OBJ_PTR_TO_OFF (op_base ctx) ptr)"
    using assms(1) b c by (simp add: run_in_pool_def list_all_iff ptr_def)
  note l = add_logical [OF c(1) valid _ add]
  have ts: "type \<noteq> OPERATION_SET" by (simp add: type_def)
  show "run_ctx pop base chunk ctx'"
    using l(1-5) [OF ts] assms(4) b by (auto simp: run_ctx_def ptr_def)
  have "k \<in> used_bits (pending_word mem ctx') chunk \<longleftrightarrow> k \<in> apply_op (op, m) (used_bits (pending_word mem ctx) chunk)" for k
  proof (cases "k < 64 * MAX_BITMAP_VALUES")
    case True
    then have kb: "k div 64 < MAX_BITMAP_VALUES" by (simp add: less_mult_imp_div_less mult.commute)
    have mb: "bit bmask (k mod 64) \<longleftrightarrow> ?j \<le> k mod 64 \<and> k mod 64 < ?j + ?n" unfolding bmask_def by (rule mask_bits [OF n(2,1)]) simp
    have "bit (pending_word mem ctx' (bitmap_addr chunk (k div 64))) (k mod 64) \<longleftrightarrow>
        (if k \<in> block_bits m then op = HDR_OP_ALLOC else bit (pending_word mem ctx (bitmap_addr chunk (k div 64))) (k mod 64))"
      using l(6) [OF ts, of "bitmap_addr chunk (k div 64)"] bitmap_addr_eq [OF kb b, of chunk] block_bit_word [OF assms(2) True] mb
      by (auto simp: ptr_def v_def type_def bit_or_iff bit_and_iff bit_not_iff_eq)
    then show ?thesis using True by (auto simp: used_bits_def apply_op_def)
  next
    case False
    have "block_bits m \<subseteq> {..< 64 * MAX_BITMAP_VALUES}"
    proof
      fix x assume "x \<in> block_bits m"
      then have "x < 64 * ?b + (?j + ?n)" by (simp add: block_bits_def)
      also have "\<dots> \<le> 64 * ?b + 64" using n(2) by (rule add_left_mono)
      also have "\<dots> \<le> 64 * MAX_BITMAP_VALUES" using mult_le_mono2 [OF Suc_leI [OF b], of 64] by simp
      finally show "x \<in> {..< 64 * MAX_BITMAP_VALUES}" by simp
    qed
    then show ?thesis using False by (auto simp: used_bits_def apply_op_def)
  qed
  then show "used_bits (pending_word mem ctx') chunk = apply_op (op, m) (used_bits (pending_word mem ctx) chunk)" by blast
qed

lemma prep_all_bits:
  assumes "run_in_pool pop base chunk" "list_all (\<lambda>(op, m). run_block cid zid m \<and> chunk = chunk_addr hl m) ops" "run_ctx pop base chunk ctx"
    "prep_all mem hl ops ctx = Some ctx'"
  shows "run_ctx pop base chunk ctx' \<and> used_bits (pending_word mem ctx') chunk = fold apply_op ops (used_bits (pending_word mem ctx) chunk)"
  using assms(2-4)
proof (induction ops arbitrary: ctx)
  case (Cons x ops)
  obtain op m where x: "x = (op, m)" by fastforce
  obtain ctx1 where c1: "run_prep_operation_hdr mem hl m op ctx = Some ctx1" "prep_all mem hl ops ctx1 = Some ctx'"
    using Cons.prems(3) x by (auto simp: bind_eq_Some_conv)
  have blk: "run_block cid zid m" "chunk = chunk_addr hl m" using Cons.prems(1) x by auto
  note s = run_prep_step [OF assms(1) blk Cons.prems(2) c1(1)]
  have "list_all (\<lambda>(op, m). run_block cid zid m \<and> chunk = chunk_addr hl m) ops" using Cons.prems(1) by simp
  from Cons.IH [OF this s(1) c1(2)] s(2) x show ?case by simp
qed simp

text \<open>Allocations and deallocations of blocks of a run can be grouped in one operation. However many of them are registered by
  \<open>run_prep_operation_hdr\<close> before the operation is processed, also several in one word of the bitmap, afterwards exactly those
  bits are set that making the changes one after the other would leave set.\<close>

theorem run_ops_grouped:
  assumes "run_in_pool pop base chunk" "list_all (\<lambda>(op, m). run_block cid zid m \<and> chunk = chunk_addr hl m) ops"
    "prep_all mem hl ops (operation_init pop base) = Some ctx"
  shows "\<exists>evs. operation_process mem ctx = Some evs \<and>
    used_bits (word_at base (cache (run evs (boot mem)))) chunk = fold apply_op ops (used_bits (word_at base mem) chunk)"
proof -
  have "run_ctx pop base chunk (operation_init pop base)" by (simp add: run_ctx_def, simp add: operation_init_def)
  from prep_all_bits [OF assms(1,2) this assms(3)]
  have ctx: "run_ctx pop base chunk ctx"
    and bits: "used_bits (pending_word mem ctx) chunk = fold apply_op ops (used_bits (pending_word mem (operation_init pop base)) chunk)" by blast+
  have "pending_word mem (operation_init pop base) = word_at base mem" by (simp add: pending_word_def operation_init_def fun_eq_iff)
  moreover have "list_all (\<lambda>u. \<not> finish_flag (fst u)) (updates ctx)"
    using ctx bitmap_unflagged [OF assms(1)] by (fastforce simp: list_all_iff updates_def update_of_def run_ctx_def)
  ultimately show ?thesis
    using processed_word [of ctx mem] ctx bits unfolding run_ctx_def used_bits_def by auto
qed

definition example_blocks :: "(memblock_hdr_op \<times> memory_block) list" where
  "example_blocks = [(HDR_OP_ALLOC, \<lparr>chunk_id = 0, zone_id = 0, size_idx = 4, block_off = 0\<rparr>),
     (HDR_OP_FREE, \<lparr>chunk_id = 0, zone_id = 0, size_idx = 2, block_off = 2\<rparr>)]"

definition example_pool :: PMEMobjpool where
  "example_pool = \<lparr>heap_offset = 4096, heap_size = 16777216, lanes_offset = 1024, nlanes = 1, root_offset_off = 512\<rparr>"

theorem run_ops_grouped_witness:
  "let chunk = 529408; mem = (\<lambda>_. 0)
   in run_in_pool example_pool 0 chunk \<and>
      (\<exists>ctx evs. prep_all mem 4096 example_blocks (operation_init example_pool 0) = Some ctx \<and> operation_process mem ctx = Some evs \<and>
         used_bits (word_at 0 (cache (run evs (boot mem)))) chunk = {0, 1})"
proof -
  define chunk :: u64 where "chunk = 529408"
  define mem :: redo_mem where "mem = (\<lambda>_. 0)"
  have bm: "OBJ_PTR_TO_OFF 0 (bitmap_addr chunk i) = of_nat (529424 + 8 * i)" for i
    by (simp add: OBJ_PTR_TO_OFF_def bitmap_addr_def chunk_def)
  have "redo_log_check_offset example_pool (of_nat (529424 + 8 * i))" if "i < MAX_BITMAP_VALUES" for i
  proof -
    have "unat (of_nat (529424 + 8 * i) :: u64) = 529424 + 8 * i" using that unfolding unat_of_nat by (simp add: MAX_BITMAP_VALUES_def)
    then have "(4096 :: u64) \<le> of_nat (529424 + 8 * i)" "(of_nat (529424 + 8 * i) :: u64) < 16781312"
      using that by (simp_all only: word_le_nat_alt word_less_nat_alt) (simp_all add: MAX_BITMAP_VALUES_def)
    then show ?thesis by (simp add: redo_log_check_offset_def example_pool_def)
  qed
  then have pool: "run_in_pool example_pool 0 chunk"
    unfolding run_in_pool_def bm by (simp add: list_all_iff) (simp add: OBJ_PTR_TO_OFF_def chunk_def finish_flag_def REDO_FINISH_FLAG_def)
  have ca: "chunk_addr 4096 m = chunk" if "chunk_id m = 0" "zone_id m = 0" for m
    using that by (simp add: chunk_addr_def ZID_TO_ZONE_def sizeof_heap_header_def sizeof_zone_def sizeof_zone_header_def MAX_CHUNK_def chunk_def)
  have ops: "list_all (\<lambda>(op, m). run_block 0 0 m \<and> chunk = chunk_addr 4096 m) example_blocks"
    using ca by (simp add: example_blocks_def run_block_def MAX_BITMAP_VALUES_def)
  have "redo_log_check_offset example_pool 529424"
    by (simp add: redo_log_check_offset_def example_pool_def)
  then obtain ctx where ctx: "prep_all mem 4096 example_blocks (operation_init example_pool 0) = Some ctx"
    using ca by (simp add: example_blocks_def run_prep_operation_hdr_def Let_def operation_add_entry_def operation_add_typed_entry_def
        operation_init_def OBJ_PTR_TO_OFF_def bitmap_addr_def chunk_def MAX_PERSITENT_ENTRIES_def BITS_PER_VALUE_def)
  obtain evs where evs: "operation_process mem ctx = Some evs"
      "used_bits (word_at 0 (cache (run evs (boot mem)))) chunk = fold apply_op example_blocks (used_bits (word_at 0 mem) chunk)"
    using run_ops_grouped [OF pool ops ctx] by blast
  moreover have "fold apply_op example_blocks (used_bits (word_at 0 mem) chunk) = {0, 1}"
  proof -
    have "used_bits (word_at 0 mem) chunk = {}" by (simp add: used_bits_def word_at_def mem_def)
    moreover have "{0 ..< 4 :: nat} - {2 ..< 4} = {0, 1}" by auto
    ultimately show ?thesis by (simp add: example_blocks_def apply_op_def block_bits_def)
  qed
  ultimately show ?thesis using pool ctx unfolding Let_def chunk_def [symmetric] mem_def [symmetric] by auto
qed

end
