(* ===== verification/Heap_Init.thy ===== *)
theory Heap_Init
  imports Memblock_Props
begin

text \<open>
  Persistent initialisation in \<open>src/nvml/src/libpmemobj/heap.c\<close>: chunk headers and footers, and turning a free chunk into a run. Each function is
  the list of its memory operations, as a function of the memory that it reads.
\<close>

definition loc :: "u64 \<Rightarrow> u64 \<Rightarrow> redo_log" where
  "loc base addr = Data (OBJ_PTR_TO_OFF base addr)"

subsection \<open>Chunk headers\<close>

definition heap_chunk_write_footer :: "u64 \<Rightarrow> redo_mem \<Rightarrow> u64 \<Rightarrow> u32 \<Rightarrow> (redo_log, u64) ev list" where
  "heap_chunk_write_footer base mem hdr sz =
     (if sz = 1 then []
      else let f = (mem (loc base hdr) AND 0xFFFF0000) OR ucast (chunk_type_code CHUNK_TYPE_FOOTER) OR push_bit 32 (ucast sz)
           in [Store (loc base (hdr + 8 * ucast sz - 8)) f])"

definition heap_chunk_init :: "u64 \<Rightarrow> redo_mem \<Rightarrow> u64 \<Rightarrow> chunk_type \<Rightarrow> u32 \<Rightarrow> (redo_log, u64) ev list" where
  "heap_chunk_init base mem hdr type sz =
     (let nhdr = chunk_get_chunk_hdr_value (chunk_type_code type) sz
      in [Store (loc base hdr) nhdr] @ persist [loc base hdr] @ heap_chunk_write_footer base (mem(loc base hdr := nhdr)) hdr sz)"

subsection \<open>Runs\<close>

definition heap_set_run_bucket :: "u64 \<Rightarrow> u64 \<Rightarrow> u64 \<Rightarrow> (redo_log, u64) ev list" where
  "heap_set_run_bucket base run_addr b = [Store (loc base (run_addr + 8)) b]"

definition set_hdr_type :: "chunk_type \<Rightarrow> u64 \<Rightarrow> u64" where
  "set_hdr_type type w = (w AND NOT 0xFFFF) OR ucast (chunk_type_code type)"

definition bitmap_locs :: "u64 \<Rightarrow> u64 \<Rightarrow> redo_log list" where
  "bitmap_locs base run_addr = map (\<lambda>i. loc base (bitmap_addr run_addr i)) [0 ..< MAX_BITMAP_VALUES]"

definition heap_init_run :: "u64 \<Rightarrow> redo_mem \<Rightarrow> bucket_run \<Rightarrow> u64 \<Rightarrow> u64 \<Rightarrow> u64 \<Rightarrow> (redo_log, u64) ev list" where
  "heap_init_run base mem r unit_size hdr run_addr =
     [Store (loc base run_addr) unit_size] @ persist [loc base run_addr] @
     map (\<lambda>i. Store (loc base (bitmap_addr run_addr i)) (- 1)) [0 ..< MAX_BITMAP_VALUES] @
     map (\<lambda>i. Store (loc base (bitmap_addr run_addr i)) 0) [0 ..< bitmap_nval r - 1] @
     [Store (loc base (bitmap_addr run_addr (bitmap_nval r - 1))) (bitmap_lastval r)] @
     persist (bitmap_locs base run_addr) @
     [Store (loc base hdr) (set_hdr_type CHUNK_TYPE_RUN (mem (loc base hdr)))] @ persist [loc base hdr]"

subsection \<open>Stores into a range\<close>

lemma cache_stores:
  assumes "inj_on f (insert j (set xs))"
  shows "cache (run (map (\<lambda>i. Store (f i) (g i)) xs) s) (f j) = (if j \<in> set xs then g j else cache s (f j))"
  using assms
proof (induction xs rule: rev_induct)
  case (snoc x xs)
  have "inj_on f (insert j (set xs))" using snoc.prems by (rule inj_on_subset) auto
  moreover have "f x = f j \<longleftrightarrow> x = j" using inj_onD [OF snoc.prems, of x j] by auto
  ultimately show ?case using snoc.IH by auto
qed simp

lemma stored_map: "stored (map (\<lambda>i. Store (f i) (g i)) xs) = f ` set xs"
  by (auto simp: stored_def)

lemma cache_other: "l \<notin> stored evs \<Longrightarrow> cache (run evs s) l = cache s l"
proof (induction evs arbitrary: s)
  case (Cons e evs)
  then show ?case by (cases e) auto
qed simp

lemma loc_inj [simp]: "loc base a = loc base b \<longleftrightarrow> a = b"
  by (simp add: loc_def OBJ_PTR_TO_OFF_def)

lemma bitmap_inj: "inj_on (\<lambda>i. loc base (bitmap_addr run_addr i)) {..< MAX_BITMAP_VALUES}"
  by (rule inj_onI) (simp add: bitmap_addr_eq)

text \<open>The words of the bitmap of a new run.\<close>

definition new_bitmap :: "bucket_run \<Rightarrow> nat \<Rightarrow> u64" where
  "new_bitmap r i = (if i < bitmap_nval r then fresh_bitmap r i else - 1)"

lemma init_bitmap_cache:
  assumes "0 < bitmap_nval r" "bitmap_nval r \<le> MAX_BITMAP_VALUES" "i < MAX_BITMAP_VALUES"
  shows "cache (run (map (\<lambda>i. Store (loc base (bitmap_addr run_addr i)) (- 1)) [0 ..< MAX_BITMAP_VALUES] @
     map (\<lambda>i. Store (loc base (bitmap_addr run_addr i)) 0) [0 ..< bitmap_nval r - 1] @
     [Store (loc base (bitmap_addr run_addr (bitmap_nval r - 1))) (bitmap_lastval r)]) s) (loc base (bitmap_addr run_addr i)) = new_bitmap r i"
proof -
  let ?f = "\<lambda>i. loc base (bitmap_addr run_addr i)"
  have inj: "inj_on ?f (insert i (set xs))" if "set xs \<subseteq> {..< MAX_BITMAP_VALUES}" for xs
    using that assms(3) by (intro inj_on_subset [OF bitmap_inj]) auto
  have last: "bitmap_addr run_addr (bitmap_nval r - 1) = bitmap_addr run_addr i \<longleftrightarrow> bitmap_nval r - 1 = i"
    using assms by (intro bitmap_addr_eq) auto
  have "cache (run (map (\<lambda>i. Store (?f i) 0) [0 ..< bitmap_nval r - 1]) (run (map (\<lambda>i. Store (?f i) (- 1)) [0 ..< MAX_BITMAP_VALUES]) s)) (?f i) =
      (if i < bitmap_nval r - 1 then 0 else - 1)"
    using assms cache_stores [OF inj, of "[0 ..< bitmap_nval r - 1]" "\<lambda>_. 0 :: u64"] cache_stores [OF inj, of "[0 ..< MAX_BITMAP_VALUES]" "\<lambda>_. - 1 :: u64" s]
    by (auto simp: atLeast0LessThan)
  then show ?thesis using last assms(1) by (auto simp: new_bitmap_def fresh_bitmap_def)
qed

subsection \<open>A crash during the initialisation of a run\<close>

definition run_prefix :: "u64 \<Rightarrow> bucket_run \<Rightarrow> u64 \<Rightarrow> u64 \<Rightarrow> (redo_log, u64) ev list" where
  "run_prefix base r unit_size run_addr =
     [Store (loc base run_addr) unit_size] @ persist [loc base run_addr] @
     (map (\<lambda>i. Store (loc base (bitmap_addr run_addr i)) (- 1)) [0 ..< MAX_BITMAP_VALUES] @
      map (\<lambda>i. Store (loc base (bitmap_addr run_addr i)) 0) [0 ..< bitmap_nval r - 1] @
      [Store (loc base (bitmap_addr run_addr (bitmap_nval r - 1))) (bitmap_lastval r)]) @
     persist (bitmap_locs base run_addr)"

lemma heap_init_run_split:
  "heap_init_run base mem r unit_size hdr run_addr = run_prefix base r unit_size run_addr @
     [Store (loc base hdr) (set_hdr_type CHUNK_TYPE_RUN (mem (loc base hdr)))] @ persist [loc base hdr]"
  by (simp add: heap_init_run_def run_prefix_def)

lemma run_prefix_stored:
  assumes "0 < bitmap_nval r" "bitmap_nval r \<le> MAX_BITMAP_VALUES"
  shows "stored (run_prefix base r unit_size run_addr) = insert (loc base run_addr) ((\<lambda>i. loc base (bitmap_addr run_addr i)) ` {..< MAX_BITMAP_VALUES})"
  using assms by (auto simp: run_prefix_def stored_map)

lemma run_addr_bitmap: "i < MAX_BITMAP_VALUES \<Longrightarrow> run_addr \<noteq> bitmap_addr run_addr i"
proof
  assume i: "i < MAX_BITMAP_VALUES" and "run_addr = bitmap_addr run_addr i"
  then have "of_nat (16 + 8 * i) = (0 :: u64)" by (simp add: bitmap_addr_def)
  then have "unat (of_nat (16 + 8 * i) :: u64) = 0" by (simp only: unat_0)
  then show False using i unfolding unat_of_nat by (simp add: MAX_BITMAP_VALUES_def)
qed

lemma run_prefix_durable:
  assumes "0 < bitmap_nval r" "bitmap_nval r \<le> MAX_BITMAP_VALUES" "pm_ok s"
  shows "durable (run (run_prefix base r unit_size run_addr) s) (loc base run_addr) \<subseteq> {unit_size}"
    "i < MAX_BITMAP_VALUES \<Longrightarrow> durable (run (run_prefix base r unit_size run_addr) s) (loc base (bitmap_addr run_addr i)) = {new_bitmap r i}"
proof -
  let ?a = "[Store (loc base run_addr) unit_size] @ persist [loc base run_addr]"
  let ?b = "map (\<lambda>i. Store (loc base (bitmap_addr run_addr i)) (- 1)) [0 ..< MAX_BITMAP_VALUES] @
     map (\<lambda>i. Store (loc base (bitmap_addr run_addr i)) 0) [0 ..< bitmap_nval r - 1] @
     [Store (loc base (bitmap_addr run_addr (bitmap_nval r - 1))) (bitmap_lastval r)]"
  let ?c = "persist (bitmap_locs base run_addr)"
  have split: "run_prefix base r unit_size run_addr = ?a @ (?b @ ?c)" by (simp add: run_prefix_def)
  have a: "durable (run ?a s) (loc base run_addr) = {unit_size}" by (simp add: persist_def)
  have "bitmap_nval r - 1 < MAX_BITMAP_VALUES" using assms by simp
  then have "loc base run_addr \<notin> stored (?b @ ?c)" using run_addr_bitmap by (auto simp: stored_map)
  from run_untouched [OF this pm_ok_run [OF assms(3)], of ?a] a
  show "durable (run (run_prefix base r unit_size run_addr) s) (loc base run_addr) \<subseteq> {unit_size}"
    unfolding split run_simps(3) [of ?a "?b @ ?c"] by blast
  assume i: "i < MAX_BITMAP_VALUES"
  then have mem: "loc base (bitmap_addr run_addr i) \<in> set (bitmap_locs base run_addr)" by (auto simp: bitmap_locs_def)
  have "durable (run ?c (run ?b (run ?a s))) (loc base (bitmap_addr run_addr i)) = {cache (run ?b (run ?a s)) (loc base (bitmap_addr run_addr i))}"
    by (rule pm_run_persist [OF mem])
  also have "cache (run ?b (run ?a s)) (loc base (bitmap_addr run_addr i)) = new_bitmap r i" by (rule init_bitmap_cache [OF assms(1,2) i])
  finally show "durable (run (run_prefix base r unit_size run_addr) s) (loc base (bitmap_addr run_addr i)) = {new_bitmap r i}"
    unfolding split run_simps(3) [of ?a "?b @ ?c"] run_simps(3) [of ?b ?c] .
qed

lemma crash_keeps:
  assumes "m \<in> crash (run (take k evs) (boot mem))" "l \<notin> stored evs"
  shows "m l = mem l"
proof -
  have "l \<notin> stored (take k evs)" using assms(2) by (auto simp: stored_def dest: in_set_takeD)
  from run_untouched [OF this, of "boot mem"] assms(1) show ?thesis by (auto simp: crash_def)
qed

lemma new_bitmap_used:
  fixes umax :: u32
  assumes "0 < RUNSIZE div unat unit_size" "RUNSIZE div unat unit_size \<le> RUN_BITMAP_SIZE"
  defines "r \<equiv> bucket_run_create unit_size umax"
  shows "0 < bitmap_nval r" "bitmap_nval r \<le> MAX_BITMAP_VALUES"
    "{k. k < 64 * MAX_BITMAP_VALUES \<and> bit (new_bitmap r (k div 64)) (k mod 64)} = {RUNSIZE div unat unit_size ..< 64 * MAX_BITMAP_VALUES}"
proof -
  let ?n = "RUNSIZE div unat unit_size"
  note f = fresh_bitmap_bits [OF assms(2), of umax, unfolded Let_def BITS_PER_VALUE_def r_def [symmetric]]
  show le: "bitmap_nval r \<le> MAX_BITMAP_VALUES" using f by simp
  have eq: "k < 64 * bitmap_nval r \<and> \<not> bit (fresh_bitmap r (k div 64)) (k mod 64) \<longleftrightarrow> k < ?n" for k
    using conjunct1 [OF f] by (auto simp: set_eq_iff)
  show "0 < bitmap_nval r" using eq [of 0] assms(1) by auto
  have "bit (new_bitmap r (k div 64)) (k mod 64) \<longleftrightarrow> ?n \<le> k" if "k < 64 * MAX_BITMAP_VALUES" for k
  proof (cases "k < 64 * bitmap_nval r")
    case True
    then have "k div 64 < bitmap_nval r" by (simp add: less_mult_imp_div_less mult.commute)
    then show ?thesis using eq [of k] True by (auto simp: new_bitmap_def)
  next
    case False
    then have "\<not> k div 64 < bitmap_nval r" by (metis div_less_iff_less_mult mult.commute zero_less_numeral)
    moreover have "?n \<le> k" using eq [of k] False by auto
    ultimately show ?thesis by (simp add: new_bitmap_def)
  qed
  then show "{k. k < 64 * MAX_BITMAP_VALUES \<and> bit (new_bitmap r (k div 64)) (k mod 64)} = {?n ..< 64 * MAX_BITMAP_VALUES}" by auto
qed

text \<open>C30: A chunk becomes a run atomically. When the power fails after any number of the memory operations of \<open>heap_init_run\<close>, either the
  chunk header is unchanged, or the header says run and the run is completely initialised: it has the block size of the bucket
  and a bitmap in which exactly the blocks that fit into the run are free. Nothing outside the header, the block size and
  the bitmap changes.\<close>

theorem init_run_atomic:
  assumes "0 < RUNSIZE div unat unit_size" "RUNSIZE div unat unit_size \<le> RUN_BITMAP_SIZE"
    "hdr \<notin> insert run_addr (bitmap_addr run_addr ` {..< MAX_BITMAP_VALUES})"
    "m \<in> crash (run (take k (heap_init_run base mem (bucket_run_create unit_size umax) unit_size hdr run_addr)) (boot mem))"
  shows "(word_at base m hdr = word_at base mem hdr \<or>
      word_at base m hdr = set_hdr_type CHUNK_TYPE_RUN (word_at base mem hdr) \<and> word_at base m run_addr = unit_size \<and>
      used_bits (word_at base m) run_addr = {RUNSIZE div unat unit_size ..< 64 * MAX_BITMAP_VALUES}) \<and>
    {a. word_at base m a \<noteq> word_at base mem a} \<subseteq> insert hdr (insert run_addr (bitmap_addr run_addr ` {..< MAX_BITMAP_VALUES}))"
proof -
  let ?r = "bucket_run_create unit_size umax"
  define A B where "A = run_prefix base ?r unit_size run_addr"
    and "B = [Store (loc base hdr) (set_hdr_type CHUNK_TYPE_RUN (mem (loc base hdr)))] @ persist [loc base hdr]"
  note n = new_bitmap_used [OF assms(1,2), of umax]
  have evs: "heap_init_run base mem ?r unit_size hdr run_addr = A @ B" unfolding A_def B_def by (rule heap_init_run_split)
  have stA: "stored A = loc base ` insert run_addr (bitmap_addr run_addr ` {..< MAX_BITMAP_VALUES})"
    unfolding A_def run_prefix_stored [OF n(1,2)] by auto
  have stB: "stored B = {loc base hdr}" by (simp add: B_def)
  have w: "word_at base m' a = m' (loc base a)" for m' a by (simp add: word_at_def loc_def)
  have hA: "loc base hdr \<notin> stored A" using assms(3) by (auto simp: stA)
  have keep: "m l = mem l" if "l \<notin> stored (A @ B)" for l
    using crash_keeps [OF assms(4) [unfolded evs] that] .
  have other: "{a. word_at base m a \<noteq> word_at base mem a} \<subseteq> insert hdr (insert run_addr (bitmap_addr run_addr ` {..< MAX_BITMAP_VALUES}))"
  proof
    fix a assume "a \<in> {a. word_at base m a \<noteq> word_at base mem a}"
    then have "loc base a \<in> stored (A @ B)" using keep [of "loc base a"] by (auto simp: w)
    then show "a \<in> insert hdr (insert run_addr (bitmap_addr run_addr ` {..< MAX_BITMAP_VALUES}))" by (auto simp: stA stB)
  qed
  show ?thesis
  proof (cases "k \<le> length A")
    case True
    then have "m \<in> crash (run (take k A) (boot mem))" using assms(4) by (simp add: evs)
    then have "word_at base m hdr = word_at base mem hdr" unfolding w by (rule crash_keeps [OF _ hA])
    then show ?thesis using other by blast
  next
    case False
    define s where "s = run A (boot mem)"
    have s: "pm_ok s" unfolding s_def by (rule pm_ok_run) simp
    have m: "m \<in> crash (run (take (k - length A) B) s)" using assms(4) False by (simp add: evs s_def)
    have "durable (run (take (k - length A) B) s) (loc base hdr) \<subseteq> insert (set_hdr_type CHUNK_TYPE_RUN (mem (loc base hdr))) (durable s (loc base hdr))"
      by (rule run_one_value [OF s]) (auto simp: B_def persist_def)
    moreover have "durable s (loc base hdr) \<subseteq> {mem (loc base hdr)}" using run_untouched [OF hA, of "boot mem"] by (simp add: s_def)
    ultimately have h: "m (loc base hdr) \<in> {mem (loc base hdr), set_hdr_type CHUNK_TYPE_RUN (mem (loc base hdr))}"
      using m by (auto simp: crash_def)
    have ms: "m l \<in> durable s l" if "l \<noteq> loc base hdr" for l
    proof -
      have "l \<notin> stored (take (k - length A) B)" using that stB by (auto simp: stored_def dest: in_set_takeD)
      from run_untouched [OF this s] m show ?thesis by (auto simp: crash_def)
    qed
    have "m (loc base run_addr) = unit_size"
      using ms [of "loc base run_addr"] run_prefix_durable(1) [OF n(1,2), of "boot mem" base unit_size run_addr] assms(3) by (auto simp: s_def A_def)
    moreover have "word_at base m (bitmap_addr run_addr i) = new_bitmap ?r i" if "i < MAX_BITMAP_VALUES" for i
      using ms [of "loc base (bitmap_addr run_addr i)"] run_prefix_durable(2) [OF n(1,2) _ that, of "boot mem" base unit_size run_addr] assms(3) that
      by (auto simp: s_def A_def w)
    then have "used_bits (word_at base m) run_addr = {RUNSIZE div unat unit_size ..< 64 * MAX_BITMAP_VALUES}"
      using n(3) by (simp add: used_bits_def less_mult_imp_div_less mult.commute cong: conj_cong)
    ultimately show ?thesis using h other by (auto simp: w)
  qed
qed

theorem init_run_atomic_witness:
  "let mem = (\<lambda>_. 0); evs = heap_init_run 0 mem (bucket_run_create 128 8) 128 64 4096; m = cache (run (take (length evs) evs) (boot mem))
   in m \<in> crash (run (take (length evs) evs) (boot mem)) \<and> (64 :: u64) \<notin> insert 4096 (bitmap_addr 4096 ` {..< MAX_BITMAP_VALUES}) \<and>
      word_at 0 m 64 = 4 \<and> word_at 0 m 4096 = 128 \<and> used_bits (word_at 0 m) 4096 = {2045 ..< 64 * MAX_BITMAP_VALUES}"
proof -
  define mem :: redo_mem where "mem = (\<lambda>_. 0)"
  define evs where "evs = heap_init_run 0 mem (bucket_run_create 128 8) 128 64 4096"
  define m where "m = cache (run (take (length evs) evs) (boot mem))"
  have n: "RUNSIZE div unat (128 :: u64) = 2045" "RUNSIZE div unat (128 :: u64) \<le> RUN_BITMAP_SIZE"
    by (simp_all add: RUNSIZE_def CHUNKSIZE_def RUN_METASIZE_def RUN_BITMAP_SIZE_def BITS_PER_VALUE_def MAX_BITMAP_VALUES_def)
  have "64 \<noteq> bitmap_addr 4096 i" if "i < MAX_BITMAP_VALUES" for i
  proof
    assume "64 = bitmap_addr 4096 i"
    then have "of_nat (4048 + 8 * i) = (0 :: u64)" by (simp add: bitmap_addr_def)
    then have "unat (of_nat (4048 + 8 * i) :: u64) = 0" by (simp only: unat_0)
    then show False using that unfolding unat_of_nat by (simp add: MAX_BITMAP_VALUES_def)
  qed
  then have h: "(64 :: u64) \<notin> insert 4096 (bitmap_addr 4096 ` {..< MAX_BITMAP_VALUES})" by auto
  have c: "m \<in> crash (run (take (length evs) evs) (boot mem))"
    using pm_ok_run [OF pm_ok_boot, of "take (length evs) evs" mem] by (simp add: m_def crash_def pm_ok_def)
  have hd: "word_at 0 m 64 = 4"
    by (simp add: m_def evs_def heap_init_run_split persist_def word_at_def loc_def OBJ_PTR_TO_OFF_def set_hdr_type_def mem_def)
  have "word_at 0 m 64 \<noteq> word_at 0 mem 64" unfolding hd by (simp add: word_at_def mem_def)
  then show ?thesis
    using init_run_atomic [OF _ n(2) h c [unfolded evs_def]] n c h hd unfolding Let_def mem_def [symmetric] evs_def [symmetric] m_def [symmetric] by simp
qed

subsection \<open>Creating and reusing runs\<close>

text \<open>The blocks of the run go to the bucket once the run is initialised. A run found in the heap is claimed by writing its bucket pointer,
  unless it has turned back into a chunk or another bucket owns it.\<close>

definition heap_create_run :: "'c block_container_ops \<Rightarrow> (memory_block \<Rightarrow> bool) \<Rightarrow> u64 \<Rightarrow> redo_mem \<Rightarrow> u64 \<Rightarrow> bucket_run \<Rightarrow> u64 \<Rightarrow> u64 \<Rightarrow>
    memory_block \<Rightarrow> 'c \<Rightarrow> ((redo_log, u64) ev list \<times> 'c) option" where
  "heap_create_run ops alloc base mem hl r unit_size bptr m c =
     (let run_addr = chunk_addr hl m;
          evs = heap_set_run_bucket base run_addr bptr @ heap_init_run base mem r unit_size (chunk_hdr_addr hl m) run_addr;
          mem' = cache (run evs (boot mem))
      in map_option (Pair evs) (heap_process_run_metadata ops alloc (\<lambda>i. word_at base mem' (bitmap_addr run_addr i)) r
           (word_at base mem' run_addr) (chunk_id m) (zone_id m) c))"

definition heap_reuse_run :: "'c block_container_ops \<Rightarrow> (memory_block \<Rightarrow> bool) \<Rightarrow> u64 \<Rightarrow> redo_mem \<Rightarrow> u64 \<Rightarrow> bucket_run \<Rightarrow> u64 \<Rightarrow>
    memory_block \<Rightarrow> 'c \<Rightarrow> ((redo_log, u64) ev list \<times> 'c) option" where
  "heap_reuse_run ops alloc base mem hl r bptr m c =
     (let run_addr = chunk_addr hl m
      in if hdr_type (word_at base mem (chunk_hdr_addr hl m)) \<noteq> chunk_type_code CHUNK_TYPE_RUN then Some ([], c)
         else if word_at base mem (run_addr + 8) \<noteq> 0 then Some ([], c)
         else let evs = heap_set_run_bucket base run_addr bptr; mem' = cache (run evs (boot mem))
              in map_option (Pair evs) (heap_process_run_metadata ops alloc (\<lambda>i. word_at base mem' (bitmap_addr run_addr i)) r
                   (word_at base mem' run_addr) (chunk_id m) (zone_id m) c))"

end
