(* ===== verification/Heap_Blocks.thy ===== *)
theory Heap_Blocks
  imports Heap_Init
begin

text \<open>
  How \<open>src/nvml/src/libpmemobj/heap.c\<close> moves memory blocks between buckets and persistent headers: cutting a block, freeing and
  coalescing, degrading an empty run, and draining the buckets of other threads. Containers are used through their operations only.
  \<open>alloc\<close> tells for which blocks the allocations of a container succeed. \<open>None\<close> is undefined behaviour of C, a failed assertion or
  \<open>FATAL\<close>. The functions run under the locks of their buckets and are modelled as sequential steps.
\<close>

type_synonym heap_events = "(redo_log, u64) ev list"

definition ENOENT :: int where
  "ENOENT = 2"

definition EMPTY_MEMORY_BLOCK :: memory_block where
  "EMPTY_MEMORY_BLOCK = \<lparr>chunk_id = 0, zone_id = 0, size_idx = 0, block_off = 0\<rparr>"

text \<open>A bucket is of runs, with the data of its runs, or it is the default bucket, the only huge one.\<close>

datatype heap_bucket = Run_Bucket bucket_run | Huge_Bucket

definition chunk_hdr :: "u64 \<Rightarrow> redo_mem \<Rightarrow> u64 \<Rightarrow> u32 \<Rightarrow> u32 \<Rightarrow> u64" where
  "chunk_hdr base mem hl zid cid = word_at base mem (chunk_hdr_addr hl \<lparr>chunk_id = cid, zone_id = zid, size_idx = 0, block_off = 0\<rparr>)"

text \<open>The header of a zone has its magic number in the low half of its first word and its size in the high half.\<close>

definition zone_size_idx :: "u64 \<Rightarrow> redo_mem \<Rightarrow> u64 \<Rightarrow> u32 \<Rightarrow> u32" where
  "zone_size_idx base mem hl zid = hdr_size_idx (word_at base mem (ZID_TO_ZONE hl zid))"

subsection \<open>Cutting blocks\<close>

definition heap_resize_chunk :: "'c block_container_ops \<Rightarrow> (memory_block \<Rightarrow> bool) \<Rightarrow> u64 \<Rightarrow> redo_mem \<Rightarrow> u64 \<Rightarrow> u32 \<Rightarrow> u32 \<Rightarrow> u32 \<Rightarrow>
    'c \<Rightarrow> (heap_events \<times> 'c) option" where
  "heap_resize_chunk ops alloc base mem hl cid zid new_size_idx c =
     (let new_chunk_id = cid + new_size_idx;
          old_hdr = chunk_hdr_addr hl \<lparr>chunk_id = cid, zone_id = zid, size_idx = 0, block_off = 0\<rparr>;
          new_hdr = chunk_hdr_addr hl \<lparr>chunk_id = new_chunk_id, zone_id = zid, size_idx = 0, block_off = 0\<rparr>;
          rem_size_idx = hdr_size_idx (word_at base mem old_hdr) - new_size_idx;
          evs1 = heap_chunk_init base mem new_hdr CHUNK_TYPE_FREE rem_size_idx;
          evs2 = heap_chunk_init base (cache (run evs1 (boot mem))) old_hdr CHUNK_TYPE_FREE new_size_idx;
          m = \<lparr>chunk_id = new_chunk_id, zone_id = zid, size_idx = rem_size_idx, block_off = 0\<rparr>
      in map_option (\<lambda>(_, c). (evs1 @ evs2, c)) (c_insert ops (alloc m) (alloc m) m c))"

definition heap_recycle_block :: "'c block_container_ops \<Rightarrow> (memory_block \<Rightarrow> bool) \<Rightarrow> u64 \<Rightarrow> redo_mem \<Rightarrow> u64 \<Rightarrow> heap_bucket \<Rightarrow>
    memory_block \<Rightarrow> u32 \<Rightarrow> 'c \<Rightarrow> ((heap_events \<times> memory_block) \<times> 'c) option" where
  "heap_recycle_block ops alloc base mem hl b m units c =
     map_option (\<lambda>(evs, c). ((evs, m\<lparr>size_idx := units\<rparr>), c))
       (case b of
          Run_Bucket _ \<Rightarrow>
            (let r = m\<lparr>size_idx := size_idx m - units, block_off := ucast (ucast (block_off m) + units)\<rparr>
             in map_option (\<lambda>(_, c). ([], c)) (c_insert ops (alloc r) (alloc r) r c))
        | Huge_Bucket \<Rightarrow> heap_resize_chunk ops alloc base mem hl (chunk_id m) (zone_id m) units c)"

text \<open>The result of the search is not returned: the function ends with \<open>return 0\<close>.\<close>

definition heap_get_exact_block :: "'c block_container_ops \<Rightarrow> (memory_block \<Rightarrow> bool) \<Rightarrow> u64 \<Rightarrow> redo_mem \<Rightarrow> u64 \<Rightarrow> heap_bucket \<Rightarrow>
    memory_block \<Rightarrow> u32 \<Rightarrow> 'c \<Rightarrow> ((int \<times> heap_events \<times> memory_block) \<times> 'c) option" where
  "heap_get_exact_block ops alloc base mem hl b m units c =
     Option.bind (c_get_rm_exact ops m c) (\<lambda>(ret, c).
       if ret \<noteq> 0 then Some ((0, [], m), c)
       else if units \<noteq> size_idx m then map_option (\<lambda>(r, c). ((0, r), c)) (heap_recycle_block ops alloc base mem hl b m units c)
       else Some ((0, [], m), c))"

subsection \<open>Neighbours\<close>

text \<open>The loops of \<open>heap_run_get_block\<close>. A remainder by zero and a shift by 64 or more are undefined.\<close>

fun clear_down :: "u64 \<Rightarrow> nat \<Rightarrow> nat \<Rightarrow> nat" where
  "clear_down w umax 0 = 0"
| "clear_down w umax (Suc i) = (if Suc i mod umax \<noteq> 0 \<and> \<not> bit w i then clear_down w umax i else Suc i)"

function clear_up :: "u64 \<Rightarrow> nat \<Rightarrow> nat \<Rightarrow> nat option" where
  "clear_up w umax i =
     (if i mod umax = 0 then Some i
      else if 64 \<le> i then None
      else if \<not> bit w i then clear_up w umax (Suc i)
      else Some i)"
  by pat_completeness auto
termination
  by (relation "measure (\<lambda>(w, umax, i). 64 - i)") auto

declare clear_up.simps [simp del]

definition heap_run_get_block :: "(nat \<Rightarrow> u64) \<Rightarrow> u32 \<Rightarrow> memory_block \<Rightarrow> u32 \<Rightarrow> u16 \<Rightarrow> bool \<Rightarrow> (int \<times> memory_block) option" where
  "heap_run_get_block bitmap umax mb sz off prev =
     (if umax = 0 then None
      else let v = unat off div BITS_PER_VALUE; b = unat off mod BITS_PER_VALUE
           in map_option (\<lambda>mb. (if size_idx mb = 0 then ENOENT else 0, mb))
             (if prev
              then let boff = of_nat (v * BITS_PER_VALUE + clear_down (bitmap v) (unat umax) b) :: u16
                   in Some (mb\<lparr>block_off := boff, size_idx := ucast (off - boff)\<rparr>)
              else let start = unat (of_nat b + sz)
                   in map_option (\<lambda>i. mb\<lparr>block_off := ucast (ucast off + sz), size_idx := of_nat (i - start)\<rparr>)
                        (clear_up (bitmap v) (unat umax) start)))"

definition heap_get_chunk :: "u64 \<Rightarrow> redo_mem \<Rightarrow> u64 \<Rightarrow> u32 \<Rightarrow> memory_block \<Rightarrow> u32 \<Rightarrow> bool \<Rightarrow> int \<times> memory_block" where
  "heap_get_chunk base mem hl zid m cid prev =
     (let hdr = chunk_hdr base mem hl zid;
          neighbour = (\<lambda>id. if hdr_type (hdr id) \<noteq> chunk_type_code CHUNK_TYPE_FREE then (ENOENT, m\<lparr>chunk_id := id\<rparr>)
                       else (0, m\<lparr>chunk_id := id, size_idx := hdr_size_idx (hdr id)\<rparr>))
      in if prev
         then if cid = 0 then (ENOENT, m) else neighbour (cid - hdr_size_idx (hdr (cid - 1)))
         else if cid + hdr_size_idx (hdr cid) = zone_size_idx base mem hl zid then (ENOENT, m)
              else neighbour (cid + hdr_size_idx (hdr cid)))"

text \<open>\<open>b\<close> may be NULL; a huge bucket with a run fails the assertion of \<open>heap_run_get_block\<close>.\<close>

definition heap_get_adjacent_free_block :: "u64 \<Rightarrow> redo_mem \<Rightarrow> u64 \<Rightarrow> heap_bucket option \<Rightarrow> memory_block \<Rightarrow> memory_block \<Rightarrow> bool \<Rightarrow>
    (int \<times> memory_block) option" where
  "heap_get_adjacent_free_block base mem hl b m cnt prev =
     (case b of None \<Rightarrow> Some (EINVAL, m)
      | Some b \<Rightarrow>
          let m = m\<lparr>zone_id := zone_id cnt\<rparr>
          in if hdr_type (chunk_hdr base mem hl (zone_id cnt) (chunk_id cnt)) = chunk_type_code CHUNK_TYPE_RUN
             then case b of Huge_Bucket \<Rightarrow> None
                  | Run_Bucket r \<Rightarrow> heap_run_get_block (\<lambda>i. word_at base mem (bitmap_addr (chunk_addr hl cnt) i)) (unit_max r)
                      (m\<lparr>chunk_id := chunk_id cnt\<rparr>) (size_idx cnt) (block_off cnt) prev
             else Some (heap_get_chunk base mem hl (zone_id cnt) m (chunk_id cnt) prev))"

subsection \<open>Freeing\<close>

text \<open>The dispatch \<open>MEMBLOCK_OPS(AUTO, ...)->prep_hdr\<close>.\<close>

definition prep_hdr :: "u64 \<Rightarrow> redo_mem \<Rightarrow> u64 \<Rightarrow> memory_block \<Rightarrow> memblock_hdr_op \<Rightarrow> operation_context \<Rightarrow> operation_context option" where
  "prep_hdr base mem hl m op ctx =
     Option.bind (memblock_autodetect_type base mem hl m) (\<lambda>t. case t of
       MEMORY_BLOCK_HUGE \<Rightarrow> huge_prep_operation_hdr mem hl m op ctx
     | MEMORY_BLOCK_RUN \<Rightarrow> run_prep_operation_hdr mem hl m op ctx)"

definition heap_coalesce :: "u64 \<Rightarrow> redo_mem \<Rightarrow> u64 \<Rightarrow> memory_block option list \<Rightarrow> memblock_hdr_op \<Rightarrow> operation_context option \<Rightarrow>
    (memory_block \<times> operation_context option) option" where
  "heap_coalesce base mem hl bs op ctx =
     (case List.map_filter id bs of [] \<Rightarrow> None
      | b # rest \<Rightarrow>
          let ret = b\<lparr>size_idx := sum_list (map size_idx (b # rest))\<rparr>
          in case ctx of None \<Rightarrow> Some (ret, None)
             | Some ctx \<Rightarrow> map_option (\<lambda>ctx. (ret, Some ctx)) (prep_hdr base mem hl ret op ctx))"

text \<open>One of the two conditions of \<open>heap_free_block\<close>: the neighbour, when it is free and in the bucket.\<close>

definition take_neighbour :: "'c block_container_ops \<Rightarrow> u64 \<Rightarrow> redo_mem \<Rightarrow> u64 \<Rightarrow> heap_bucket option \<Rightarrow> memory_block \<Rightarrow> bool \<Rightarrow> 'c \<Rightarrow>
    (memory_block option \<times> 'c) option" where
  "take_neighbour ops base mem hl b m prev c =
     Option.bind (heap_get_adjacent_free_block base mem hl b EMPTY_MEMORY_BLOCK m prev) (\<lambda>(e, n).
       if e \<noteq> 0 then Some (None, c)
       else map_option (\<lambda>(ret, c). (if ret = 0 then Some n else None, c)) (c_get_rm_exact ops n c))"

definition heap_free_block :: "'c block_container_ops \<Rightarrow> u64 \<Rightarrow> redo_mem \<Rightarrow> u64 \<Rightarrow> heap_bucket option \<Rightarrow> memory_block \<Rightarrow>
    operation_context option \<Rightarrow> 'c \<Rightarrow> ((memory_block \<times> operation_context option) \<times> 'c) option" where
  "heap_free_block ops base mem hl b m ctx c =
     Option.bind (take_neighbour ops base mem hl b m True c) (\<lambda>(prev, c).
       Option.bind (take_neighbour ops base mem hl b m False c) (\<lambda>(nxt, c).
         map_option (\<lambda>r. (r, c)) (heap_coalesce base mem hl [prev, Some m, nxt] HDR_OP_FREE ctx)))"

subsection \<open>Draining other buckets\<close>

text \<open>The inner loop. Every block moved has at least \<open>sz\<close> units, so for a positive \<open>sz\<close> a fuel of \<open>limit\<close> is enough.\<close>

fun drain_bucket :: "'c block_container_ops \<Rightarrow> (memory_block \<Rightarrow> bool) \<Rightarrow> nat \<Rightarrow> u32 \<Rightarrow> nat \<Rightarrow> nat \<Rightarrow> 'c \<Rightarrow> 'c \<Rightarrow> (nat \<times> 'c \<times> 'c) option" where
  "drain_bucket ops alloc limit sz fuel drained b aux =
     (if \<not> drained < limit then Some (drained, b, aux)
      else case fuel of 0 \<Rightarrow> None | Suc fuel \<Rightarrow>
        Option.bind (c_is_empty ops b) (\<lambda>(empty, b).
          if empty then Some (drained, b, aux)
          else Option.bind (c_get_rm_bestfit ops (EMPTY_MEMORY_BLOCK\<lparr>size_idx := sz\<rparr>) b) (\<lambda>((e, m), b).
            if e \<noteq> 0 then Some (drained, b, aux)
            else Option.bind (c_insert ops (alloc m) (alloc m) m aux) (\<lambda>(_, aux).
              drain_bucket ops alloc limit sz fuel (drained + unat (size_idx m)) b aux))))"

declare drain_bucket.simps [simp del]

text \<open>The outer loop visits the caches in turn from the 32-bit counter \<open>last_drained\<close> and leaves out that of the requesting thread.\<close>

record 'c drain_state =
  d_caches :: "'c list"
  d_aux :: 'c
  last_drained :: u32
  total_drained :: nat

definition drain_step :: "'c block_container_ops \<Rightarrow> (memory_block \<Rightarrow> bool) \<Rightarrow> nat \<Rightarrow> nat \<Rightarrow> u32 \<Rightarrow> nat \<Rightarrow> 'c drain_state \<Rightarrow> 'c drain_state option" where
  "drain_step ops alloc units_per_bucket units_total sz own s =
     (if \<not> total_drained s < units_total then Some s
      else let cid = unat (last_drained s) mod length (d_caches s); s = s\<lparr>last_drained := last_drained s + 1\<rparr>
           in if cid = own then Some s
              else map_option (\<lambda>(n, b, aux). s\<lparr>d_caches := (d_caches s)[cid := b], d_aux := aux, total_drained := total_drained s + n\<rparr>)
                     (drain_bucket ops alloc units_per_bucket sz units_per_bucket 0 (d_caches s ! cid) (d_aux s)))"

fun drain_loop :: "('s \<Rightarrow> 's option) \<Rightarrow> nat \<Rightarrow> 's \<Rightarrow> 's option" where
  "drain_loop f 0 s = Some s"
| "drain_loop f (Suc n) s = Option.bind (f s) (drain_loop f n)"

text \<open>\<open>(unsigned)(nallocs * 0.2)\<close> is the division by five.\<close>

definition heap_drain_to_auxiliary :: "'c block_container_ops \<Rightarrow> (memory_block \<Rightarrow> bool) \<Rightarrow> bucket_run \<Rightarrow> u32 \<Rightarrow> nat \<Rightarrow> 'c list \<Rightarrow> 'c \<Rightarrow>
    u32 \<Rightarrow> 'c drain_state option" where
  "heap_drain_to_auxiliary ops alloc auxr sz own caches aux ctr =
     drain_loop (drain_step ops alloc (bitmap_nallocs auxr div 5) (bitmap_nallocs auxr * 2) sz own) (length caches)
       \<lparr>d_caches = caches, d_aux = aux, last_drained = ctr, total_drained = 0\<rparr>"

subsection \<open>Degrading runs\<close>

text \<open>\<open>traverse_bucket_run\<close> with its 32-bit sum; the loop may miss the number of blocks, so it has fuel.\<close>

fun traverse_loop :: "(memory_block \<Rightarrow> 'c \<Rightarrow> (int \<times> 'c) option) \<Rightarrow> bucket_run \<Rightarrow> nat \<Rightarrow> u32 \<Rightarrow> memory_block \<Rightarrow> 'c \<Rightarrow> (int \<times> 'c) option" where
  "traverse_loop cb r fuel acc m c =
     (if acc = of_nat (bitmap_nallocs r) then Some (0, c)
      else case fuel of 0 \<Rightarrow> None | Suc fuel \<Rightarrow>
        Option.bind (cb m c) (\<lambda>(ret, c).
          if ret \<noteq> 0 then Some (1, c)
          else let off = ucast (ucast (block_off m) + unit_max r) :: u16;
                   sz = (if ucast off + unit_max r > of_nat (bitmap_nallocs r) then of_nat (bitmap_nallocs r) - ucast off else unit_max r)
               in traverse_loop cb r fuel (acc + size_idx m) (m\<lparr>block_off := off, size_idx := sz\<rparr>) c))"

declare traverse_loop.simps [simp del]

definition traverse_bucket_run :: "(memory_block \<Rightarrow> 'c \<Rightarrow> (int \<times> 'c) option) \<Rightarrow> bucket_run \<Rightarrow> memory_block \<Rightarrow> 'c \<Rightarrow> (int \<times> 'c) option" where
  "traverse_bucket_run cb r m c =
     traverse_loop cb r (Suc (bitmap_nallocs r)) 0 (m\<lparr>block_off := 0, size_idx := unit_max r\<rparr>) c"

definition run_unused :: "(nat \<Rightarrow> u64) \<Rightarrow> bucket_run \<Rightarrow> bool" where
  "run_unused bitmap r \<longleftrightarrow> list_all (\<lambda>i. bitmap i = 0) [0 ..< bitmap_nval r - 1] \<and> bitmap (bitmap_nval r - 1) = bitmap_lastval r"

text \<open>The result: the memory operations, the container of the bucket and that of the default bucket.\<close>

definition heap_degrade_run_if_empty :: "'c block_container_ops \<Rightarrow> (memory_block \<Rightarrow> bool) \<Rightarrow> PMEMobjpool \<Rightarrow> u64 \<Rightarrow> redo_mem \<Rightarrow> u64 \<Rightarrow>
    bucket_run \<Rightarrow> memory_block \<Rightarrow> 'c \<Rightarrow> 'c \<Rightarrow> (heap_events \<times> 'c \<times> 'c) option" where
  "heap_degrade_run_if_empty ops alloc pop base mem hl r m c defc =
     (if \<not> run_unused (\<lambda>i. word_at base mem (bitmap_addr (chunk_addr hl m) i)) r then Some ([], c, defc)
      else Option.bind (traverse_bucket_run (c_get_exact ops) r m c) (\<lambda>(ret, c).
        if ret \<noteq> 0 then Some ([], c, defc)
        else Option.bind (traverse_bucket_run (c_get_rm_exact ops) r m c) (\<lambda>(ret, c).
          if ret \<noteq> 0 then None
          else let m = m\<lparr>block_off := 0, size_idx := 1\<rparr>;
                   evs = heap_chunk_init base mem (chunk_hdr_addr hl m) CHUNK_TYPE_FREE 1;
                   mem' = cache (run evs (boot mem))
               in Option.bind (heap_free_block ops base mem' hl (Some Huge_Bucket) m (Some (operation_init pop base)) defc)
                    (\<lambda>((fm, ctx), defc). Option.bind ctx (\<lambda>ctx. Option.bind (operation_process mem' ctx) (\<lambda>evs'.
                       map_option (\<lambda>(_, defc). (evs @ evs', c, defc)) (c_insert ops (alloc fm) (alloc fm) fm defc)))))))"

end
