(* ===== verification/Heap_Drain.thy ===== *)
theory Heap_Drain
  imports Heap_Blocks
begin

text \<open>
  Draining the buckets of other threads loses and invents no block. The lemmas are about every container with the contract
  \<open>block_container\<close> and are used for the crit-bit trees of \<open>Bucket\<close>.
\<close>

definition request :: "u32 \<Rightarrow> memory_block" where
  "request sz = EMPTY_MEMORY_BLOCK\<lparr>size_idx := sz\<rparr>"

lemma request_fits: "0 < sz \<Longrightarrow> sz < 2 ^ 16 \<Longrightarrow> fits (request sz)"
  by (auto simp: request_def EMPTY_MEMORY_BLOCK_def fits_def)

lemma request_eligible: "eligible_blocks (request sz) B = {b \<in> B. sz \<le> size_idx b}"
  by (auto simp: request_def EMPTY_MEMORY_BLOCK_def eligible_blocks_def block_key_def less_eq_prod_simp word_le_def less_le)

text \<open>What a number of rounds does to the caches and the auxiliary bucket.\<close>

definition moved_blocks :: "('c \<Rightarrow> memory_block set) \<Rightarrow> 'c drain_state \<Rightarrow> 'c drain_state \<Rightarrow> memory_block set" where
  "moved_blocks blocks s s' = (\<Union>i<length (d_caches s). blocks (d_caches s ! i) - blocks (d_caches s' ! i))"

definition drained_between :: "('c \<Rightarrow> bool) \<Rightarrow> ('c \<Rightarrow> memory_block set) \<Rightarrow> (memory_block \<Rightarrow> bool) \<Rightarrow> u32 \<Rightarrow> nat \<Rightarrow> 'c drain_state \<Rightarrow> 'c drain_state \<Rightarrow> bool" where
  "drained_between I blocks alloc sz own s s' \<longleftrightarrow>
     length (d_caches s') = length (d_caches s) \<and> (\<forall>c\<in>set (d_caches s'). I c) \<and> I (d_aux s') \<and>
     (\<forall>i<length (d_caches s). blocks (d_caches s' ! i) \<subseteq> blocks (d_caches s ! i) \<and> (i = own \<longrightarrow> d_caches s' ! i = d_caches s ! i)) \<and>
     (\<forall>m\<in>moved_blocks blocks s s'. sz \<le> size_idx m) \<and> blocks (d_aux s') = blocks (d_aux s) \<union> {m \<in> moved_blocks blocks s s'. alloc m}"

lemma drained_refl: "\<forall>c\<in>set (d_caches s). I c \<Longrightarrow> I (d_aux s) \<Longrightarrow> drained_between I blocks alloc sz own s s"
  by (simp add: drained_between_def moved_blocks_def)

lemma drained_trans:
  assumes "drained_between I blocks alloc sz own s t" "drained_between I blocks alloc sz own t u"
  shows "drained_between I blocks alloc sz own s u"
proof -
  note d = assms [unfolded drained_between_def]
  have len: "length (d_caches t) = length (d_caches s)" using d(1) by blast
  have sub: "blocks (d_caches u ! i) \<subseteq> blocks (d_caches t ! i)" "blocks (d_caches t ! i) \<subseteq> blocks (d_caches s ! i)"
    if "i < length (d_caches s)" for i using d that len by simp_all
  have m: "moved_blocks blocks s u = moved_blocks blocks s t \<union> moved_blocks blocks t u"
    unfolding moved_blocks_def len using sub by blast
  have "blocks (d_caches u ! i) \<subseteq> blocks (d_caches s ! i) \<and> (i = own \<longrightarrow> d_caches u ! i = d_caches s ! i)"
    if "i < length (d_caches s)" for i using subset_trans [OF sub [OF that]] d that len by simp
  then show ?thesis using d unfolding drained_between_def m by auto
qed

context block_container
begin

lemma drain_bucket_ok:
  assumes "inv b" "inv aux" "0 < sz" "sz < 2 ^ 16" "limit \<le> drained + fuel"
  shows "\<exists>n b' aux' M. drain_bucket ops alloc limit sz fuel drained b aux = Some (n, b', aux') \<and> inv b' \<and> inv aux' \<and> M \<subseteq> blocks b \<and>
     blocks b' = blocks b - M \<and> blocks aux' = blocks aux \<union> {m \<in> M. alloc m} \<and> (\<forall>m\<in>M. sz \<le> size_idx m) \<and> drained \<le> n \<and>
     (n < limit \<longrightarrow> (\<forall>m\<in>blocks b'. \<not> sz \<le> size_idx m))"
  using assms
proof (induction fuel arbitrary: drained b aux)
  case 0
  then show ?case by (intro exI [of _ drained] exI [of _ b] exI [of _ aux] exI [of _ "{}"]) (simp add: drain_bucket.simps)
next
  case (Suc fuel)
  let ?E = "{m \<in> blocks b. sz \<le> size_idx m}"
  have e: "c_is_empty ops b = Some (blocks b = {}, b)" by (rule is_empty_law [OF Suc.prems(1)])
  obtain b1 where b1: "inv b1" "if ?E = {} then c_get_rm_bestfit ops (request sz) b = Some ((ENOMEM, request sz), b1) \<and> blocks b1 = blocks b
      else \<exists>m. is_least m ?E \<and> c_get_rm_bestfit ops (request sz) b = Some ((0, m), b1) \<and> blocks b1 = blocks b - {m}"
    using bestfit_law [OF Suc.prems(1) request_fits [OF Suc.prems(3,4)]] unfolding request_eligible by blast
  show ?case
  proof (cases "drained < limit \<and> ?E \<noteq> {}")
    case False
    then show ?thesis using e b1 Suc.prems(1,2)
      by (intro exI [of _ drained] exI [of _ "if drained < limit \<and> blocks b \<noteq> {} then b1 else b"] exI [of _ aux] exI [of _ "{}"])
        (auto simp: drain_bucket.simps request_def [symmetric] ENOMEM_def)
  next
    case True
    then have lt: "drained < limit" and ne: "?E \<noteq> {}" by blast+
    then have nb: "blocks b \<noteq> {}" by blast
    obtain m where m: "m \<in> ?E" "c_get_rm_bestfit ops (request sz) b = Some ((0, m), b1)" "blocks b1 = blocks b - {m}"
      using b1(2) [unfolded if_not_P [OF ne]] unfolding is_least_def by blast
    obtain r aux1 where aux1: "inv aux1" "c_insert ops (alloc m) (alloc m) m aux = Some (r, aux1)"
        "blocks aux1 = (if alloc m then insert m (blocks aux) else blocks aux)"
      using insert_law [OF Suc.prems(2) fitting [OF Suc.prems(1)], of m "alloc m" "alloc m"] m(1) by auto
    have "0 < unat (size_idx m)" using m(1) Suc.prems(3) by (auto simp: word_le_nat_alt word_less_nat_alt)
    then have "limit \<le> drained + unat (size_idx m) + fuel" using Suc.prems(5) by simp
    from Suc.IH [OF b1(1) aux1(1) Suc.prems(3,4) this] obtain n b' aux' M where r:
      "drain_bucket ops alloc limit sz fuel (drained + unat (size_idx m)) b1 aux1 = Some (n, b', aux')" "inv b'" "inv aux'" "M \<subseteq> blocks b1"
      "blocks b' = blocks b1 - M" "blocks aux' = blocks aux1 \<union> {m \<in> M. alloc m}" "\<forall>m\<in>M. sz \<le> size_idx m"
      "drained + unat (size_idx m) \<le> n" "n < limit \<longrightarrow> (\<forall>m\<in>blocks b'. \<not> sz \<le> size_idx m)" by blast
    have "drain_bucket ops alloc limit sz (Suc fuel) drained b aux = Some (n, b', aux')"
      by (subst drain_bucket.simps) (simp add: lt nb e m(2) [unfolded request_def] aux1(2) r(1))
    moreover have "insert m M \<subseteq> blocks b" "blocks b' = blocks b - insert m M" using r(4,5) m(1,3) by auto
    moreover have "blocks aux' = blocks aux \<union> {m' \<in> insert m M. alloc m'}" unfolding r(6) aux1(3) by auto
    moreover have "\<forall>m'\<in>insert m M. sz \<le> size_idx m'" using r(7) m(1) by simp
    moreover have "drained \<le> n" using r(8) by simp
    ultimately show ?thesis using r(2,3,9) by blast
  qed
qed

lemma drain_step_ok:
  assumes "\<forall>c\<in>set (d_caches s). inv c" "inv (d_aux s)" "0 < sz" "sz < 2 ^ 16" "d_caches s \<noteq> []"
  shows "\<exists>s'. drain_step ops alloc per tot sz own s = Some s' \<and> drained_between inv blocks alloc sz own s s'"
proof -
  define cid where "cid = unat (last_drained s) mod length (d_caches s)"
  have cid: "cid < length (d_caches s)" using assms(5) by (simp add: cid_def)
  show ?thesis
  proof (cases "total_drained s < tot \<and> cid \<noteq> own")
    case False
    then show ?thesis using assms(1,2) by (auto simp: drain_step_def cid_def Let_def drained_between_def moved_blocks_def)
  next
    case True
    have "inv (d_caches s ! cid)" using assms(1) cid by simp
    from drain_bucket_ok [OF this assms(2-4), of per 0 per alloc] obtain n b aux M where r:
      "drain_bucket ops alloc per sz per 0 (d_caches s ! cid) (d_aux s) = Some (n, b, aux)" "inv b" "inv aux" "M \<subseteq> blocks (d_caches s ! cid)"
      "blocks b = blocks (d_caches s ! cid) - M" "blocks aux = blocks (d_aux s) \<union> {m \<in> M. alloc m}" "\<forall>m\<in>M. sz \<le> size_idx m" by auto
    define s' where "s' = s\<lparr>last_drained := last_drained s + 1, d_caches := (d_caches s)[cid := b], d_aux := aux, total_drained := total_drained s + n\<rparr>"
    have "drain_step ops alloc per tot sz own s = Some s'"
      using True r(1) by (simp add: drain_step_def cid_def [symmetric] Let_def s'_def)
    moreover have "moved_blocks blocks s s' = M"
      using cid r(4,5) by (auto simp: moved_blocks_def s'_def nth_list_update split: if_splits)
    moreover have "\<forall>c\<in>set (d_caches s'). inv c" using assms(1) r(2) by (auto simp: s'_def dest!: set_update_subset_insert [THEN subsetD])
    ultimately show ?thesis using True cid r by (auto simp: drained_between_def s'_def nth_list_update)
  qed
qed

lemma drain_loop_ok:
  assumes "\<forall>c\<in>set (d_caches s). inv c" "inv (d_aux s)" "0 < sz" "sz < 2 ^ 16" "d_caches s \<noteq> []"
  shows "\<exists>s'. drain_loop (drain_step ops alloc per tot sz own) n s = Some s' \<and> drained_between inv blocks alloc sz own s s'"
  using assms
proof (induction n arbitrary: s)
  case (Suc n)
  obtain t where t: "drain_step ops alloc per tot sz own s = Some t" "drained_between inv blocks alloc sz own s t"
    using drain_step_ok [OF Suc.prems] by blast
  have "\<forall>c\<in>set (d_caches t). inv c" "inv (d_aux t)" "d_caches t \<noteq> []" using t(2) Suc.prems(5) by (auto simp: drained_between_def)
  from Suc.IH [OF this(1,2) Suc.prems(3,4) this(3)] t show ?case using drained_trans by fastforce
qed (simp add: drained_refl)

end

text \<open>C32: \<open>heap_drain_to_auxiliary\<close> always returns, and it moves blocks and nothing else: every block that leaves the bucket of a cache is
  large enough for the request and is in the auxiliary bucket afterwards when the container could allocate its node, the auxiliary bucket has
  no other new block, no cache gains a block, and the cache of the requesting thread is untouched.\<close>

theorem drain_moves_blocks:
  assumes "caches \<noteq> []" "list_all container_ok caches" "container_ok aux" "0 < sz" "sz < 2 ^ 16"
  shows "\<exists>s'. heap_drain_to_auxiliary container_ctree_ops alloc auxr sz own caches aux ctr = Some s' \<and>
     length (d_caches s') = length caches \<and> list_all container_ok (d_caches s') \<and> container_ok (d_aux s') \<and>
     (\<forall>i<length caches. tree_blocks (d_caches s' ! i) \<subseteq> tree_blocks (caches ! i) \<and> (i = own \<longrightarrow> d_caches s' ! i = caches ! i)) \<and>
     (let moved = (\<Union>i<length caches. tree_blocks (caches ! i) - tree_blocks (d_caches s' ! i))
      in (\<forall>m\<in>moved. sz \<le> size_idx m) \<and> tree_blocks (d_aux s') = tree_blocks aux \<union> {m \<in> moved. alloc m})"
proof -
  define s where "s = \<lparr>d_caches = caches, d_aux = aux, last_drained = ctr, total_drained = 0\<rparr>"
  have "\<forall>c\<in>set (d_caches s). container_ok c" "container_ok (d_aux s)" "d_caches s \<noteq> []" using assms by (simp_all add: s_def list_all_iff)
  from ctree_container.drain_loop_ok [OF this(1,2) assms(4,5) this(3)] obtain s' where
    "drain_loop (drain_step container_ctree_ops alloc (bitmap_nallocs auxr div 5) (bitmap_nallocs auxr * 2) sz own) (length caches) s = Some s'"
    "drained_between container_ok tree_blocks alloc sz own s s'" by blast
  then show ?thesis unfolding heap_drain_to_auxiliary_def s_def [symmetric]
    by (intro exI [of _ s']) (auto simp: drained_between_def moved_blocks_def s_def list_all_iff Let_def)
qed

definition example_container :: "u64 option \<Rightarrow> block_container_ctree" where
  "example_container k = \<lparr>bc_type = CONTAINER_CTREE, bc_unit_size = 3600,
     tree = \<lparr>root = map_option (\<lambda>k. Leaf k 0) k, locked = False, live = (case k of None \<Rightarrow> 0 | Some _ \<Rightarrow> 1)\<rparr>\<rparr>"

definition example_block :: memory_block where
  "example_block = \<lparr>chunk_id = 5, zone_id = 0, size_idx = 3, block_off = 8\<rparr>"

lemma example_container_ok: "container_ok (example_container None)" "container_ok (example_container (Some (pack example_block)))"
proof -
  have "fits example_block" by (simp add: example_block_def fits_def)
  then show "container_ok (example_container None)" "container_ok (example_container (Some (pack example_block)))"
    by (auto simp: example_container_def container_ok_def ctree_ok_def)
qed

lemma example_drain:
  "heap_drain_to_auxiliary container_ctree_ops (\<lambda>_. True) example_run 2 0 [example_container None, example_container (Some (pack example_block))]
     (example_container None) 7 =
   Some \<lparr>d_caches = [example_container None, example_container None], d_aux = example_container (Some (pack example_block)),
     last_drained = 9, total_drained = 3\<rparr>"
  by code_simp

theorem drain_moves_blocks_witness:
  "let c = example_container (Some (pack example_block)); e = example_container None
   in container_ok c \<and> container_ok e \<and>
      (\<exists>s'. heap_drain_to_auxiliary container_ctree_ops (\<lambda>_. True) example_run 2 0 [e, c] e 7 = Some s' \<and>
         total_drained s' = 3 \<and> d_caches s' ! 0 = e \<and> tree_blocks (d_caches s' ! 1) \<subseteq> tree_blocks c \<and> d_aux s' = c)"
proof -
  have "list_all container_ok [example_container None, example_container (Some (pack example_block))]"
    using example_container_ok by simp
  from drain_moves_blocks [OF _ this example_container_ok(1), of 2 "\<lambda>_. True" example_run 0 7] example_container_ok show ?thesis
    unfolding example_drain Let_def by (auto simp: less_Suc_eq)
qed

end
