(* ===== verification/Heap_Zones.thy ===== *)
theory Heap_Zones
  imports Heap_Init
begin

text \<open>
  The zones of a heap, \<open>src/nvml/src/libpmemobj/heap.c\<close>: their number, their sizes and the initialisation of a zone. Sizes are 64-bit words.
\<close>

definition sizeof_chunk :: nat where "sizeof_chunk = CHUNKSIZE"

definition ZONE_MIN_SIZE :: nat where
  "ZONE_MIN_SIZE = sizeof_zone + sizeof_chunk"

definition HEAP_MIN_SIZE :: nat where
  "HEAP_MIN_SIZE = sizeof_heap_header + sizeof_zone + ZONE_MIN_SIZE"

definition ZONE_HEADER_MAGIC :: u32 where
  "ZONE_HEADER_MAGIC = 0xC3F0A2D2"

lemmas zone_sizes = sizeof_heap_header_def sizeof_zone_header_def sizeof_zone_def ZONE_MAX_SIZE_def MAX_CHUNK_def CHUNKSIZE_def
  ZONE_MIN_SIZE_def sizeof_chunk_def HEAP_MIN_SIZE_def

function max_zone_loop :: "nat \<Rightarrow> nat" where
  "max_zone_loop sz = (if ZONE_MIN_SIZE \<le> sz then Suc (max_zone_loop (sz - (if sz \<le> ZONE_MAX_SIZE then sz else ZONE_MAX_SIZE))) else 0)"
  by pat_completeness auto
termination
  by (relation "measure id") (auto simp: zone_sizes)

declare max_zone_loop.simps [simp del]

definition heap_max_zone :: "u64 \<Rightarrow> nat" where
  "heap_max_zone sz = max_zone_loop (unat (sz - of_nat sizeof_heap_header))"

definition get_zone_size_idx :: "u32 \<Rightarrow> nat \<Rightarrow> u64 \<Rightarrow> u32" where
  "get_zone_size_idx zid max_zone hsize =
     (if unat zid < max_zone - 1 then of_nat MAX_CHUNK
      else ucast ((hsize - ucast zid * of_nat ZONE_MAX_SIZE - of_nat sizeof_zone) div of_nat CHUNKSIZE))"

text \<open>The first chunk is written before the header of the zone, whose magic number makes the zone valid.\<close>

definition heap_zone_init :: "u64 \<Rightarrow> redo_mem \<Rightarrow> u64 \<Rightarrow> u32 \<Rightarrow> nat \<Rightarrow> u64 \<Rightarrow> (redo_log, u64) ev list" where
  "heap_zone_init base mem hl zid max_zone hsize =
     (let z = ZID_TO_ZONE hl zid; sz = get_zone_size_idx zid max_zone hsize;
          words = map (\<lambda>i. loc base (z + 8 * of_nat i)) [0 ..< 8]
      in heap_chunk_init base mem (z + of_nat sizeof_zone_header) CHUNK_TYPE_FREE sz @
         Store (words ! 0) (ucast ZONE_HEADER_MAGIC OR push_bit 32 (ucast sz)) # map (\<lambda>l. Store l 0) (tl words) @ persist words)"

subsection \<open>Bounds of the zones\<close>

lemma unat_up: "unat (ucast (w :: u32) :: u64) = unat w"
proof -
  have "unat w < 2 ^ 32" using unsigned_less [of w] by simp
  then show ?thesis by (simp add: unsigned_ucast_eq take_bit_nat_eq_self)
qed

lemma unat_down: "unat (w :: u64) < 2 ^ 32 \<Longrightarrow> unat (ucast w :: u32) = unat w"
  by (simp add: unsigned_ucast_eq take_bit_nat_eq_self)

lemma max_zone_loop_bounds:
  "(0 < max_zone_loop sz \<longrightarrow> (max_zone_loop sz - 1) * ZONE_MAX_SIZE + ZONE_MIN_SIZE \<le> sz) \<and> sz < max_zone_loop sz * ZONE_MAX_SIZE + ZONE_MIN_SIZE"
proof (induction sz rule: max_zone_loop.induct)
  case (1 sz)
  show ?case
  proof (cases "ZONE_MIN_SIZE \<le> sz")
    case True
    let ?r = "sz - (if sz \<le> ZONE_MAX_SIZE then sz else ZONE_MAX_SIZE)"
    have eq: "max_zone_loop sz = Suc (max_zone_loop ?r)" using True by (subst max_zone_loop.simps) simp
    have r: "sz \<le> ZONE_MAX_SIZE \<and> ?r = 0 \<or> sz = ?r + ZONE_MAX_SIZE" by auto
    have z: "max_zone_loop 0 = 0" by (subst max_zone_loop.simps) (simp add: zone_sizes)
    show ?thesis using "1.IH" [OF True] True r z unfolding eq by (cases "max_zone_loop ?r") auto
  qed (subst (1 2 3) max_zone_loop.simps, simp)
qed

lemma last_zone_chunks:
  assumes "unat hsize = rest + sizeof_zone + unat (zid :: u32) * ZONE_MAX_SIZE"
  shows "unat ((hsize - ucast zid * of_nat ZONE_MAX_SIZE - of_nat sizeof_zone) div of_nat CHUNKSIZE :: u64) = rest div CHUNKSIZE"
proof -
  have "unat hsize < 2 ^ 64" using unsigned_less [of hsize] by simp
  then have "unat zid * ZONE_MAX_SIZE < 2 ^ 64" using assms by simp
  then have m: "unat (ucast zid * of_nat ZONE_MAX_SIZE :: u64) = unat zid * ZONE_MAX_SIZE"
    by (simp add: unat_word_ariths unat_up zone_sizes)
  have "ucast zid * of_nat ZONE_MAX_SIZE \<le> hsize" unfolding word_le_nat_alt m using assms by simp
  then have x: "unat (hsize - ucast zid * of_nat ZONE_MAX_SIZE) = rest + sizeof_zone" by (simp add: unat_sub m assms)
  have u: "unat (of_nat sizeof_zone :: u64) = sizeof_zone" "unat (of_nat CHUNKSIZE :: u64) = CHUNKSIZE" by (simp_all add: zone_sizes)
  have "(of_nat sizeof_zone :: u64) \<le> hsize - ucast zid * of_nat ZONE_MAX_SIZE" unfolding word_le_nat_alt x u by simp
  then have "unat (hsize - ucast zid * of_nat ZONE_MAX_SIZE - of_nat sizeof_zone) = rest" by (simp only: unat_sub x u add_diff_cancel_right')
  then show ?thesis by (simp only: unat_div_distrib u)
qed

text \<open>A heap of at least the minimum size has a zone, and every zone has at least one chunk. No zone ends more than the size of the heap
  header behind the heap, and no zone has more than three chunks beyond \<open>MAX_CHUNK\<close>.\<close>

theorem zone_layout_bounds:
  assumes "HEAP_MIN_SIZE \<le> unat hsize" "unat zid < heap_max_zone hsize"
  shows "let idx = unat (get_zone_size_idx zid (heap_max_zone hsize) hsize)
    in 1 \<le> idx \<and> idx \<le> MAX_CHUNK + 3 \<and>
       sizeof_heap_header + unat zid * ZONE_MAX_SIZE + sizeof_zone + CHUNKSIZE * idx \<le> unat hsize + sizeof_heap_header"
proof -
  define n where "n = heap_max_zone hsize"
  define sz where "sz = unat hsize"
  have sz: "unat (hsize - of_nat sizeof_heap_header) = sz - sizeof_heap_header"
    using assms(1) by (subst unat_sub) (auto simp: word_le_nat_alt zone_sizes sz_def)
  have n: "(n - 1) * ZONE_MAX_SIZE + ZONE_MIN_SIZE \<le> sz - sizeof_heap_header" "sz - sizeof_heap_header < n * ZONE_MAX_SIZE + ZONE_MIN_SIZE" "0 < n"
    using max_zone_loop_bounds [of "sz - sizeof_heap_header"] assms(2) by (auto simp: n_def heap_max_zone_def sz)
  show ?thesis
  proof (cases "unat zid < n - 1")
    case True
    then have "unat zid + 1 \<le> n - 1" by simp
    then have "(unat zid + 1) * ZONE_MAX_SIZE \<le> (n - 1) * ZONE_MAX_SIZE" by (rule mult_le_mono1)
    then show ?thesis using n(1) True unfolding Let_def n_def [symmetric] sz_def [symmetric] get_zone_size_idx_def
      by (simp add: zone_sizes)
  next
    case False
    then have zid: "unat zid = n - 1" using assms(2) by (simp add: n_def)
    define rest where "rest = sz - unat zid * ZONE_MAX_SIZE - sizeof_zone"
    have r: "sz = rest + sizeof_zone + unat zid * ZONE_MAX_SIZE" "CHUNKSIZE \<le> rest" "rest < CHUNKSIZE * (MAX_CHUNK + 4)"
      using n zid by (cases n; simp add: rest_def zone_sizes)+
    have d: "rest div CHUNKSIZE \<le> MAX_CHUNK + 3" "1 \<le> rest div CHUNKSIZE" "CHUNKSIZE * (rest div CHUNKSIZE) \<le> rest"
      using r(2,3) by (auto simp: zone_sizes)
    have "unat (get_zone_size_idx zid n hsize) = rest div CHUNKSIZE"
      using False d(1) last_zone_chunks [OF r(1) [unfolded sz_def]] by (subst get_zone_size_idx_def) (simp add: unat_down MAX_CHUNK_def)
    then show ?thesis using d r(1) unfolding Let_def n_def [symmetric] sz_def [symmetric] by simp
  qed
qed

lemma small_heap_zones: "heap_max_zone 1572864 = 1"
proof -
  have "max_zone_loop 0 = 0" by (subst max_zone_loop.simps) (simp add: zone_sizes)
  then have "max_zone_loop 1571840 = 1" by (subst max_zone_loop.simps) (simp add: zone_sizes)
  then show ?thesis by (simp add: heap_max_zone_def sizeof_heap_header_def)
qed

lemma large_heap_zones: "heap_max_zone 17179082752 = 1"
proof -
  have "max_zone_loop 785408 = 0" by (subst max_zone_loop.simps) (simp add: zone_sizes)
  then have "max_zone_loop 17179081728 = 1" by (subst max_zone_loop.simps) (simp add: zone_sizes)
  then show ?thesis by (simp add: heap_max_zone_def sizeof_heap_header_def)
qed

theorem zone_layout_bounds_witness:
  "HEAP_MIN_SIZE \<le> unat (1572864 :: u64) \<and> unat (0 :: u32) < heap_max_zone 1572864 \<and>
   unat (get_zone_size_idx 0 (heap_max_zone 1572864) 1572864) \<le> MAX_CHUNK + 3 \<and>
   unat (get_zone_size_idx 0 (heap_max_zone 1572864) 1572864) = 4"
proof -
  have h: "HEAP_MIN_SIZE \<le> unat (1572864 :: u64)" "unat (0 :: u32) < heap_max_zone 1572864" by (simp_all add: small_heap_zones zone_sizes)
  have "unat (get_zone_size_idx 0 (heap_max_zone 1572864) 1572864) = 4" by (simp add: get_zone_size_idx_def small_heap_zones zone_sizes)
  then show ?thesis using zone_layout_bounds [OF h] h unfolding Let_def by simp
qed

text \<open>The zones do not always fit. A heap of 1.5 MiB, a multiple of the page size, has a zone whose last chunk ends 1024 bytes behind the heap,
  because the size of the zone is computed without the heap header that precedes it. A heap that is three chunks larger than the largest
  zone has a single zone with three chunks more than there are chunk headers.\<close>

theorem zone_overruns:
  "heap_max_zone 1572864 = 1 \<and>
   sizeof_heap_header + sizeof_zone + CHUNKSIZE * unat (get_zone_size_idx 0 (heap_max_zone 1572864) 1572864) = 1572864 + 1024 \<and>
   heap_max_zone 17179082752 = 1 \<and> unat (get_zone_size_idx 0 (heap_max_zone 17179082752) 17179082752) = MAX_CHUNK + 3"
  unfolding small_heap_zones large_heap_zones by (simp add: get_zone_size_idx_def zone_sizes)

end
