(* ===== verification/Heap_Degrade.thy ===== *)
theory Heap_Degrade
  imports Heap_Drain Heap_Zones
begin

text \<open>
  Turning an unused run back into a chunk: the two traversals of \<open>heap_degrade_run_if_empty\<close>, first to look for all blocks of the run in the bucket
  and then to remove them.
\<close>

text \<open>The blocks of an unused run, from a position on.\<close>

definition run_piece :: "u32 \<Rightarrow> u32 \<Rightarrow> nat \<Rightarrow> nat \<Rightarrow> nat \<Rightarrow> memory_block" where
  "run_piece cid zid umax n off = \<lparr>chunk_id = cid, zone_id = zid, size_idx = of_nat (min umax (n - off)), block_off = of_nat off\<rparr>"

function run_pieces :: "u32 \<Rightarrow> u32 \<Rightarrow> nat \<Rightarrow> nat \<Rightarrow> nat \<Rightarrow> memory_block list" where
  "run_pieces cid zid umax n off =
     (if off < n \<and> 0 < umax
      then run_piece cid zid umax n off # run_pieces cid zid umax n (off + umax)
      else [])"
  by pat_completeness auto
termination
  by (relation "measure (\<lambda>(cid, zid, umax, n, off). n - off)") auto

declare run_pieces.simps [simp del]

lemma unat_of_nat_u32: "k < 2 ^ 32 \<Longrightarrow> unat (of_nat k :: u32) = k"
  by (simp add: unat_of_nat)

lemma unat_of_nat_u16: "k < 2 ^ 16 \<Longrightarrow> unat (of_nat k :: u16) = k"
  by (simp add: unat_of_nat)

lemma run_pieces_off: "b \<in> set (run_pieces cid zid umax n off) \<Longrightarrow> \<exists>k. off \<le> k \<and> k < n \<and> block_off b = of_nat k"
proof (induction cid zid umax n off rule: run_pieces.induct)
  case (1 cid zid umax n off)
  show ?case
  proof (cases "off < n \<and> 0 < umax \<and> b \<in> set (run_pieces cid zid umax n (off + umax))")
    case True
    then show ?thesis using 1(1) by (meson add_leD1)
  next
    case False
    then show ?thesis using 1(2) by (subst (asm) run_pieces.simps) (auto simp: run_piece_def split: if_splits)
  qed
qed

lemma run_pieces_fresh:
  assumes "n < 2 ^ 16" "off < n" "0 < umax" "block_off b = of_nat off"
  shows "b \<notin> set (run_pieces cid zid umax n (off + umax))"
proof
  assume "b \<in> set (run_pieces cid zid umax n (off + umax))"
  then obtain k where k: "off + umax \<le> k" "k < n" "block_off b = of_nat k" using run_pieces_off by blast
  have eq: "(of_nat k :: u16) = of_nat off" by (rule trans [OF k(3) [symmetric] assms(4)])
  have "k < 2 ^ 16" "off < 2 ^ 16" using k(2) assms(1,2) by linarith+
  from unat_of_nat_u16 [OF this(1)] unat_of_nat_u16 [OF this(2)] have "k = off" unfolding eq by (rule trans [OF sym])
  then show False using k(1) assms(3) by linarith
qed

text \<open>The next block of the traversal.\<close>

lemma traverse_next:
  assumes "n < 2 ^ 15" "off < n" "umax \<le> n" "0 < umax" "bitmap_nallocs r = n" "unit_max r = of_nat umax"
    "m = run_piece cid zid umax n off"
  shows "of_nat off \<noteq> (of_nat n :: u32)" "(of_nat off :: u32) + size_idx m = of_nat (min (off + umax) n)"
    "ucast (ucast (block_off m) + unit_max r) = (of_nat (off + umax) :: u16)"
    "(ucast (of_nat (off + umax) :: u16) + unit_max r > of_nat (bitmap_nallocs r)) = (off + umax + umax > n)"
    "off + umax < n \<Longrightarrow> off + umax + umax > n \<Longrightarrow> of_nat (bitmap_nallocs r) - ucast (of_nat (off + umax) :: u16) = (of_nat (n - (off + umax)) :: u32)"
proof -
  have c: "ucast (of_nat k :: u16) = (of_nat k :: u32)" if "k < 2 ^ 16" for k
    using that by (intro word_unat_eq_iff [THEN iffD2]) (simp add: unsigned_ucast_eq unat_of_nat take_bit_nat_eq_self)
  have d: "ucast (of_nat k :: u32) = (of_nat k :: u16)" if "k < 2 ^ 16" for k
    using that by (intro word_unat_eq_iff [THEN iffD2]) (simp add: unsigned_ucast_eq unat_of_nat take_bit_nat_eq_self)
  have u: "off + umax < 2 ^ 16" "off < 2 ^ 16" using assms(1-3) by simp_all
  have "unat (of_nat off :: u32) \<noteq> unat (of_nat n :: u32)" using assms(1,2) by (simp add: unat_of_nat)
  then show "of_nat off \<noteq> (of_nat n :: u32)" by (rule contrapos_nn) simp
  show "(of_nat off :: u32) + size_idx m = of_nat (min (off + umax) n)" 
  proof -
    have "off + min umax (n - off) = min (off + umax) n" using assms(2) by simp
    then show ?thesis unfolding assms(7) run_piece_def by (simp flip: of_nat_add)
  qed
  show "ucast (ucast (block_off m) + unit_max r) = (of_nat (off + umax) :: u16)"
    unfolding assms(6,7) run_piece_def by (simp only: memory_block.simps c [OF u(2)] of_nat_add [symmetric] d [OF u(1)])
  show "(ucast (of_nat (off + umax) :: u16) + unit_max r > of_nat (bitmap_nallocs r)) = (off + umax + umax > n)"

  proof -
    have "n < 2 ^ 32" "off + umax + umax < 2 ^ 32" using assms(1-3) by simp_all
    then show ?thesis unfolding c [OF u(1)] assms(5,6) of_nat_add [symmetric] word_less_nat_alt by (simp only: unat_of_nat_u32)
  qed
  show "of_nat (bitmap_nallocs r) - ucast (of_nat (off + umax) :: u16) = (of_nat (n - (off + umax)) :: u32)" if "off + umax < n"
    unfolding c [OF u(1)] assms(5) using that by (simp add: of_nat_diff)
qed

lemma traverse_step:
  assumes "n < 2 ^ 15" "off < n" "umax \<le> n" "0 < umax" "bitmap_nallocs r = n" "unit_max r = of_nat umax"
  shows "traverse_loop cb r (Suc fuel) (of_nat off) (run_piece cid zid umax n off) c =
    Option.bind (cb (run_piece cid zid umax n off) c) (\<lambda>(ret, c). if ret \<noteq> 0 then Some (1, c) else if n \<le> off + umax then Some (0, c)
      else traverse_loop cb r fuel (of_nat (off + umax)) (run_piece cid zid umax n (off + umax)) c)"
proof -
  define m where "m = run_piece cid zid umax n off"
  note nx = traverse_next [OF assms m_def]
  have last: "traverse_loop cb r fuel (of_nat n) m' c = Some (0, c)" for m' c by (subst traverse_loop.simps) (simp add: assms(5))
  have "m\<lparr>block_off := of_nat (off + umax), size_idx := (if off + umax + umax > n then of_nat (n - (off + umax)) else of_nat umax)\<rparr> =
      run_piece cid zid umax n (off + umax)" if "off + umax < n"
    using that by (auto simp: m_def run_piece_def min_def)
  then have L: "(let off' = ucast (ucast (block_off m) + unit_max r) :: u16;
        sz = (if ucast off' + unit_max r > of_nat (bitmap_nallocs r) then of_nat (bitmap_nallocs r) - ucast off' else unit_max r)
      in traverse_loop cb r fuel (of_nat off + size_idx m) (m\<lparr>block_off := off', size_idx := sz\<rparr>) c) =
      (if n \<le> off + umax then Some (0, c) else traverse_loop cb r fuel (of_nat (off + umax)) (run_piece cid zid umax n (off + umax)) c)" for c
    unfolding Let_def nx(2,3,4) using nx(5) last assms(6) by (cases "n \<le> off + umax") (auto simp: min_def)
  have ne: "(of_nat off = (of_nat (bitmap_nallocs r) :: u32)) = False" using nx(1) assms(5) by simp
  show ?thesis unfolding m_def [symmetric] by (subst traverse_loop.simps) (simp only: ne if_False nat.case L)
qed

lemma run_pieces_step:
  "off < n \<Longrightarrow> 0 < umax \<Longrightarrow> run_pieces cid zid umax n off = run_piece cid zid umax n off # run_pieces cid zid umax n (off + umax)"
  "n \<le> off \<Longrightarrow> run_pieces cid zid umax n off = []"
  by (subst run_pieces.simps, simp)+

lemma run_piece_fits:
  assumes "n < 2 ^ 15" "off < n" "0 < umax" "cid < 2 ^ 16" "zid < 2 ^ 16"
  shows "fits (run_piece cid zid umax n off)"
proof -
  have b: "0 < min umax (n - off)" "min umax (n - off) < 2 ^ 15" using assms(1-3) by auto
  then have "unat (of_nat (min umax (n - off)) :: u32) = min umax (n - off)" by (intro unat_of_nat_u32) simp
  then show ?thesis using assms(4,5) b by (auto simp: fits_def run_piece_def word_less_nat_alt unat_eq_zero)
qed

context block_container
begin

lemma traverse_get_exact:
  assumes "inv c" "n < 2 ^ 15" "off < n" "umax \<le> n" "0 < umax" "bitmap_nallocs r = n" "unit_max r = of_nat umax" "n - off < fuel"
    "cid < 2 ^ 16" "zid < 2 ^ 16"
  shows "traverse_loop (c_get_exact ops) r fuel (of_nat off) (run_piece cid zid umax n off) c =
    Some (if set (run_pieces cid zid umax n off) \<subseteq> blocks c then 0 else 1, c)"
  using assms(3,8)
proof (induction fuel arbitrary: off)
  case (Suc fuel)
  note g = get_exact_law [OF assms(1) run_piece_fits [OF assms(2) Suc.prems(1) assms(5,9,10)]]
  note st = traverse_step [OF assms(2) Suc.prems(1) assms(4-7)] and ps = run_pieces_step(1) [OF Suc.prems(1) assms(5)]
  show ?case
  proof (cases "off + umax < n")
    case True
    then have "n - (off + umax) < fuel" using Suc.prems assms(5) by linarith
    from Suc.IH [OF True this] True show ?thesis unfolding st g ps by (simp add: ENOMEM_def)
  next
    case False
    then show ?thesis unfolding st g ps by (simp add: ENOMEM_def run_pieces_step(2))
  qed
qed simp

lemma traverse_rm_exact:
  assumes "inv c" "n < 2 ^ 15" "off < n" "umax \<le> n" "0 < umax" "bitmap_nallocs r = n" "unit_max r = of_nat umax" "n - off < fuel"
    "cid < 2 ^ 16" "zid < 2 ^ 16" "set (run_pieces cid zid umax n off) \<subseteq> blocks c"
  shows "\<exists>c'. traverse_loop (c_get_rm_exact ops) r fuel (of_nat off) (run_piece cid zid umax n off) c = Some (0, c') \<and>
    inv c' \<and> blocks c' = blocks c - set (run_pieces cid zid umax n off)"
  using assms(1,3,8,11)
proof (induction fuel arbitrary: off c)
  case (Suc fuel)
  let ?m = "run_piece cid zid umax n off"
  note ps = run_pieces_step(1) [OF Suc.prems(2) assms(5)] and st = traverse_step [OF assms(2) Suc.prems(2) assms(4-7)]
  have mem: "?m \<in> blocks c" using Suc.prems(4) by (simp add: ps)
  obtain c1 where c1: "inv c1" "c_get_rm_exact ops ?m c = Some (0, c1)" "blocks c1 = blocks c - {?m}"
    using rm_exact_law [OF Suc.prems(1) run_piece_fits [OF assms(2) Suc.prems(2) assms(5,9,10)]] mem by auto
  show ?case
  proof (cases "off + umax < n")
    case True
    have "n < 2 ^ 16" using assms(2) by simp
    from run_pieces_fresh [OF this Suc.prems(2) assms(5)] have "?m \<notin> set (run_pieces cid zid umax n (off + umax))" by (simp add: run_piece_def)
    then have "set (run_pieces cid zid umax n (off + umax)) \<subseteq> blocks c1" using Suc.prems(4) by (auto simp: ps c1(3))
    moreover have "n - (off + umax) < fuel" using Suc.prems(2,3) assms(5) by linarith
    ultimately obtain c' where "traverse_loop (c_get_rm_exact ops) r fuel (of_nat (off + umax)) (run_piece cid zid umax n (off + umax)) c1 = Some (0, c')"
      "inv c'" "blocks c' = blocks c1 - set (run_pieces cid zid umax n (off + umax))" using Suc.IH [OF c1(1) True] by blast
    then show ?thesis using True unfolding st ps by (auto simp: c1(2,3))
  next
    case False
    then show ?thesis unfolding st ps using c1 by (auto simp: run_pieces_step(2))
  qed
qed simp

end

text \<open>The two traversals of a run agree. For a run with at least \<open>unit_max\<close> blocks, looking for the blocks of the run succeeds exactly when the bucket has
  all of them and leaves the bucket unchanged; removing them afterwards never fails, so that the fatal error of \<open>heap_degrade_run_if_empty\<close> is
  not reached, and takes out exactly these blocks.\<close>

theorem degrade_traversals_agree:
  assumes "container_ok c" "unat (unit_max r) \<le> bitmap_nallocs r" "0 < unit_max r" "bitmap_nallocs r < 2 ^ 15" "chunk_id m < 2 ^ 16" "zone_id m < 2 ^ 16"
  shows "let pieces = set (run_pieces (chunk_id m) (zone_id m) (unat (unit_max r)) (bitmap_nallocs r) 0)
    in traverse_bucket_run (c_get_exact container_ctree_ops) r m c = Some (if pieces \<subseteq> tree_blocks c then 0 else 1, c) \<and>
       (pieces \<subseteq> tree_blocks c \<longrightarrow> (\<exists>c'. traverse_bucket_run (c_get_rm_exact container_ctree_ops) r m c = Some (0, c') \<and>
          container_ok c' \<and> tree_blocks c' = tree_blocks c - pieces))"
proof -
  let ?u = "unat (unit_max r)" and ?n = "bitmap_nallocs r"
  have u: "0 < ?u" "unit_max r = of_nat ?u" "0 < ?n" using assms(2,3) by (auto simp: word_less_nat_alt)
  have m: "m\<lparr>block_off := 0, size_idx := unit_max r\<rparr> = run_piece (chunk_id m) (zone_id m) ?u ?n 0" using assms(2) by (simp add: run_piece_def min_def)
  note f = assms(4) u(3) assms(2) u(1) refl u(2) _ assms(5,6)
  have z: "(0 :: u32) = of_nat 0" by simp
  show ?thesis unfolding Let_def traverse_bucket_run_def m
    using ctree_container.traverse_get_exact [OF assms(1) f, of "Suc ?n"] ctree_container.traverse_rm_exact [OF assms(1) f, of "Suc ?n"]
    unfolding of_nat_0 by simp
qed

lemma example_pieces: "run_pieces 5 0 3 3 0 = [example_block\<lparr>block_off := 0\<rparr>]"
  by (simp add: run_pieces_step run_piece_def example_block_def)

theorem degrade_traversals_agree_witness:
  "let r = \<lparr>bitmap_lastval = - 8, bitmap_nval = 1, bitmap_nallocs = 3, unit_max = 3\<rparr>; b = example_block\<lparr>block_off := 0\<rparr>;
       c = example_container (Some (pack b))
   in container_ok c \<and> set (run_pieces 5 0 3 3 0) = {b} \<and> traverse_bucket_run (c_get_exact container_ctree_ops) r b c = Some (0, c) \<and>
      (\<exists>c'. traverse_bucket_run (c_get_rm_exact container_ctree_ops) r b c = Some (0, c') \<and> tree_blocks c' = tree_blocks c - {b})"
proof -
  define r where "r = \<lparr>bitmap_lastval = - 8, bitmap_nval = 1, bitmap_nallocs = 3, unit_max = 3\<rparr>"
  define b where "b = example_block\<lparr>block_off := 0\<rparr>"
  define c where "c = example_container (Some (pack b))"
  have f: "fits b" by (simp add: b_def example_block_def fits_def)
  then have c: "container_ok c" "b \<in> tree_blocks c" by (auto simp: c_def example_container_def container_ok_def ctree_ok_def tree_blocks_def)
  have h: "unat (unit_max r) \<le> bitmap_nallocs r" "0 < unit_max r" "bitmap_nallocs r < 2 ^ 15" "chunk_id b < 2 ^ 16" "zone_id b < 2 ^ 16"
    by (simp_all add: r_def b_def example_block_def)
  have p: "run_pieces (chunk_id b) (zone_id b) (unat (unit_max r)) (bitmap_nallocs r) 0 = [b]" "run_pieces 5 0 3 3 0 = [b]"
    using example_pieces by (simp_all add: r_def b_def example_block_def)
  show ?thesis using degrade_traversals_agree [OF c(1) h] c unfolding Let_def r_def [symmetric] b_def [symmetric] c_def [symmetric] p by auto
qed

end
