(* ===== verification/Cuckoo.thy ===== *)
theory Cuckoo
  imports Ctree "HOL-Library.Multiset"
begin

text \<open>
  The cuckoo hash table of libpmemobj, \<open>src/nvml/src/libpmemobj/cuckoo.c\<close>. A slot is empty when its value is \<open>NULL\<close>, the word 0. \<open>None\<close> is a division by
  zero or an access outside the table. \<open>alloc\<close> tells for which numbers of bytes \<open>Zalloc\<close> succeeds; the tables that one call allocates have different
  sizes, so this covers every pattern of failures.
\<close>

definition EAGAIN :: int where
  "EAGAIN = 11"

definition INITIAL_SIZE :: "32 word" where "INITIAL_SIZE = 8"
definition MAX_INSERTS :: nat where "MAX_INSERTS = 8"
definition MAX_GROWS :: nat where "MAX_GROWS = 32"

record cuckoo_slot =
  s_key :: u64
  s_value :: u64

record cuckoo =
  csize :: "32 word"
  tab :: "cuckoo_slot list"

definition null_slot :: cuckoo_slot where
  "null_slot = \<lparr>s_key = 0, s_value = 0\<rparr>"

subsection \<open>Operations\<close>

definition hash_mod :: "cuckoo \<Rightarrow> u64 \<Rightarrow> nat option" where
  "hash_mod c key = (if csize c = 0 then None else Some (unat (key mod ucast (csize c))))"

definition mixed :: "u64 \<Rightarrow> u64" where
  "mixed key =
     (let key = key XOR drop_bit 33 key; key = key * 0xff51afd7ed558ccd; key = key XOR drop_bit 33 key;
          key = key * 0xc4ceb9fe1a85ec53
      in key XOR drop_bit 33 key)"

definition hash_mixer :: "cuckoo \<Rightarrow> u64 \<Rightarrow> nat option" where
  "hash_mixer c key = hash_mod c (mixed key)"

definition hash_funcs :: "(cuckoo \<Rightarrow> u64 \<Rightarrow> nat option) list" where
  "hash_funcs = [hash_mod, hash_mixer]"

definition slot_at :: "cuckoo \<Rightarrow> nat \<Rightarrow> cuckoo_slot option" where
  "slot_at c h = (if h < length (tab c) then Some (tab c ! h) else None)"

definition cuckoo_new :: "bool \<Rightarrow> (u64 \<Rightarrow> bool) \<Rightarrow> cuckoo option" where
  "cuckoo_new malloc alloc =
     (if malloc \<and> alloc (ucast INITIAL_SIZE * 16) then Some \<lparr>csize = INITIAL_SIZE, tab = replicate (unat INITIAL_SIZE) null_slot\<rparr> else None)"

text \<open>The inner loop of \<open>cuckoo_insert_try\<close>: the value returned, if the function returns there.\<close>

fun try_funcs :: "(cuckoo \<Rightarrow> u64 \<Rightarrow> nat option) list \<Rightarrow> cuckoo \<Rightarrow> cuckoo_slot \<Rightarrow> (int option \<times> cuckoo) option" where
  "try_funcs [] c src = Some (None, c)"
| "try_funcs (f # fs) c src =
     Option.bind (f c (s_key src)) (\<lambda>h. Option.bind (slot_at c h) (\<lambda>s.
       if s_value s = 0 then Some (Some 0, c\<lparr>tab := (tab c)[h := src]\<rparr>)
       else if s_key s = s_key src then Some (Some EINVAL, c)
       else try_funcs fs c src))"

fun insert_loop :: "nat \<Rightarrow> cuckoo \<Rightarrow> cuckoo_slot \<Rightarrow> (int \<times> cuckoo \<times> cuckoo_slot) option" where
  "insert_loop 0 c src = Some (EAGAIN, c, src)"
| "insert_loop (Suc n) c src =
     Option.bind (try_funcs hash_funcs c src) (\<lambda>(r, c). case r of
       Some e \<Rightarrow> Some (e, c, src)
     | None \<Rightarrow> Option.bind (hash_mod c (s_key src)) (\<lambda>h. Option.bind (slot_at c h) (\<lambda>s.
         insert_loop n (c\<lparr>tab := (tab c)[h := src]\<rparr>) s)))"

definition cuckoo_insert_try :: "cuckoo \<Rightarrow> cuckoo_slot \<Rightarrow> (int \<times> cuckoo \<times> cuckoo_slot) option" where
  "cuckoo_insert_try = insert_loop MAX_INSERTS"

fun rehash :: "cuckoo_slot list \<Rightarrow> nat list \<Rightarrow> cuckoo \<Rightarrow> (bool \<times> cuckoo) option" where
  "rehash oldtab [] c = Some (True, c)"
| "rehash oldtab (i # is) c =
     (if \<not> i < length oldtab then None
      else if s_value (oldtab ! i) = 0 then rehash oldtab is c
      else Option.bind (cuckoo_insert_try c (oldtab ! i)) (\<lambda>(e, c, _). if e \<noteq> 0 then Some (False, c) else rehash oldtab is c))"

definition doubled :: "cuckoo \<Rightarrow> cuckoo" where
  "doubled c = c\<lparr>csize := csize c * 2, tab := replicate (unat (csize c * 2)) null_slot\<rparr>"

fun grow_loop :: "(u64 \<Rightarrow> bool) \<Rightarrow> 32 word \<Rightarrow> cuckoo_slot list \<Rightarrow> nat \<Rightarrow> cuckoo \<Rightarrow> (int \<times> cuckoo) option" where
  "grow_loop alloc oldsize oldtab 0 c = Some (EINVAL, c\<lparr>tab := oldtab, csize := oldsize\<rparr>)"
| "grow_loop alloc oldsize oldtab (Suc n) c =
     (if \<not> alloc (ucast (csize c * 2) * 16) then Some (ENOMEM, c\<lparr>tab := oldtab\<rparr>)
      else Option.bind (rehash oldtab [0 ..< unat oldsize] (doubled c)) (\<lambda>(ok, c).
        if ok then Some (0, c) else grow_loop alloc oldsize oldtab n c))"

definition cuckoo_grow :: "(u64 \<Rightarrow> bool) \<Rightarrow> cuckoo \<Rightarrow> (int \<times> cuckoo) option" where
  "cuckoo_grow alloc c = grow_loop alloc (csize c) (tab c) MAX_GROWS c"

fun insert_rounds :: "(u64 \<Rightarrow> bool) \<Rightarrow> nat \<Rightarrow> cuckoo \<Rightarrow> cuckoo_slot \<Rightarrow> (int \<times> cuckoo) option" where
  "insert_rounds alloc 0 c src = Some (EINVAL, c)"
| "insert_rounds alloc (Suc n) c src =
     Option.bind (cuckoo_insert_try c src) (\<lambda>(err, c, src).
       if err \<noteq> EAGAIN then Some (err, c)
       else Option.bind (cuckoo_grow alloc c) (\<lambda>(err, c). if err \<noteq> 0 then Some (err, c) else insert_rounds alloc n c src))"

definition cuckoo_insert :: "(u64 \<Rightarrow> bool) \<Rightarrow> u64 \<Rightarrow> u64 \<Rightarrow> cuckoo \<Rightarrow> (int \<times> cuckoo) option" where
  "cuckoo_insert alloc key v c = insert_rounds alloc MAX_GROWS c \<lparr>s_key = key, s_value = v\<rparr>"

fun find_in :: "(cuckoo \<Rightarrow> u64 \<Rightarrow> nat option) list \<Rightarrow> cuckoo \<Rightarrow> u64 \<Rightarrow> nat option option" where
  "find_in [] c key = Some None"
| "find_in (f # fs) c key =
     Option.bind (f c key) (\<lambda>h. Option.bind (slot_at c h) (\<lambda>s. if s_key s = key then Some (Some h) else find_in fs c key))"

definition cuckoo_find_slot :: "cuckoo \<Rightarrow> u64 \<Rightarrow> nat option option" where
  "cuckoo_find_slot = find_in hash_funcs"

definition cuckoo_remove :: "u64 \<Rightarrow> cuckoo \<Rightarrow> (u64 \<times> cuckoo) option" where
  "cuckoo_remove key c = map_option (\<lambda>s. case s of
     None \<Rightarrow> (0, c) | Some h \<Rightarrow> (s_value (tab c ! h), c\<lparr>tab := (tab c)[h := null_slot]\<rparr>)) (cuckoo_find_slot c key)"

definition cuckoo_get :: "u64 \<Rightarrow> cuckoo \<Rightarrow> u64 option" where
  "cuckoo_get key c = map_option (\<lambda>s. case s of None \<Rightarrow> 0 | Some h \<Rightarrow> s_value (tab c ! h)) (cuckoo_find_slot c key)"

subsection \<open>Invariant\<close>

definition live_slots :: "cuckoo \<Rightarrow> cuckoo_slot multiset" where
  "live_slots c = filter_mset (\<lambda>s. s_value s \<noteq> 0) (mset (tab c))"

definition one_per_key :: "cuckoo_slot multiset \<Rightarrow> bool" where
  "one_per_key M \<longleftrightarrow> (\<forall>k. size (filter_mset (\<lambda>s. s_key s = k) M) \<le> 1)"

text \<open>Every entry is in one of its two places, and an empty slot is zero.\<close>

definition slot_ok :: "cuckoo \<Rightarrow> nat \<Rightarrow> cuckoo_slot \<Rightarrow> bool" where
  "slot_ok c h s \<longleftrightarrow> (if s_value s = 0 then s = null_slot else Some h \<in> {hash_mod c (s_key s), hash_mixer c (s_key s)})"

definition table_ok :: "cuckoo \<Rightarrow> bool" where
  "table_ok c \<longleftrightarrow> csize c \<noteq> 0 \<and> length (tab c) = unat (csize c) \<and> list_all (\<lambda>h. slot_ok c h (tab c ! h)) [0 ..< length (tab c)]"

definition cuckoo_ok :: "cuckoo \<Rightarrow> bool" where
  "cuckoo_ok c \<longleftrightarrow> table_ok c \<and> one_per_key (live_slots c)"

lemma hash_range:
  assumes "csize c \<noteq> 0"
  shows "\<exists>h. hash_mod c k = Some h \<and> h < unat (csize c)" "\<exists>h. hash_mixer c k = Some h \<and> h < unat (csize c)"
proof -
  have "unat (csize c) < 2 ^ 32" using unsigned_less [of "csize c"] by simp
  then have u: "unat (ucast (csize c) :: u64) = unat (csize c)" by (simp add: unsigned_ucast_eq take_bit_nat_eq_self)
  have "unat (k mod ucast (csize c) :: u64) < unat (csize c)" for k
    unfolding unat_mod_distrib u using assms by (simp add: unat_gt_0)
  then show "\<exists>h. hash_mod c k = Some h \<and> h < unat (csize c)" "\<exists>h. hash_mixer c k = Some h \<and> h < unat (csize c)"
    using assms by (auto simp: hash_mod_def hash_mixer_def)
qed

lemma hash_cong [simp]: "hash_mod (c\<lparr>tab := t\<rparr>) = hash_mod c" "hash_mixer (c\<lparr>tab := t\<rparr>) = hash_mixer c"
  by (simp_all add: hash_mod_def hash_mixer_def fun_eq_iff)

lemma slot_ok_tab [simp]: "slot_ok (c\<lparr>tab := t\<rparr>) = slot_ok c"
  by (simp add: slot_ok_def fun_eq_iff)

lemma table_okD: "table_ok c \<Longrightarrow> h < length (tab c) \<Longrightarrow> slot_ok c h (tab c ! h)"
  by (simp add: table_ok_def list_all_iff)

definition live_slot :: "cuckoo_slot \<Rightarrow> cuckoo_slot multiset" where
  "live_slot s = (if s_value s = 0 then {#} else {#s#})"

lemma table_update:
  assumes "table_ok c" "h < length (tab c)" "slot_ok c h s"
  shows "table_ok (c\<lparr>tab := (tab c)[h := s]\<rparr>)" "live_slots (c\<lparr>tab := (tab c)[h := s]\<rparr>) + live_slot (tab c ! h) = live_slots c + live_slot s"
proof -
  show "table_ok (c\<lparr>tab := (tab c)[h := s]\<rparr>)"
    using assms by (auto simp: table_ok_def list_all_iff nth_list_update)
  have "mset ((tab c)[h := s]) + {#tab c ! h#} = mset (tab c) + {#s#}" using assms(2) by (simp add: mset_update)
  from arg_cong [OF this, of "filter_mset (\<lambda>s. s_value s \<noteq> 0)"]
  show "live_slots (c\<lparr>tab := (tab c)[h := s]\<rparr>) + live_slot (tab c ! h) = live_slots c + live_slot s"
    by (auto simp: live_slots_def live_slot_def split: if_splits)
qed

lemma live_member: "h < length (tab c) \<Longrightarrow> s_value (tab c ! h) \<noteq> 0 \<Longrightarrow> tab c ! h \<in># live_slots c"
  by (simp add: live_slots_def)

lemma at_most_one_more: "(\<forall>k. f k + (if K = k then 1 else 0 :: nat) \<le> 1) \<longleftrightarrow> (\<forall>k. f k \<le> 1) \<and> f K = 0"
proof (intro iffI conjI allI)
  assume l: "\<forall>k. f k + (if K = k then 1 else 0) \<le> 1"
  show "f k \<le> 1" for k using spec [OF l, of k] by linarith
  show "f K = 0" using spec [OF l, of K] by simp
next
  fix k assume "(\<forall>k. f k \<le> 1) \<and> f K = 0"
  then show "f k + (if K = k then 1 else 0) \<le> 1" by (cases "K = k") auto
qed

lemma one_per_key_add: "one_per_key (M + {#s#}) \<longleftrightarrow> one_per_key M \<and> (\<forall>t\<in>#M. s_key t \<noteq> s_key s)"
proof -
  have e: "size (filter_mset (\<lambda>t. s_key t = s_key s) M) = 0 \<longleftrightarrow> (\<forall>t\<in>#M. s_key t \<noteq> s_key s)"
    unfolding size_eq_0_iff_empty set_mset_eq_empty_iff [symmetric] set_mset_filter by auto
  have "size (filter_mset (\<lambda>t. s_key t = k) (M + {#s#})) = size (filter_mset (\<lambda>t. s_key t = k) M) + (if s_key s = k then 1 else 0)" for k
    by simp
  then show ?thesis unfolding one_per_key_def e [symmetric] by (simp only: at_most_one_more)
qed

subsection \<open>Insertion into the table\<close>

text \<open>One round: the slot is stored, or both places are taken by other keys.\<close>

lemma try_funcs_ok:
  assumes "table_ok c" "s_value src \<noteq> 0" "\<forall>t\<in>#live_slots c. s_key t \<noteq> s_key src"
  shows "(\<exists>c'. try_funcs hash_funcs c src = Some (Some 0, c') \<and> table_ok c' \<and> csize c' = csize c \<and> live_slots c' = live_slots c + {#src#}) \<or>
    try_funcs hash_funcs c src = Some (None, c) \<and> (\<exists>h. hash_mod c (s_key src) = Some h \<and> h < length (tab c) \<and> s_value (tab c ! h) \<noteq> 0)"
proof -
  obtain h g where h: "hash_mod c (s_key src) = Some h" "h < length (tab c)" and g: "hash_mixer c (s_key src) = Some g" "g < length (tab c)"
    using hash_range [of c "s_key src"] assms(1) by (auto simp: table_ok_def)
  have up: "table_ok (c\<lparr>tab := (tab c)[i := src]\<rparr>) \<and> live_slots (c\<lparr>tab := (tab c)[i := src]\<rparr>) = live_slots c + {#src#}"
    if "i = h \<or> i = g" "s_value (tab c ! i) = 0" for i
    using table_update [OF assms(1), of i src] that h g assms(2) by (auto simp: slot_ok_def live_slot_def)
  have ne: "s_key (tab c ! i) \<noteq> s_key src" if "i = h \<or> i = g" "s_value (tab c ! i) \<noteq> 0" for i
    using live_member [of i c] that h g assms(3) by auto
  show ?thesis
  proof (cases "s_value (tab c ! h) = 0 \<or> s_value (tab c ! g) = 0")
    case True
    then show ?thesis using up [of h] up [of g] ne [of h] h g by (auto simp: hash_funcs_def slot_at_def)
  next
    case False
    then show ?thesis using ne [of h] ne [of g] h g by (auto simp: hash_funcs_def slot_at_def)
  qed
qed

lemma insert_loop_ok:
  assumes "table_ok c" "s_value src \<noteq> 0" "one_per_key (live_slots c + {#src#})"
  shows "\<exists>e c' src'. insert_loop n c src = Some (e, c', src') \<and> table_ok c' \<and> csize c' = csize c \<and>
    (e = 0 \<and> live_slots c' = live_slots c + {#src#} \<or>
     e = EAGAIN \<and> s_value src' \<noteq> 0 \<and> live_slots c' + {#src'#} = live_slots c + {#src#})"
  using assms
proof (induction n arbitrary: c src)
  case (Suc n)
  have "\<forall>t\<in>#live_slots c. s_key t \<noteq> s_key src" using Suc.prems(3) unfolding one_per_key_add by blast
  from try_funcs_ok [OF Suc.prems(1,2) this] show ?case
  proof (elim disjE exE conjE)
    fix h assume h: "try_funcs hash_funcs c src = Some (None, c)" "hash_mod c (s_key src) = Some h" "h < length (tab c)" "s_value (tab c ! h) \<noteq> 0"
    define c1 where "c1 = c\<lparr>tab := (tab c)[h := src]\<rparr>"
    have u: "table_ok c1" "live_slots c1 + {#tab c ! h#} = live_slots c + {#src#}"
      using table_update [OF Suc.prems(1) h(3), of src] h(2,4) Suc.prems(2) by (simp_all add: c1_def slot_ok_def live_slot_def)
    from Suc.IH [OF u(1) h(4)] Suc.prems(3) u(2) have
      "\<exists>e c' src'. insert_loop n c1 (tab c ! h) = Some (e, c', src') \<and> table_ok c' \<and> csize c' = csize c1 \<and>
        (e = 0 \<and> live_slots c' = live_slots c + {#src#} \<or> e = EAGAIN \<and> s_value src' \<noteq> 0 \<and> live_slots c' + {#src'#} = live_slots c + {#src#})"
      by simp
    then show ?thesis using h by (simp add: slot_at_def c1_def)
  qed simp
qed simp

subsection \<open>Wrap-around of the size\<close>

text \<open>The new size \<open>c->size * 2\<close> is an unsigned 32-bit product. It is 0 for the size \<open>2 ^ 31\<close>, for which 32 GiB have been allocated; if \<open>Zalloc(0)\<close> succeeds, the
  next hash divides by zero. This is the only way in which an insertion does not return.\<close>

definition size_wraps :: "(u64 \<Rightarrow> bool) \<Rightarrow> 32 word \<Rightarrow> bool" where
  "size_wraps alloc n \<longleftrightarrow> alloc 0 \<and> (n = 2 ^ 31 \<or> alloc (2 ^ 35))"

lemma double_zero:
  fixes n :: "32 word"
  assumes "n * 2 = 0" "n \<noteq> 0"
  shows "n = 2 ^ 31"
proof -
  have "unat n * 2 mod 2 ^ 32 = 0" using arg_cong [OF assms(1), of unat] by (simp add: unat_word_ariths)
  then obtain q where "unat n * 2 = 2 ^ 32 * q" by (auto simp: mod_eq_0_iff_dvd)
  then have q: "unat n = 2 ^ 31 * q" by simp
  moreover have "unat n < 2 ^ 32" using unsigned_less [of n] by simp
  moreover have "unat n \<noteq> 0" using assms(2) by (simp add: unat_eq_zero)
  ultimately have "unat n = 2 ^ 31" by simp
  then show ?thesis by (simp add: word_unat_eq_iff)
qed

lemma try_funcs_cases:
  assumes "try_funcs hash_funcs c src = Some (r, c')"
  shows "r = None \<and> c' = c \<and> (\<forall>h s. hash_mod c (s_key src) = Some h \<longrightarrow> slot_at c h = Some s \<longrightarrow> s_value s \<noteq> 0) \<or> r = Some 0 \<or> r = Some EINVAL"
  using assms by (auto simp: hash_funcs_def split: bind_splits if_splits)

lemma insert_loop_evicts:
  assumes "insert_loop (Suc n) c src = Some (EAGAIN, c', src')"
  shows "\<exists>h s. h < length (tab c) \<and> s_value s \<noteq> 0 \<and> insert_loop n (c\<lparr>tab := (tab c)[h := src]\<rparr>) s = Some (EAGAIN, c', src')"
proof -
  obtain r c1 where r: "try_funcs hash_funcs c src = Some (r, c1)" using assms by (auto split: bind_splits)
  then have "r = None" using assms try_funcs_cases [OF r] by (auto simp: EAGAIN_def EINVAL_def)
  then have u: "c1 = c" "\<forall>h s. hash_mod c (s_key src) = Some h \<longrightarrow> slot_at c h = Some s \<longrightarrow> s_value s \<noteq> 0" using try_funcs_cases [OF r] by auto
  obtain h s where h: "hash_mod c (s_key src) = Some h" "slot_at c h = Some s" "insert_loop n (c\<lparr>tab := (tab c)[h := src]\<rparr>) s = Some (EAGAIN, c', src')"
    using assms r \<open>r = None\<close> u(1) by (auto split: bind_splits)
  have "h < length (tab c)" using h(2) by (simp add: slot_at_def split: if_splits)
  then show ?thesis using h u(2) by blast
qed

lemma insert_loop_live:
  assumes "insert_loop n c src = Some (EAGAIN, c', src')" "s_value src \<noteq> 0" "0 < n \<or> list_ex (\<lambda>s. s_value s \<noteq> 0) (tab c)"
  shows "list_ex (\<lambda>s. s_value s \<noteq> 0) (tab c')"
  using assms
proof (induction n arbitrary: c src)
  case (Suc n)
  obtain h s where h: "h < length (tab c)" "s_value s \<noteq> 0" "insert_loop n (c\<lparr>tab := (tab c)[h := src]\<rparr>) s = Some (EAGAIN, c', src')"
    using insert_loop_evicts [OF Suc.prems(1)] by blast
  have "src \<in> set ((tab c)[h := src])" by (rule set_update_memI [OF h(1)])
  then have "list_ex (\<lambda>s. s_value s \<noteq> 0) ((tab c)[h := src])" using Suc.prems(2) by (auto simp: list_ex_iff)
  then show ?case using Suc.IH [OF h(3,2)] by simp
qed simp

text \<open>When an insertion asks for a larger table, the table is not empty, also for a value that is \<open>NULL\<close>.\<close>

lemma insert_try_live:
  assumes "cuckoo_insert_try c src = Some (EAGAIN, c', src')"
  shows "list_ex (\<lambda>s. s_value s \<noteq> 0) (tab c')"
proof -
  have m: "MAX_INSERTS = Suc 7" by (simp add: MAX_INSERTS_def)
  obtain h s where "s_value s \<noteq> 0" "insert_loop 7 (c\<lparr>tab := (tab c)[h := src]\<rparr>) s = Some (EAGAIN, c', src')"
    using insert_loop_evicts [OF assms [unfolded cuckoo_insert_try_def m]] by blast
  then show ?thesis by (intro insert_loop_live) auto
qed

lemma rehash_zero:
  assumes "csize c = 0" "list_all (\<lambda>i. i < length oldtab) is" "list_ex (\<lambda>i. s_value (oldtab ! i) \<noteq> 0) is"
  shows "rehash oldtab is c = None"
  using assms(2,3)
proof (induction "is")
  case (Cons i "is")
  have "cuckoo_insert_try c s = None" for s
    using assms(1) by (simp add: cuckoo_insert_try_def MAX_INSERTS_def numeral_eq_Suc hash_funcs_def hash_mod_def)
  then show ?case using Cons by auto
qed simp

text \<open>One attempt to grow: the size wraps, and the function does not return, or the new size is not zero.\<close>

lemma grow_step:
  assumes "csize c \<noteq> 0" "length oldtab = unat oldsize" "list_ex (\<lambda>s. s_value s \<noteq> 0) oldtab" "alloc (ucast (csize c * 2) * 16)"
  shows "csize c * 2 \<noteq> 0 \<and> (csize c * 2 = 2 ^ 31 \<longrightarrow> alloc (2 ^ 35)) \<or>
    rehash oldtab [0 ..< unat oldsize] (doubled c) = None \<and> size_wraps alloc (csize c)"
proof (cases "csize c * 2 = 0")
  case True
  have "list_ex (\<lambda>i. s_value (oldtab ! i) \<noteq> 0) [0 ..< unat oldsize]" using assms(2,3) by (fastforce simp: list_ex_iff in_set_conv_nth)
  moreover have "list_all (\<lambda>i. i < length oldtab) [0 ..< unat oldsize]" using assms(2) by (simp add: list_all_iff)
  ultimately have "rehash oldtab [0 ..< unat oldsize] (doubled c) = None" using rehash_zero [of "doubled c"] True by (simp add: doubled_def)
  then show ?thesis using True double_zero assms(1,4) by (simp add: size_wraps_def)
next
  case False
  have "alloc (2 ^ 35)" if w: "csize c * 2 = 2 ^ 31" using assms(4) unfolding w by simp
  then show ?thesis using False by blast
qed

end
