(* ===== verification/Cuckoo_Props.thy ===== *)
theory Cuckoo_Props
  imports Cuckoo
begin

text \<open>
  The cuckoo hash table is a map: growing, searching and removing, the map that a table stores, and two cases in which an insertion damages the
  table: a key that is stored twice, and a growth that fails halfway.
\<close>

subsection \<open>Growing\<close>

definition live_list :: "cuckoo_slot list \<Rightarrow> cuckoo_slot multiset" where
  "live_list ss = filter_mset (\<lambda>s. s_value s \<noteq> 0) (mset ss)"

lemma live_list_simps [simp]: "live_list [] = {#}" "live_list (s # ss) = live_slot s + live_list ss" "live_list (tab c) = live_slots c"
  by (simp_all add: live_list_def live_slot_def live_slots_def)

lemma one_per_key_left: "one_per_key (A + B) \<Longrightarrow> one_per_key A"
  unfolding one_per_key_def filter_union_mset size_union by (meson le_add1 le_trans)

lemma rehash_ok:
  assumes "table_ok c" "list_all (\<lambda>i. i < length oldtab) is" "one_per_key (live_slots c + live_list (map ((!) oldtab) is))"
  shows "\<exists>ok c'. rehash oldtab is c = Some (ok, c') \<and> table_ok c' \<and> csize c' = csize c \<and>
    (ok \<longrightarrow> live_slots c' = live_slots c + live_list (map ((!) oldtab) is))"
  using assms
proof (induction "is" arbitrary: c)
  case (Cons i "is")
  show ?case
  proof (cases "s_value (oldtab ! i) = 0")
    case True
    then show ?thesis using Cons by (simp add: live_slot_def)
  next
    case False
    then have split: "live_slots c + live_list (map ((!) oldtab) (i # is)) = (live_slots c + {#oldtab ! i#}) + live_list (map ((!) oldtab) is)"
      by (simp add: live_slot_def)
    have "one_per_key (live_slots c + {#oldtab ! i#})" using Cons.prems(3) unfolding split by (rule one_per_key_left)
    from insert_loop_ok [OF Cons.prems(1) False this, of MAX_INSERTS] obtain e c1 src where c1:
      "cuckoo_insert_try c (oldtab ! i) = Some (e, c1, src)" "table_ok c1" "csize c1 = csize c"
      "e = 0 \<and> live_slots c1 = live_slots c + {#oldtab ! i#} \<or> e = EAGAIN" unfolding cuckoo_insert_try_def by blast
    show ?thesis
    proof (cases "e = 0")
      case True
      then have l: "live_slots c1 = live_slots c + {#oldtab ! i#}" using c1(4) by (simp add: EAGAIN_def)
      have "one_per_key (live_slots c1 + live_list (map ((!) oldtab) is))" using Cons.prems(3) unfolding split l .
      from Cons.IH [OF c1(2) _ this] Cons.prems(2) show ?thesis using c1(1,3) True False unfolding split l by simp
    next
      case nz: False
      then show ?thesis using c1 False Cons.prems(2) by (intro exI [of _ False] exI [of _ c1]) auto
    qed
  qed
qed auto

lemma doubled_ok: "csize c * 2 \<noteq> 0 \<Longrightarrow> table_ok (doubled c) \<and> live_slots (doubled c) = {#}"
  by (simp add: table_ok_def doubled_def list_all_iff slot_ok_def null_slot_def live_slots_def filter_mset_eq_conv)

lemma grow_loop_ok:
  assumes "length oldtab = unat oldsize" "one_per_key (live_list oldtab)" "list_ex (\<lambda>s. s_value s \<noteq> 0) oldtab" "csize c \<noteq> 0"
  shows "(\<exists>e c'. grow_loop alloc oldsize oldtab n c = Some (e, c') \<and>
    (e = 0 \<and> table_ok c' \<and> live_slots c' = live_list oldtab \<and> (csize c' = 2 ^ 31 \<longrightarrow> alloc (2 ^ 35)) \<or>
     e = EINVAL \<and> csize c' = oldsize \<and> tab c' = oldtab \<or> e = ENOMEM \<and> tab c' = oldtab)) \<or>
    grow_loop alloc oldsize oldtab n c = None \<and> size_wraps alloc (csize c)"
  using assms(4)
proof (induction n arbitrary: c)
  case (Suc n)
  show ?case
  proof (cases "alloc (ucast (csize c * 2) * 16)")
    case True
    show ?thesis
    proof (cases "csize c * 2 \<noteq> 0 \<and> (csize c * 2 = 2 ^ 31 \<longrightarrow> alloc (2 ^ 35))")
      case nz: True
      then have d: "table_ok (doubled c)" "live_slots (doubled c) = {#}" using doubled_ok by blast+
      have m: "map ((!) oldtab) [0 ..< unat oldsize] = oldtab" unfolding assms(1) [symmetric] by (rule map_nth)
      have "list_all (\<lambda>i. i < length oldtab) [0 ..< unat oldsize]" by (simp add: assms(1) list_all_iff)
      from rehash_ok [OF d(1) this] obtain ok c1 where r: "rehash oldtab [0 ..< unat oldsize] (doubled c) = Some (ok, c1)" "table_ok c1"
        "csize c1 = csize c * 2" "ok \<longrightarrow> live_slots c1 = live_list oldtab" using assms(2) unfolding m d(2) by (auto simp: doubled_def)
      then show ?thesis using True nz Suc.IH [of c1] by (cases ok) (auto simp: size_wraps_def)
    next
      case False
      then have "rehash oldtab [0 ..< unat oldsize] (doubled c) = None \<and> size_wraps alloc (csize c)"
        using grow_step [of c oldtab oldsize alloc, OF Suc.prems assms(1,3) True] by blast
      then show ?thesis using True by simp
    qed
  qed simp
qed simp

lemma grow_ok:
  assumes "cuckoo_ok c" "list_ex (\<lambda>s. s_value s \<noteq> 0) (tab c)"
  shows "(\<exists>e c'. cuckoo_grow alloc c = Some (e, c') \<and>
    (e = 0 \<and> cuckoo_ok c' \<and> live_slots c' = live_slots c \<and> (csize c' = 2 ^ 31 \<longrightarrow> alloc (2 ^ 35)) \<or>
     e = EINVAL \<and> c' = c \<or> e = ENOMEM \<and> live_slots c' = live_slots c)) \<or>
    cuckoo_grow alloc c = None \<and> size_wraps alloc (csize c)"
proof (cases "cuckoo_grow alloc c")
  have l: "length (tab c) = unat (csize c)" "csize c \<noteq> 0" and o: "one_per_key (live_list (tab c))" using assms(1) by (simp_all add: cuckoo_ok_def table_ok_def)
  note g = grow_loop_ok [OF l(1) o assms(2) l(2), of alloc MAX_GROWS, folded cuckoo_grow_def]
  {
    case None
    then show ?thesis using g by simp
  next
    case (Some r)
    obtain e c' where r: "r = (e, c')" by (cases r)
    have "c' = c" if "csize c' = csize c" "tab c' = tab c" using that by simp
    moreover have "live_slots c' = live_slots c" if "tab c' = tab c" using that by (simp add: live_slots_def)
    ultimately show ?thesis using g Some r assms(1) unfolding cuckoo_ok_def by auto
  }
qed

lemma insert_rounds_ok:
  assumes "table_ok c" "s_value src \<noteq> 0" "one_per_key (live_slots c + {#src#})"
  shows "(\<exists>e c'. insert_rounds alloc n c src = Some (e, c') \<and>
    (e = 0 \<and> cuckoo_ok c' \<and> live_slots c' = live_slots c + {#src#} \<or>
     (e = EINVAL \<and> cuckoo_ok c' \<or> e = ENOMEM) \<and> (\<exists>lost. live_slots c' + {#lost#} = live_slots c + {#src#}))) \<or>
    insert_rounds alloc n c src = None \<and> size_wraps alloc (csize c)"
  using assms
proof (induction n arbitrary: c src)
  case 0
  then show ?case using one_per_key_left [OF "0"(3)] by (auto simp: cuckoo_ok_def)
next
  case (Suc n)
  from insert_loop_ok [OF Suc.prems, of MAX_INSERTS] obtain e c1 s1 where c1: "cuckoo_insert_try c src = Some (e, c1, s1)" "table_ok c1" "csize c1 = csize c"
    "e = 0 \<and> live_slots c1 = live_slots c + {#src#} \<or> e = EAGAIN \<and> s_value s1 \<noteq> 0 \<and> live_slots c1 + {#s1#} = live_slots c + {#src#}"
    unfolding cuckoo_insert_try_def by blast
  show ?case
  proof (cases "e = 0")
    case True
    then show ?thesis using c1 Suc.prems(3) by (auto simp: EAGAIN_def cuckoo_ok_def)
  next
    case False
    then have s1: "e = EAGAIN" "s_value s1 \<noteq> 0" "live_slots c1 + {#s1#} = live_slots c + {#src#}" using c1(4) by auto
    have one: "one_per_key (live_slots c1 + {#s1#})" using Suc.prems(3) unfolding s1(3) .
    have ok: "cuckoo_ok c1" using c1(2) one_per_key_left [OF one] by (simp add: cuckoo_ok_def)
    have lv: "list_ex (\<lambda>s. s_value s \<noteq> 0) (tab c1)" using insert_try_live c1(1) s1(1) by blast
    from grow_ok [OF ok lv, of alloc] show ?thesis
    proof (elim disjE exE conjE)
      fix g c2 assume g: "cuckoo_grow alloc c1 = Some (g, c2)" "g = 0" "cuckoo_ok c2" "live_slots c2 = live_slots c1" "csize c2 = 2 ^ 31 \<longrightarrow> alloc (2 ^ 35)"
      then have "table_ok c2" by (simp add: cuckoo_ok_def)
      from Suc.IH [OF this s1(2)] one have IH: "(\<exists>e c'. insert_rounds alloc n c2 s1 = Some (e, c') \<and>
          (e = 0 \<and> cuckoo_ok c' \<and> live_slots c' = live_slots c + {#src#} \<or>
           (e = EINVAL \<and> cuckoo_ok c' \<or> e = ENOMEM) \<and> (\<exists>lost. live_slots c' + {#lost#} = live_slots c + {#src#}))) \<or>
        insert_rounds alloc n c2 s1 = None \<and> size_wraps alloc (csize c2)" unfolding g(4) s1(3) by blast
      have "size_wraps alloc (csize c)" if "size_wraps alloc (csize c2)" using that g(5) by (auto simp: size_wraps_def)
      moreover have "insert_rounds alloc (Suc n) c src = insert_rounds alloc n c2 s1" using c1(1) s1(1) g(1,2) by simp
      ultimately show ?thesis using IH by auto
    next
      assume "cuckoo_grow alloc c1 = None" "size_wraps alloc (csize c1)"
      then show ?thesis using c1(1,3) s1(1) by simp
    qed (use c1(1) s1(1,3) ok in \<open>auto simp: EINVAL_def ENOMEM_def\<close>)
  qed
qed

subsection \<open>Searching\<close>

definition table_map :: "cuckoo \<Rightarrow> u64 \<Rightarrow> u64 option" where
  "table_map c = map_of (map (\<lambda>s. (s_key s, s_value s)) (filter (\<lambda>s. s_value s \<noteq> 0) (tab c)))"

lemma one_per_key_unique:
  assumes "one_per_key M" "s \<in># M" "t \<in># M" "s_key s = s_key t"
  shows "s = t"
proof (rule ccontr)
  assume "s \<noteq> t"
  obtain N where N: "M = N + {#s#}" using assms(2) by (auto dest!: multi_member_split)
  then have "t \<in># N" using assms(3) \<open>s \<noteq> t\<close> by auto
  moreover have "\<forall>t\<in>#N. s_key t \<noteq> s_key s" using assms(1) unfolding N one_per_key_add by blast
  ultimately show False using assms(4) by auto
qed

lemma table_map_iff:
  assumes "one_per_key (live_slots c)"
  shows "table_map c k = Some v \<longleftrightarrow> \<lparr>s_key = k, s_value = v\<rparr> \<in># live_slots c"
proof
  assume "table_map c k = Some v"
  then obtain s where "s \<in> set (tab c)" "s_value s \<noteq> 0" "s_key s = k" "s_value s = v" unfolding table_map_def by (auto dest!: map_of_SomeD)
  then have "s \<in># live_slots c" "s = \<lparr>s_key = k, s_value = v\<rparr>" by (simp_all add: live_slots_def)
  then show "\<lparr>s_key = k, s_value = v\<rparr> \<in># live_slots c" by simp
next
  assume m: "\<lparr>s_key = k, s_value = v\<rparr> \<in># live_slots c"
  then have "\<lparr>s_key = k, s_value = v\<rparr> \<in> set (filter (\<lambda>s. s_value s \<noteq> 0) (tab c))" by (simp add: live_slots_def)
  from imageI [OF this, of "\<lambda>s. (s_key s, s_value s)"]
  have "(k, v) \<in> set (map (\<lambda>s. (s_key s, s_value s)) (filter (\<lambda>s. s_value s \<noteq> 0) (tab c)))" unfolding set_map by simp
  from weak_map_of_SomeI [OF this] obtain w where w: "table_map c k = Some w" unfolding table_map_def by blast
  then obtain s where "s \<in> set (tab c)" "s_value s \<noteq> 0" "s_key s = k" "s_value s = w" unfolding table_map_def by (auto dest!: map_of_SomeD)
  then have "s \<in># live_slots c" "s_key s = s_key \<lparr>s_key = k, s_value = v\<rparr>" by (simp_all add: live_slots_def)
  from one_per_key_unique [OF assms this(1) m this(2)] show "table_map c k = Some v" using w \<open>s_value s = w\<close> by simp
qed

lemma mixer_zero: "hash_mixer c 0 = hash_mod c 0"
  by (simp add: hash_mixer_def mixed_def Let_def)

lemma find_slot_ok:
  assumes "table_ok c"
  shows "\<exists>r. cuckoo_find_slot c k = Some r \<and> (case r of None \<Rightarrow> \<forall>s\<in>#live_slots c. s_key s \<noteq> k
    | Some h \<Rightarrow> h < length (tab c) \<and> s_key (tab c ! h) = k \<and> (s_value (tab c ! h) = 0 \<longrightarrow> (\<forall>s\<in>#live_slots c. s_key s \<noteq> k)))"
proof -
  obtain h g where h: "hash_mod c k = Some h" "h < length (tab c)" and g: "hash_mixer c k = Some g" "g < length (tab c)"
    using hash_range [of c k] assms by (auto simp: table_ok_def)
  have pl: "tab c ! h = s \<or> tab c ! g = s" if s: "s \<in># live_slots c" "s_key s = k" for s
  proof -
    obtain i where i: "i < length (tab c)" "tab c ! i = s" "s_value s \<noteq> 0" using s(1) by (auto simp: live_slots_def in_set_conv_nth)
    then show ?thesis using table_okD [OF assms i(1)] s(2) h g by (auto simp: slot_ok_def)
  qed
  have z: "k = 0 \<and> g = h" if "i = h \<or> i = g" "s_key (tab c ! i) = k" "s_value (tab c ! i) = 0" for i
  proof -
    have "i < length (tab c)" using that(1) h g by auto
    from table_okD [OF assms this] have "tab c ! i = null_slot" using that(3) by (simp add: slot_ok_def)
    then have "k = 0" using that(2) by (simp add: null_slot_def)
    then show ?thesis using h(1) g(1) by (simp add: mixer_zero)
  qed
  have no: "\<forall>s\<in>#live_slots c. s_key s \<noteq> k" if i: "i = h \<or> i = g" "s_key (tab c ! i) = k" "s_value (tab c ! i) = 0" for i
  proof
    fix s assume s: "s \<in># live_slots c"
    then have "s_value s \<noteq> 0" by (simp add: live_slots_def)
    then have "tab c ! i \<noteq> s" using i(3) by auto
    then have "tab c ! h \<noteq> s" "tab c ! g \<noteq> s" using z [OF i] i(1) by auto
    then show "s_key s \<noteq> k" using pl [OF s] by blast
  qed
  have f: "cuckoo_find_slot c k = Some (if s_key (tab c ! h) = k then Some h else if s_key (tab c ! g) = k then Some g else None)"
    using h g by (simp add: cuckoo_find_slot_def hash_funcs_def slot_at_def)
  consider "s_key (tab c ! h) = k" | "s_key (tab c ! h) \<noteq> k" "s_key (tab c ! g) = k" | "s_key (tab c ! h) \<noteq> k" "s_key (tab c ! g) \<noteq> k" by blast
  then show ?thesis
  proof cases
    case 1
    have "\<forall>s\<in>#live_slots c. s_key s \<noteq> k" if "s_value (tab c ! h) = 0" by (rule no [of h, OF _ 1 that]) simp
    then show ?thesis unfolding f using h(2) 1 by (intro exI [of _ "Some h"]) simp
  next
    case 2
    have "\<forall>s\<in>#live_slots c. s_key s \<noteq> k" if "s_value (tab c ! g) = 0" by (rule no [of g, OF _ 2(2) that]) simp
    then show ?thesis unfolding f using g(2) 2 by (intro exI [of _ "Some g"]) simp
  next
    case 3
    then have "\<forall>s\<in>#live_slots c. s_key s \<noteq> k" using pl by blast
    then show ?thesis unfolding f using 3 by (intro exI [of _ None]) simp
  qed
qed

lemma find_slot_value:
  assumes "cuckoo_ok c"
  shows "\<exists>r. cuckoo_find_slot c k = Some r \<and> (case r of None \<Rightarrow> table_map c k = None
    | Some h \<Rightarrow> h < length (tab c) \<and> table_map c k = (if s_value (tab c ! h) = 0 then None else Some (s_value (tab c ! h))) \<and>
        live_slot (tab c ! h) = (case table_map c k of None \<Rightarrow> {#} | Some v \<Rightarrow> {#\<lparr>s_key = k, s_value = v\<rparr>#}))"
proof -
  have ok: "table_ok c" "one_per_key (live_slots c)" using assms by (simp_all add: cuckoo_ok_def)
  note m = table_map_iff [OF ok(2)]
  have none: "table_map c k = None" if "\<forall>s\<in>#live_slots c. s_key s \<noteq> k"
  proof (cases "table_map c k")
    case (Some v)
    from that [rule_format, OF m [THEN iffD1, OF this]] show ?thesis by simp
  qed
  obtain r where r: "cuckoo_find_slot c k = Some r" "case r of None \<Rightarrow> \<forall>s\<in>#live_slots c. s_key s \<noteq> k
    | Some h \<Rightarrow> h < length (tab c) \<and> s_key (tab c ! h) = k \<and> (s_value (tab c ! h) = 0 \<longrightarrow> (\<forall>s\<in>#live_slots c. s_key s \<noteq> k))"
    using find_slot_ok [OF ok(1)] by blast
  show ?thesis
  proof (cases r)
    case None
    then show ?thesis using r none by simp
  next
    case (Some h)
    then have h: "h < length (tab c)" "s_key (tab c ! h) = k" using r(2) by simp_all
    have eq: "tab c ! h = \<lparr>s_key = k, s_value = s_value (tab c ! h)\<rparr>" using h(2) by simp
    show ?thesis
    proof (cases "s_value (tab c ! h) = 0")
      case True
      then show ?thesis using r Some h none by (simp add: live_slot_def)
    next
      case False
      from live_member [OF h(1) this] have "table_map c k = Some (s_value (tab c ! h))" using m eq by metis
      then show ?thesis using r(1) Some h False eq by (simp add: live_slot_def)
    qed
  qed
qed

lemma remove_ok:
  assumes "cuckoo_ok c"
  shows "\<exists>c'. cuckoo_remove k c = Some (case table_map c k of None \<Rightarrow> 0 | Some v \<Rightarrow> v, c') \<and> cuckoo_ok c' \<and>
    live_slots c' + (case table_map c k of None \<Rightarrow> {#} | Some v \<Rightarrow> {#\<lparr>s_key = k, s_value = v\<rparr>#}) = live_slots c"
proof -
  obtain r where r: "cuckoo_find_slot c k = Some r" "case r of None \<Rightarrow> table_map c k = None
    | Some h \<Rightarrow> h < length (tab c) \<and> table_map c k = (if s_value (tab c ! h) = 0 then None else Some (s_value (tab c ! h))) \<and>
        live_slot (tab c ! h) = (case table_map c k of None \<Rightarrow> {#} | Some v \<Rightarrow> {#\<lparr>s_key = k, s_value = v\<rparr>#})"
    using find_slot_value [OF assms] by blast
  show ?thesis
  proof (cases r)
    case None
    then show ?thesis using r assms by (simp add: cuckoo_remove_def)
  next
    case (Some h)
    define c' where "c' = c\<lparr>tab := (tab c)[h := null_slot]\<rparr>"
    have h: "h < length (tab c)" and v: "table_map c k = (if s_value (tab c ! h) = 0 then None else Some (s_value (tab c ! h)))"
      and l: "live_slot (tab c ! h) = (case table_map c k of None \<Rightarrow> {#} | Some v \<Rightarrow> {#\<lparr>s_key = k, s_value = v\<rparr>#})"
      using r(2) Some by simp_all
    have n: "slot_ok c h null_slot" "live_slot null_slot = {#}" by (simp_all add: slot_ok_def null_slot_def live_slot_def)
    have t: "table_ok c" "one_per_key (live_slots c)" using assms by (simp_all add: cuckoo_ok_def)
    note u = table_update [OF t(1) h n(1), folded c'_def, unfolded n(2)]
    have eq: "live_slots c' + live_slot (tab c ! h) = live_slots c" using u(2) by simp
    have "one_per_key (live_slots c')" by (rule one_per_key_left [of _ "live_slot (tab c ! h)"]) (simp only: eq t(2))
    then have "cuckoo_ok c'" using u(1) by (simp add: cuckoo_ok_def)
    moreover have "cuckoo_remove k c = Some (case table_map c k of None \<Rightarrow> 0 | Some v \<Rightarrow> v, c')"
      using r(1) Some v by (simp add: cuckoo_remove_def c'_def)
    ultimately show ?thesis using eq unfolding l by blast
  qed
qed

lemma map_eqI: "(\<And>w. a = Some w \<longleftrightarrow> b = Some w) \<Longrightarrow> a = b"
  by (cases a; cases b) auto

lemma table_map_add:
  assumes "one_per_key (live_slots c')" "live_slots c' = live_slots c + {#\<lparr>s_key = k, s_value = v\<rparr>#}"
  shows "table_map c' = (table_map c)(k \<mapsto> v)" "table_map c = (table_map c')(k := None)"
proof -
  have o: "one_per_key (live_slots c)" and n: "\<forall>t\<in>#live_slots c. s_key t \<noteq> k" using assms(1) unfolding assms(2) one_per_key_add by auto
  note m = table_map_iff [OF o] table_map_iff [OF assms(1), unfolded assms(2)]
  have nk: "table_map c k \<noteq> Some w" for w using n m(1) [of k w] by auto
  show eq: "table_map c' = (table_map c)(k \<mapsto> v)"
  proof
    fix x show "table_map c' x = ((table_map c)(k \<mapsto> v)) x"
    proof (rule map_eqI)
      fix w show "table_map c' x = Some w \<longleftrightarrow> ((table_map c)(k \<mapsto> v)) x = Some w"
        using m(1) [of x w] m(2) [of x w] nk [of w] by (cases "x = k") auto
    qed
  qed
  have "table_map c k = None" using nk by (cases "table_map c k") auto
  then show "table_map c = (table_map c')(k := None)" unfolding eq by auto
qed

lemma insert_map:
  assumes "cuckoo_ok c" "v \<noteq> 0 \<and> table_map c k = None"
  shows "(\<exists>e c'. cuckoo_insert alloc k v c = Some (e, c') \<and>
    (e = 0 \<and> cuckoo_ok c' \<and> table_map c' = (table_map c)(k \<mapsto> v) \<or>
     (e = EINVAL \<and> cuckoo_ok c' \<or> e = ENOMEM) \<and>
       (\<exists>lost. ((table_map c)(k \<mapsto> v)) lost \<noteq> None \<and> table_map c' = ((table_map c)(k \<mapsto> v))(lost := None)))) \<or>
    cuckoo_insert alloc k v c = None \<and> size_wraps alloc (csize c)"
proof -
  define src where "src = \<lparr>s_key = k, s_value = v\<rparr>"
  define d where "d = \<lparr>csize = csize c, tab = src # tab c\<rparr>"
  have ok: "table_ok c" "one_per_key (live_slots c)" using assms(1) by (simp_all add: cuckoo_ok_def)
  have "s_key t \<noteq> k" if "t \<in># live_slots c" for t
  proof
    assume "s_key t = k"
    then have "\<lparr>s_key = k, s_value = s_value t\<rparr> \<in># live_slots c" using that by (cases t) auto
    from table_map_iff [OF ok(2), THEN iffD2, OF this] show False using assms(2) by simp
  qed
  then have one: "one_per_key (live_slots c + {#src#})" using ok(2) unfolding one_per_key_add by (simp add: src_def)
  have d: "live_slots d = live_slots c + {#src#}" using assms(2) by (simp add: live_slots_def d_def src_def)
  have od: "one_per_key (live_slots d)" using one unfolding d .
  have md: "table_map d = (table_map c)(k \<mapsto> v)" using table_map_add(1) [OF od d [unfolded src_def]] .
  have sv: "s_value src \<noteq> 0" using assms(2) by (simp add: src_def)
  show ?thesis
  proof (cases "cuckoo_insert alloc k v c")
    case None
    then show ?thesis using insert_rounds_ok [OF ok(1) sv one, of alloc MAX_GROWS] unfolding cuckoo_insert_def src_def by auto
  next
    case (Some res)
    then obtain e c' where r: "cuckoo_insert alloc k v c = Some (e, c')" "e = 0 \<and> cuckoo_ok c' \<and> live_slots c' = live_slots c + {#src#} \<or>
       (e = EINVAL \<and> cuckoo_ok c' \<or> e = ENOMEM) \<and> (\<exists>lost. live_slots c' + {#lost#} = live_slots c + {#src#})"
      using insert_rounds_ok [OF ok(1) sv one, of alloc MAX_GROWS] unfolding cuckoo_insert_def src_def by auto
    have same: "table_map c' = table_map d" if "live_slots c' = live_slots d"
    proof
      fix x show "table_map c' x = table_map d x"
        using table_map_iff [of c' x] table_map_iff [OF od, of x] od unfolding that by (intro map_eqI) blast
    qed
    have lost: "\<exists>l. table_map d l \<noteq> None \<and> table_map c' = (table_map d)(l := None)" if "live_slots c' + {#s#} = live_slots d" for s
    proof (intro exI conjI)
      have e: "\<lparr>s_key = s_key s, s_value = s_value s\<rparr> = s" by (cases s) simp
      have l: "live_slots d = live_slots c' + {#\<lparr>s_key = s_key s, s_value = s_value s\<rparr>#}" unfolding e by (rule that [symmetric])
      show "table_map c' = (table_map d)(s_key s := None)" by (rule table_map_add(2) [OF od l])
      show "table_map d (s_key s) \<noteq> None" unfolding table_map_add(1) [OF od l] by simp
    qed
    have "e = 0 \<and> cuckoo_ok c' \<and> table_map c' = table_map d \<or>
        (e = EINVAL \<and> cuckoo_ok c' \<or> e = ENOMEM) \<and> (\<exists>lost. table_map d lost \<noteq> None \<and> table_map c' = (table_map d)(lost := None))"
    proof (cases "\<exists>lost. live_slots c' + {#lost#} = live_slots d")
      case True
      then obtain l where l: "live_slots c' + {#l#} = live_slots d" ..
      then have "live_slots c' \<noteq> live_slots d" by auto
      then show ?thesis using r(2) [folded d] lost [OF l] by simp
    next
      case False
      then show ?thesis using r(2) [folded d] same by simp
    qed
    then show ?thesis using r(1) unfolding md [symmetric] by blast
  qed
qed

text \<open>C33: The hash table is a map. On a well-formed table \<open>cuckoo_get\<close> returns the value of the key or \<open>NULL\<close>, \<open>cuckoo_remove\<close> returns it and removes
  exactly this key, and \<open>cuckoo_insert\<close> of a new key with a value that is not \<open>NULL\<close> returns, unless the size of the table wraps to 0, for which a
  table of 32 GiB and then one of 0 bytes have been allocated. When it returns 0 the table is the map with the new entry. When it returns an
  error, the table is that map without one of its entries, which need not be the new one, and after \<open>EINVAL\<close> it is still well formed.\<close>

theorem cuckoo_refines_map:
  assumes "cuckoo_ok c"
  shows "cuckoo_get k c = Some (case table_map c k of None \<Rightarrow> 0 | Some v \<Rightarrow> v) \<and>
    (\<exists>c'. cuckoo_remove k c = Some (case table_map c k of None \<Rightarrow> 0 | Some v \<Rightarrow> v, c') \<and> cuckoo_ok c' \<and> table_map c' = (table_map c)(k := None)) \<and>
    (v \<noteq> 0 \<and> table_map c k = None \<longrightarrow>
     (\<exists>e c'. cuckoo_insert alloc k v c = Some (e, c') \<and>
       (e = 0 \<and> cuckoo_ok c' \<and> table_map c' = (table_map c)(k \<mapsto> v) \<or>
        (e = EINVAL \<and> cuckoo_ok c' \<or> e = ENOMEM) \<and>
          (\<exists>lost. ((table_map c)(k \<mapsto> v)) lost \<noteq> None \<and> table_map c' = ((table_map c)(k \<mapsto> v))(lost := None)))) \<or>
     cuckoo_insert alloc k v c = None \<and> size_wraps alloc (csize c))"
proof (intro conjI impI)
  have ok: "table_ok c" "one_per_key (live_slots c)" using assms(1) by (simp_all add: cuckoo_ok_def)
  show "cuckoo_get k c = Some (case table_map c k of None \<Rightarrow> 0 | Some v \<Rightarrow> v)"
    using find_slot_value [OF assms(1), of k] by (auto simp: cuckoo_get_def split: option.splits if_splits)
  obtain c' where c': "cuckoo_remove k c = Some (case table_map c k of None \<Rightarrow> 0 | Some v \<Rightarrow> v, c')" "cuckoo_ok c'"
    "live_slots c' + (case table_map c k of None \<Rightarrow> {#} | Some v \<Rightarrow> {#\<lparr>s_key = k, s_value = v\<rparr>#}) = live_slots c" using remove_ok [OF assms(1)] by blast
  have "table_map c' = (table_map c)(k := None)"
  proof (cases "table_map c k")
    case None
    then have l: "live_slots c' = live_slots c" using c'(3) by simp
    then have o: "one_per_key (live_slots c')" using ok(2) by simp
    have "table_map c' x = table_map c x" for x
      using table_map_iff [OF o, of x] table_map_iff [OF ok(2), of x] unfolding l by (intro map_eqI) blast
    then show ?thesis using None by auto
  next
    case (Some v)
    then show ?thesis using table_map_add(2) [OF ok(2), of c' k v] c'(3) by simp
  qed
  then show "\<exists>c'. cuckoo_remove k c = Some (case table_map c k of None \<Rightarrow> 0 | Some v \<Rightarrow> v, c') \<and> cuckoo_ok c' \<and> table_map c' = (table_map c)(k := None)"
    using c' by blast
qed (rule insert_map [of c v k alloc, OF assms])

definition no_failure :: "u64 \<Rightarrow> bool" where
  "no_failure n \<longleftrightarrow> True"

definition inserted :: "(u64 \<Rightarrow> bool) \<Rightarrow> (u64 \<times> u64) list \<Rightarrow> cuckoo" where
  "inserted alloc kvs = fold (\<lambda>(k, v) c. snd (the (cuckoo_insert alloc k v c))) kvs (the (cuckoo_new True no_failure))"

lemma new_ok:
  assumes "cuckoo_new True alloc = Some c"
  shows "cuckoo_ok c \<and> table_map c = Map.empty"
proof -
  have c: "c = \<lparr>csize = 8, tab = replicate 8 null_slot\<rparr>" using assms by (auto simp: cuckoo_new_def INITIAL_SIZE_def split: if_splits)
  have "live_slots c = {#}" by (simp add: c live_slots_def null_slot_def filter_mset_eq_conv)
  moreover have "table_ok c" by (simp add: c table_ok_def list_all_iff slot_ok_def null_slot_def)
  ultimately show ?thesis by (simp add: cuckoo_ok_def one_per_key_def c table_map_def null_slot_def)
qed

theorem cuckoo_refines_map_witness:
  "let c = the (cuckoo_new True no_failure)
   in cuckoo_ok c \<and> table_map c 49 = None \<and>
      (\<exists>c'. cuckoo_insert no_failure 49 7 c = Some (0, c') \<and> cuckoo_ok c' \<and> table_map c' = [49 \<mapsto> 7])"
proof -
  define c where "c = the (cuckoo_new True no_failure)"
  have "cuckoo_new True no_failure = Some c" by (simp add: c_def cuckoo_new_def no_failure_def INITIAL_SIZE_def)
  then have c: "cuckoo_ok c" "table_map c = Map.empty" using new_ok by blast+
  have "map_option fst (cuckoo_insert no_failure 49 7 (the (cuckoo_new True no_failure))) = Some 0" by code_simp
  then have "\<exists>c'. cuckoo_insert no_failure 49 7 c = Some (0, c')" by (auto simp: c_def)
  then show ?thesis using cuckoo_refines_map [of c 49 7 no_failure, OF c(1)] c
    unfolding Let_def c_def [symmetric] by (auto simp: EINVAL_def ENOMEM_def)
qed

subsection \<open>Insertions that damage the table\<close>

text \<open>C35: A key can be inserted twice. If a key is stored in its second place and its first place is free, inserting the key again is not rejected: the call returns 0,
  the new value is found, and after the key has been removed the old value is found.\<close>

theorem cuckoo_duplicate_key:
  assumes "table_ok c" "hash_mod c k = Some h" "hash_mixer c k = Some g" "s_value (tab c ! h) = 0" "tab c ! g = \<lparr>s_key = k, s_value = old\<rparr>" "old \<noteq> 0" "v \<noteq> 0"
  shows "\<exists>c' c''. cuckoo_insert alloc k v c = Some (0, c') \<and> cuckoo_get k c' = Some v \<and> cuckoo_remove k c' = Some (v, c'') \<and> cuckoo_get k c'' = Some old"
proof -
  have l: "h < length (tab c)" "g < length (tab c)" using hash_range [of c k] assms(1-3) by (auto simp: table_ok_def)
  have ne: "g \<noteq> h" using assms(4-6) by auto
  then have k: "k \<noteq> 0" using assms(2,3) mixer_zero [of c] by auto
  define c' where "c' = c\<lparr>tab := (tab c)[h := \<lparr>s_key = k, s_value = v\<rparr>]\<rparr>"
  define c'' where "c'' = c\<lparr>tab := (tab c)[h := null_slot]\<rparr>"
  have "try_funcs hash_funcs c \<lparr>s_key = k, s_value = v\<rparr> = Some (Some 0, c')"
    using assms(2,4) l by (simp add: hash_funcs_def slot_at_def c'_def)
  then have "cuckoo_insert alloc k v c = Some (0, c')"
    by (simp add: cuckoo_insert_def cuckoo_insert_try_def MAX_GROWS_def MAX_INSERTS_def numeral_eq_Suc EAGAIN_def)
  moreover have "cuckoo_find_slot c' k = Some (Some h)" "cuckoo_find_slot c'' k = Some (Some g)"
    using assms(2,3,5) l ne k by (simp_all add: cuckoo_find_slot_def hash_funcs_def slot_at_def c'_def c''_def null_slot_def)
  ultimately show ?thesis using l ne assms(5) by (simp add: cuckoo_get_def cuckoo_remove_def) (simp add: c'_def c''_def)
qed

theorem cuckoo_duplicate_key_witness:
  "let c = snd (the (cuckoo_remove 9 (inserted no_failure [(9, 90), (1, 10)])))
   in table_ok c \<and> (\<exists>c' c''. cuckoo_insert no_failure 1 20 c = Some (0, c') \<and> cuckoo_remove 1 c' = Some (20, c'') \<and> cuckoo_get 1 c'' = Some 10)"
proof -
  define c where "c = snd (the (cuckoo_remove 9 (inserted no_failure [(9, 90), (1, 10)])))"
  obtain h g where hg: "hash_mod c 1 = Some h" "hash_mixer c 1 = Some g" "s_value (tab c ! h) = 0" "tab c ! g = \<lparr>s_key = 1, s_value = 10\<rparr>"
  proof
    show "hash_mod c 1 = Some 1" "hash_mixer c 1 = Some (the (hash_mixer c 1))" "s_value (tab c ! 1) = 0"
      "tab c ! the (hash_mixer c 1) = \<lparr>s_key = 1, s_value = 10\<rparr>" unfolding c_def by code_simp+
  qed
  have t: "table_ok c" unfolding c_def by code_simp
  have "(10 :: u64) \<noteq> 0" "(20 :: u64) \<noteq> 0" by simp_all
  from cuckoo_duplicate_key [OF t hg this, of no_failure] t show ?thesis unfolding Let_def c_def by blast
qed

lemma try_funcs_csize: "try_funcs fs c src = Some (r, c') \<Longrightarrow> csize c' = csize c"
  by (induction fs) (auto split: bind_splits if_splits)

lemma insert_loop_csize: "insert_loop n c src = Some (e, c', src') \<Longrightarrow> csize c' = csize c"
proof (induction n arbitrary: c src)
  case (Suc n)
  then obtain r c1 where r: "try_funcs hash_funcs c src = Some (r, c1)" by (auto split: bind_splits)
  from try_funcs_csize [OF r] Suc r show ?case by (cases r) (auto split: bind_splits)
qed simp

lemma rehash_csize: "rehash oldtab is c = Some (ok, c') \<Longrightarrow> csize c' = csize c"
  by (induction oldtab "is" c rule: rehash.induct)
    (auto simp: cuckoo_insert_try_def split: if_splits bind_splits dest: insert_loop_csize)

text \<open>C36: A failed growth leaves the wrong size. When the first larger table is too small for the old entries and there is no memory for the second, \<open>cuckoo_grow\<close>
  restores the table and not the size: the size is twice the length of the table, and the search for a key whose place is in the missing half, such as the
  old size, reads behind the table.\<close>

theorem cuckoo_grow_wrong_size:
  assumes "table_ok c" "csize c < 2 ^ 31" "alloc (ucast (csize c * 2) * 16)" "rehash (tab c) [0 ..< unat (csize c)] (doubled c) = Some (False, c1)"
    "\<not> alloc (ucast (csize c * 2 * 2) * 16)"
  shows "\<exists>c'. cuckoo_grow alloc c = Some (ENOMEM, c') \<and> tab c' = tab c \<and> unat (csize c') = 2 * length (tab c) \<and>
    (\<forall>k h. hash_mod c' k = Some h \<longrightarrow> length (tab c) \<le> h \<longrightarrow> cuckoo_get k c' = None) \<and> cuckoo_get (ucast (csize c)) c' = None"
proof -
  define c' where "c' = c1\<lparr>tab := tab c\<rparr>"
  have s: "csize c1 = csize c * 2" using rehash_csize [OF assms(4)] by (simp add: doubled_def)
  have grows: "MAX_GROWS = Suc (Suc 30)" by (simp add: MAX_GROWS_def)
  have g: "cuckoo_grow alloc c = Some (ENOMEM, c')"
    using assms(3-5) unfolding cuckoo_grow_def grows grow_loop.simps by (simp add: s c'_def)
  have n: "csize c \<noteq> 0" "length (tab c) = unat (csize c)" using assms(1) by (simp_all add: table_ok_def)
  have "unat (csize c) < 2 ^ 31" using assms(2) by (simp add: word_less_nat_alt)
  then have u: "unat (csize c') = 2 * length (tab c)" using n by (simp add: c'_def s unat_word_ariths)
  have get: "cuckoo_get k c' = None" if "hash_mod c' k = Some h" "length (tab c) \<le> h" for k h
    using that by (simp add: cuckoo_get_def cuckoo_find_slot_def hash_funcs_def slot_at_def c'_def)
  have nz: "csize c' \<noteq> 0" using u n by (auto simp: unat_eq_zero)
  have "unat (ucast (csize c) mod ucast (csize c') :: u64) = unat (csize c)"
    using u n \<open>unat (csize c) < 2 ^ 31\<close> by (simp add: unat_mod_distrib unsigned_ucast_eq take_bit_nat_eq_self)
  then have "hash_mod c' (ucast (csize c)) = Some (length (tab c))" using nz n(2) by (simp add: hash_mod_def)
  then show ?thesis using g u get by (auto simp: c'_def)
qed

theorem cuckoo_grow_wrong_size_witness:
  "let c = fst (snd (the (cuckoo_insert_try (inserted no_failure [(49, 490), (1, 10), (28, 280)]) \<lparr>s_key = 105, s_value = 1050\<rparr>)))
   in table_ok c \<and> (\<exists>c'. cuckoo_grow (\<lambda>n. n < 512) c = Some (ENOMEM, c') \<and> unat (csize c') = 2 * length (tab c') \<and> cuckoo_get (ucast (csize c)) c' = None)"
proof -
  define c where "c = fst (snd (the (cuckoo_insert_try (inserted no_failure [(49, 490), (1, 10), (28, 280)]) \<lparr>s_key = 105, s_value = 1050\<rparr>)))"
  have t: "table_ok c" unfolding c_def by code_simp
  have z: "csize c = 8" unfolding c_def by code_simp
  then have a: "csize c < 2 ^ 31" "(\<lambda>n. n < 512) (ucast (csize c * 2) * 16 :: u64)" "\<not> (\<lambda>n. n < 512) (ucast (csize c * 2 * 2) * 16 :: u64)" by simp_all
  have "map_option fst (rehash (tab c) [0 ..< unat (csize c)] (doubled c)) = Some False" unfolding c_def by code_simp
  then obtain c1 where "rehash (tab c) [0 ..< unat (csize c)] (doubled c) = Some (False, c1)" by auto
  from cuckoo_grow_wrong_size [of c "\<lambda>n. n < 512", OF t a(1,2) this a(3)] t show ?thesis unfolding Let_def c_def [symmetric] by auto
qed

end
