(* ===== verification/Cuckoo_Type.thy ===== *)
theory Cuckoo_Type
  imports Cuckoo_Props
begin

text \<open>
  Well-formedness of the hash table under all calls, also with keys that are in the table already and with values that are \<open>NULL\<close>: its length is its size, and
  every entry is in one of its two places, so that no access leaves the table. Unlike \<open>table_ok\<close> this does not ask an empty slot to be zero, which the insertion of
  \<open>NULL\<close> does not keep.
\<close>

definition placed :: "cuckoo \<Rightarrow> nat \<Rightarrow> cuckoo_slot \<Rightarrow> bool" where
  "placed c h s \<longleftrightarrow> s_value s = 0 \<or> Some h \<in> {hash_mod c (s_key s), hash_mixer c (s_key s)}"

definition table_typed :: "cuckoo \<Rightarrow> bool" where
  "table_typed c \<longleftrightarrow> csize c \<noteq> 0 \<and> length (tab c) = unat (csize c) \<and> list_all (\<lambda>h. placed c h (tab c ! h)) [0 ..< length (tab c)]"

lemma table_ok_typed: "table_ok c \<Longrightarrow> table_typed c"
  by (auto simp: table_ok_def table_typed_def list_all_iff slot_ok_def placed_def split: if_splits)

lemma typed_update:
  assumes "table_typed c" "h < length (tab c)" "placed c h s"
  shows "table_typed (c\<lparr>tab := (tab c)[h := s]\<rparr>)"
  using assms by (auto simp: table_typed_def list_all_iff nth_list_update placed_def)

lemma typed_hash:
  assumes "table_typed c"
  shows "\<exists>h. hash_mod c k = Some h \<and> h < length (tab c)" "\<exists>g. hash_mixer c k = Some g \<and> g < length (tab c)"
  using hash_range [of c k] assms by (auto simp: table_typed_def)

lemma try_funcs_type:
  assumes "table_typed c"
  shows "\<exists>r c'. try_funcs hash_funcs c src = Some (r, c') \<and> table_typed c' \<and>
    (r = None \<longrightarrow> c' = c \<and> (\<exists>h. hash_mod c (s_key src) = Some h \<and> h < length (tab c)))"
proof -
  obtain h g where h: "hash_mod c (s_key src) = Some h" "h < length (tab c)" and g: "hash_mixer c (s_key src) = Some g" "g < length (tab c)"
    using typed_hash [OF assms, of "s_key src"] by blast
  have up: "table_typed (c\<lparr>tab := (tab c)[i := src]\<rparr>)" if "i = h \<or> i = g" for i
    using typed_update [OF assms, of i src] that h g by (auto simp: placed_def)
  show ?thesis using up [of h] up [of g] h g assms by (simp add: hash_funcs_def slot_at_def)
qed

lemma insert_loop_type: "table_typed c \<Longrightarrow> \<exists>e c' src'. insert_loop n c src = Some (e, c', src') \<and> table_typed c'"
proof (induction n arbitrary: c src)
  case (Suc n)
  obtain r c1 where r: "try_funcs hash_funcs c src = Some (r, c1)" "table_typed c1"
    "r = None \<longrightarrow> c1 = c \<and> (\<exists>h. hash_mod c (s_key src) = Some h \<and> h < length (tab c))" using try_funcs_type [OF Suc.prems] by blast
  show ?case
  proof (cases r)
    case None
    then obtain h where h: "c1 = c" "hash_mod c (s_key src) = Some h" "h < length (tab c)" using r(3) by blast
    have "table_typed (c\<lparr>tab := (tab c)[h := src]\<rparr>)" using typed_update [OF Suc.prems h(3), of src] h(2) by (simp add: placed_def)
    from Suc.IH [OF this] show ?thesis using r(1) None h by (simp add: slot_at_def)
  qed (use r in simp)
qed simp

lemma rehash_type:
  assumes "table_typed c" "list_all (\<lambda>i. i < length oldtab) is"
  shows "\<exists>ok c'. rehash oldtab is c = Some (ok, c') \<and> table_typed c'"
  using assms
proof (induction "is" arbitrary: c)
  case (Cons i "is")
  show ?case
  proof (cases "s_value (oldtab ! i) = 0")
    case False
    from insert_loop_type [OF Cons.prems(1), of MAX_INSERTS "oldtab ! i"] obtain e c1 s1 where
      "cuckoo_insert_try c (oldtab ! i) = Some (e, c1, s1)" "table_typed c1" unfolding cuckoo_insert_try_def by blast
    then show ?thesis using Cons.IH [of c1] Cons.prems(2) False by (cases "e = 0") auto
  qed (use Cons in simp)
qed auto

lemma grow_loop_type:
  assumes "length oldtab = unat oldsize" "list_ex (\<lambda>s. s_value s \<noteq> 0) oldtab" "csize c \<noteq> 0"
  shows "(\<exists>e c'. grow_loop alloc oldsize oldtab n c = Some (e, c') \<and>
    (e = 0 \<and> table_typed c' \<and> (csize c' = 2 ^ 31 \<longrightarrow> alloc (2 ^ 35)) \<or> e = EINVAL \<and> csize c' = oldsize \<and> tab c' = oldtab \<or> e = ENOMEM)) \<or>
    grow_loop alloc oldsize oldtab n c = None \<and> size_wraps alloc (csize c)"
  using assms(3)
proof (induction n arbitrary: c)
  case (Suc n)
  show ?case
  proof (cases "alloc (ucast (csize c * 2) * 16)")
    case True
    show ?thesis
    proof (cases "csize c * 2 \<noteq> 0 \<and> (csize c * 2 = 2 ^ 31 \<longrightarrow> alloc (2 ^ 35))")
      case nz: True
      then have d: "table_typed (doubled c)" using doubled_ok table_ok_typed by blast
      have "list_all (\<lambda>i. i < length oldtab) [0 ..< unat oldsize]" by (simp add: assms(1) list_all_iff)
      from rehash_type [OF d this] obtain ok c1 where r: "rehash oldtab [0 ..< unat oldsize] (doubled c) = Some (ok, c1)" "table_typed c1" by blast
      have "csize c1 = csize c * 2" using rehash_csize [OF r(1)] by (simp add: doubled_def)
      then show ?thesis using True nz r Suc.IH [of c1] by (cases ok) (auto simp: size_wraps_def)
    next
      case False
      then have "rehash oldtab [0 ..< unat oldsize] (doubled c) = None \<and> size_wraps alloc (csize c)"
        using grow_step [of c oldtab oldsize alloc, OF Suc.prems assms(1,2) True] by blast
      then show ?thesis using True by simp
    qed
  qed simp
qed simp

lemma insert_rounds_type:
  assumes "table_typed c"
  shows "(\<exists>e c'. insert_rounds alloc n c src = Some (e, c') \<and> (e \<noteq> ENOMEM \<longrightarrow> table_typed c')) \<or>
    insert_rounds alloc n c src = None \<and> size_wraps alloc (csize c)"
  using assms
proof (induction n arbitrary: c src)
  case (Suc n)
  from insert_loop_type [OF Suc.prems, of MAX_INSERTS src] obtain e c1 s1 where c1:
    "cuckoo_insert_try c src = Some (e, c1, s1)" "table_typed c1" unfolding cuckoo_insert_try_def by blast
  have z: "csize c1 = csize c" using insert_loop_csize c1(1) unfolding cuckoo_insert_try_def by blast
  show ?case
  proof (cases "e = EAGAIN")
    case True
    then have lv: "list_ex (\<lambda>s. s_value s \<noteq> 0) (tab c1)" using insert_try_live c1(1) by blast
    have l: "length (tab c1) = unat (csize c1)" "csize c1 \<noteq> 0" using c1(2) by (simp_all add: table_typed_def)
    from grow_loop_type [OF l(1) lv l(2), of alloc MAX_GROWS, folded cuckoo_grow_def] show ?thesis
    proof (elim disjE exE conjE)
      fix g c2 assume g: "cuckoo_grow alloc c1 = Some (g, c2)" "g = 0" "table_typed c2" "csize c2 = 2 ^ 31 \<longrightarrow> alloc (2 ^ 35)"
      have "size_wraps alloc (csize c)" if "size_wraps alloc (csize c2)" using that g(4) by (auto simp: size_wraps_def)
      moreover have "insert_rounds alloc (Suc n) c src = insert_rounds alloc n c2 s1" using c1(1) True g(1,2) by simp
      ultimately show ?thesis using Suc.IH [OF g(3), of s1] by auto
    next
      fix g c2 assume g: "cuckoo_grow alloc c1 = Some (g, c2)" "g = EINVAL" "csize c2 = csize c1" "tab c2 = tab c1"
      then have c2: "c2 = c1" by simp
      have "table_typed c2" unfolding c2 by (rule c1(2))
      then show ?thesis using g(1,2) c1(1) True by (simp add: EINVAL_def)
    qed (use c1(1) True z in \<open>auto simp: ENOMEM_def\<close>)
  qed (use c1 in auto)
qed simp

text \<open>C34: A new table is well formed, and calls keep it so: looking up and removing any key, and inserting any key with any value, new or not and \<open>NULL\<close> or not,
  except when the insertion ends with \<open>ENOMEM\<close>. On a well-formed table every call returns and no access is outside the table, except that an insertion divides by zero
  when the size wraps, for which a table of 32 GiB and then one of 0 bytes have been allocated.\<close>

theorem cuckoo_well_formed:
  assumes "table_typed c"
  shows "(\<exists>r. cuckoo_get k c = Some r) \<and> (\<exists>r c'. cuckoo_remove k c = Some (r, c') \<and> table_typed c') \<and>
    ((\<exists>e c'. cuckoo_insert alloc k v c = Some (e, c') \<and> (e \<noteq> ENOMEM \<longrightarrow> table_typed c')) \<or> cuckoo_insert alloc k v c = None \<and> size_wraps alloc (csize c)) \<and>
    list_all table_typed (case cuckoo_new m alloc' of None \<Rightarrow> [] | Some c \<Rightarrow> [c])"
proof (intro conjI)
  obtain h g where h: "hash_mod c k = Some h" "h < length (tab c)" and g: "hash_mixer c k = Some g" "g < length (tab c)"
    using typed_hash [OF assms, of k] by blast
  define r where "r = (if s_key (tab c ! h) = k then Some h else if s_key (tab c ! g) = k then Some g else None)"
  have r: "cuckoo_find_slot c k = Some r" "case r of None \<Rightarrow> True | Some h \<Rightarrow> h < length (tab c)"
    using h g by (simp_all add: cuckoo_find_slot_def hash_funcs_def slot_at_def r_def)
  show "\<exists>r. cuckoo_get k c = Some r" using r(1) by (simp add: cuckoo_get_def)
  show "\<exists>r c'. cuckoo_remove k c = Some (r, c') \<and> table_typed c'"
  proof (cases r)
    case (Some h)
    have "placed c h null_slot" by (simp add: placed_def null_slot_def)
    from typed_update [OF assms _ this] show ?thesis using r Some by (simp add: cuckoo_remove_def)
  qed (use r assms in \<open>simp add: cuckoo_remove_def\<close>)
  show "(\<exists>e c'. cuckoo_insert alloc k v c = Some (e, c') \<and> (e \<noteq> ENOMEM \<longrightarrow> table_typed c')) \<or> cuckoo_insert alloc k v c = None \<and> size_wraps alloc (csize c)"
    unfolding cuckoo_insert_def by (rule insert_rounds_type [OF assms])
  show "list_all table_typed (case cuckoo_new m alloc' of None \<Rightarrow> [] | Some c \<Rightarrow> [c])"
    using new_ok [of alloc'] by (cases m) (auto simp: cuckoo_ok_def cuckoo_new_def table_ok_typed split: option.splits)
qed

theorem cuckoo_well_formed_witness:
  "let c = the (cuckoo_new True no_failure)
   in table_typed c \<and> (\<exists>c'. cuckoo_insert no_failure 49 0 c = Some (0, c') \<and> table_typed c')"
proof -
  define c where "c = the (cuckoo_new True no_failure)"
  have "cuckoo_new True no_failure = Some c" by (simp add: c_def cuckoo_new_def no_failure_def INITIAL_SIZE_def)
  then have c: "table_typed c" using new_ok table_ok_typed by (auto simp: cuckoo_ok_def)
  have "map_option fst (cuckoo_insert no_failure 49 0 (the (cuckoo_new True no_failure))) = Some 0" by code_simp
  then have "\<exists>c'. cuckoo_insert no_failure 49 0 c = Some (0, c')" by (auto simp: c_def)
  then show ?thesis using cuckoo_well_formed [OF c, of 49 no_failure 0] c unfolding Let_def c_def [symmetric] by (auto simp: ENOMEM_def)
qed

end
