(* ===== verification/Pvector.thy ===== *)
theory Pvector
  imports Critbit
begin

text \<open>
  The persistent vector of libpmemobj, \<open>src/nvml/src/libpmemobj/pvector.c\<close>, in which transactions keep their undo logs. The values are in arrays whose
  sizes double; an entry of \<open>arrays\<close> is the array that its offset points to, or \<open>None\<close> for the offset 0, and while the first entry is 0 the embedded array is
  \<open>embedded\<close>. A pointer to a value is the number of its array and the position in it. Whether \<open>Malloc\<close> and \<open>pmalloc_construct\<close> succeed is an argument.
  The outer \<open>None\<close> is an access through the offset 0 or outside an array.
\<close>

definition PVECTOR_INIT_SHIFT :: nat where "PVECTOR_INIT_SHIFT = 3"
definition PVECTOR_INIT_SIZE :: u64 where "PVECTOR_INIT_SIZE = push_bit PVECTOR_INIT_SHIFT 1"
definition PVECTOR_MAX_ARRAYS :: nat where "PVECTOR_MAX_ARRAYS = 20"

record pvector =
  arrays :: "u64 list option list"
  embedded :: "u64 list"

record pvector_context =
  vec :: pvector
  nvalues :: u64
  iter :: u64

type_synonym array_spec = "nat \<times> nat"

subsection \<open>Positions\<close>

definition find_highest_bit :: "u64 \<Rightarrow> nat" where
  "find_highest_bit v = 64 - clz v - 1"

definition pvector_get_array_spec :: "u64 \<Rightarrow> array_spec" where
  "pvector_get_array_spec idx =
     (let pos = idx + PVECTOR_INIT_SIZE; hbit = find_highest_bit pos
      in (unat (of_nat hbit - of_nat PVECTOR_INIT_SHIFT :: u64), unat (pos XOR push_bit hbit 1)))"

subsection \<open>Opening a vector\<close>

function arrays_loop :: "pvector \<Rightarrow> nat \<Rightarrow> u64 \<Rightarrow> nat \<times> u64" where
  "arrays_loop v n nv =
     (if n < PVECTOR_MAX_ARRAYS \<and> arrays v ! n \<noteq> None
      then arrays_loop v (n + 1)
             (if n \<noteq> PVECTOR_MAX_ARRAYS - 1 \<and> arrays v ! (n + 1) \<noteq> None then nv + push_bit (n + PVECTOR_INIT_SHIFT) 1 else nv)
      else (n, nv))"
  by pat_completeness auto
termination
  by (relation "measure (\<lambda>(v, n, nv). PVECTOR_MAX_ARRAYS - n)") auto

declare arrays_loop.simps [simp del]

definition pvector_init :: "bool \<Rightarrow> pvector \<Rightarrow> pvector_context option" where
  "pvector_init malloc v =
     (if \<not> malloc then None
      else let (narrays, nv) = arrays_loop v 0 0
           in if narrays = 0 then Some \<lparr>vec = v, nvalues = nv, iter = 0\<rparr>
              else let last_array = narrays - 1;
                       n = length (takeWhile (\<lambda>x. x \<noteq> 0) (take (2 ^ (last_array + PVECTOR_INIT_SHIFT)) (the (arrays v ! last_array))))
                   in if n = 0 \<and> last_array \<noteq> 0 then Some \<lparr>vec = v\<lparr>arrays := (arrays v)[last_array := None]\<rparr>, nvalues = nv, iter = 0\<rparr>
                      else Some \<lparr>vec = v, nvalues = nv + of_nat n, iter = 0\<rparr>)"

subsection \<open>Values\<close>

definition array_at :: "pvector \<Rightarrow> nat \<Rightarrow> u64 list option" where
  "array_at v i = (if i < length (arrays v) then arrays v ! i else None)"

definition read_value :: "pvector \<Rightarrow> array_spec \<Rightarrow> u64 option" where
  "read_value v s = Option.bind (array_at v (fst s)) (\<lambda>a. if snd s < length a then Some (a ! snd s) else None)"

definition write_value :: "array_spec \<Rightarrow> u64 \<Rightarrow> pvector \<Rightarrow> pvector option" where
  "write_value s x v = Option.bind (array_at v (fst s)) (\<lambda>a.
     if snd s < length a then Some (v\<lparr>arrays := (arrays v)[fst s := Some (a[snd s := x])]\<rparr>) else None)"

text \<open>\<open>pvector_push_back\<close> returns the place of the new value, or \<open>None\<close> for the pointer \<open>NULL\<close>.\<close>

definition pvector_push_back :: "bool \<Rightarrow> pvector_context \<Rightarrow> array_spec option \<times> pvector_context" where
  "pvector_push_back alloc ctx =
     (let s = pvector_get_array_spec (nvalues ctx); v = vec ctx
      in if fst s \<ge> PVECTOR_MAX_ARRAYS then (None, ctx)
         else if arrays v ! fst s \<noteq> None then (Some s, ctx\<lparr>nvalues := nvalues ctx + 1\<rparr>)
         else if fst s = 0 then (Some s, ctx\<lparr>vec := v\<lparr>arrays := (arrays v)[0 := Some (embedded v)]\<rparr>, nvalues := nvalues ctx + 1\<rparr>)
         else if \<not> alloc then (None, ctx)
         else (Some s, ctx\<lparr>vec := v\<lparr>arrays := (arrays v)[fst s := Some (replicate (2 ^ (fst s + PVECTOR_INIT_SHIFT)) 0)]\<rparr>, nvalues := nvalues ctx + 1\<rparr>))"

text \<open>The callback changes the entry; NULL changes nothing. The state in between is \<open>pop_entry\<close>.\<close>

definition pop_entry :: "(u64 \<Rightarrow> u64) option \<Rightarrow> pvector_context \<Rightarrow> (u64 \<times> pvector) option" where
  "pop_entry cb ctx =
     (let s = pvector_get_array_spec (nvalues ctx - 1)
      in Option.bind (read_value (vec ctx) s) (\<lambda>ret.
           case cb of None \<Rightarrow> Some (ret, vec ctx) | Some f \<Rightarrow> map_option (Pair ret) (write_value s (f ret) (vec ctx))))"

definition pvector_pop_back :: "(u64 \<Rightarrow> u64) option \<Rightarrow> pvector_context \<Rightarrow> (u64 \<times> pvector_context) option" where
  "pvector_pop_back cb ctx =
     (if nvalues ctx = 0 then Some (0, ctx)
      else let s = pvector_get_array_spec (nvalues ctx - 1)
           in map_option (\<lambda>(ret, v).
                (ret, ctx\<lparr>vec := if snd s = 0 \<and> fst s \<noteq> 0 then v\<lparr>arrays := (arrays v)[fst s := None]\<rparr> else v, nvalues := nvalues ctx - 1\<rparr>))
                (pop_entry cb ctx))"

definition pvector_nvalues :: "pvector_context \<Rightarrow> u64" where
  "pvector_nvalues = nvalues"

definition pvector_get :: "pvector \<Rightarrow> u64 \<Rightarrow> u64 option" where
  "pvector_get v idx = read_value v (pvector_get_array_spec idx)"

definition pvector_first :: "pvector_context \<Rightarrow> (u64 \<times> pvector_context) option" where
  "pvector_first ctx =
     (if nvalues ctx = 0 then Some (0, ctx) else map_option (\<lambda>x. (x, ctx\<lparr>iter := 0\<rparr>)) (pvector_get (vec ctx) 0))"

definition pvector_last :: "pvector_context \<Rightarrow> (u64 \<times> pvector_context) option" where
  "pvector_last ctx =
     (if nvalues ctx = 0 then Some (0, ctx)
      else map_option (\<lambda>x. (x, ctx\<lparr>iter := nvalues ctx - 1\<rparr>)) (pvector_get (vec ctx) (nvalues ctx - 1)))"

definition pvector_prev :: "pvector_context \<Rightarrow> (u64 \<times> pvector_context) option" where
  "pvector_prev ctx =
     (if iter ctx = 0 then Some (0, ctx) else map_option (\<lambda>x. (x, ctx\<lparr>iter := iter ctx - 1\<rparr>)) (pvector_get (vec ctx) (iter ctx - 1)))"

definition pvector_next :: "pvector_context \<Rightarrow> (u64 \<times> pvector_context) option" where
  "pvector_next ctx =
     (if iter ctx = nvalues ctx - 1 then Some (0, ctx) else map_option (\<lambda>x. (x, ctx\<lparr>iter := iter ctx + 1\<rparr>)) (pvector_get (vec ctx) (iter ctx + 1)))"

subsection \<open>Positions are exact\<close>

text \<open>The number of values in the arrays before array \<open>i\<close>.\<close>

definition astart :: "nat \<Rightarrow> nat" where
  "astart i = 8 * 2 ^ i - 8"

lemma astart_simps [simp]: "astart 0 = 0" "astart (Suc i) = astart i + 8 * 2 ^ i" "astart i + 8 = 8 * 2 ^ i"
proof -
  have "(1 :: nat) \<le> 2 ^ i" by simp
  then show "astart (Suc i) = astart i + 8 * 2 ^ i" "astart i + 8 = 8 * 2 ^ i" unfolding astart_def by simp_all
qed (simp add: astart_def)

lemma astart_mono: "i \<le> j \<Longrightarrow> astart i \<le> astart j"
  by (induction rule: dec_induct) auto

lemma astart_unique:
  assumes "astart i \<le> n" "n < astart (Suc i)" "astart j \<le> n" "n < astart (Suc j)"
  shows "i = j"
  using astart_mono [of "Suc i" j] astart_mono [of "Suc j" i] assms by (metis le_trans linorder_not_le not_less_eq_eq nle_le)

lemma highest_bit:
  assumes "v \<noteq> 0"
  shows "find_highest_bit v < 64" "2 ^ find_highest_bit v \<le> unat v" "unat v < 2 ^ Suc (find_highest_bit v)"
    "unat (v XOR push_bit (find_highest_bit v) 1) = unat v - 2 ^ find_highest_bit v"
proof -
  define h where "h = find_highest_bit v"
  have f: "find_crit_bit 0 v = h" by (simp add: find_crit_bit_def h_def find_highest_bit_def)
  note c = find_crit_bit [of 0 v, unfolded f]
  have h: "h < 64" "bit v h" "\<And>i. h < i \<Longrightarrow> \<not> bit v i" using c assms by (auto simp: agree_above_def)
  show "find_highest_bit v < 64" using h(1) by (simp add: h_def)
  have t: "take_bit (Suc h) v = v"
  proof (rule bit_eqI)
    fix i show "bit (take_bit (Suc h) v) i \<longleftrightarrow> bit v i" using h(3) [of i] by (cases "h < i") (auto simp: bit_take_bit_iff)
  qed
  have "unat (take_bit (Suc h) v) < 2 ^ Suc h" unfolding unsigned_take_bit_eq by (rule take_bit_nat_less_exp)
  then show lt: "unat v < 2 ^ Suc (find_highest_bit v)" unfolding t by (simp add: h_def)
  have s: "v XOR push_bit h 1 = take_bit h v"
  proof (rule bit_eqI)
    fix i show "bit (v XOR push_bit h 1) i \<longleftrightarrow> bit (take_bit h v) i"
      using h by (cases i h rule: linorder_cases) (auto simp: bit_xor_iff bit_exp_iff bit_take_bit_iff)
  qed
  have "odd (unat v div 2 ^ h)" using h(2) by (simp add: bit_iff_odd [symmetric] bit_unsigned_iff)
  moreover have "unat v div 2 ^ h < 2" using lt by (simp add: h_def less_mult_imp_div_less)
  ultimately have "unat v div 2 ^ h = 1" by (cases "unat v div 2 ^ h") auto
  then have n: "unat v = 2 ^ h + unat v mod 2 ^ h" using div_mult_mod_eq [of "unat v" "2 ^ h"] by simp
  then show "2 ^ find_highest_bit v \<le> unat v" unfolding h_def by (metis le_add1)
  have "unat (v XOR push_bit h 1) = unat v mod 2 ^ h" unfolding s unsigned_take_bit_eq by (rule take_bit_eq_mod)
  then show "unat (v XOR push_bit (find_highest_bit v) 1) = unat v - 2 ^ find_highest_bit v"
    using n unfolding h_def by (metis add_diff_cancel_left')
qed

lemma array_spec_exact:
  assumes "n < 2 ^ 60"
  shows "\<exists>i p. pvector_get_array_spec (of_nat n) = (i, p) \<and> n = astart i + p \<and> p < 8 * 2 ^ i"
proof -
  define v :: u64 where "v = of_nat n + PVECTOR_INIT_SIZE"
  define h where "h = find_highest_bit v"
  have v: "unat v = n + 8" using assms by (simp add: v_def PVECTOR_INIT_SIZE_def PVECTOR_INIT_SHIFT_def unat_word_ariths unat_of_nat)
  then have "v \<noteq> 0" by auto
  note b = highest_bit [OF this, folded h_def, unfolded v]
  have "(2 :: nat) ^ 3 < 2 ^ Suc h" using b(3) by simp
  then have "3 < Suc h" by (rule power_less_imp_less_exp [rotated]) simp
  then obtain i where i: "h = i + 3" by (metis less_Suc_eq_le add.commute le_Suc_ex)
  have "unat (of_nat h - of_nat PVECTOR_INIT_SHIFT :: u64) = i" using b(1) by (simp add: i PVECTOR_INIT_SHIFT_def unat_of_nat)
  then have spec: "pvector_get_array_spec (of_nat n) = (i, n + 8 - 2 ^ h)"
    using b(4) by (simp add: pvector_get_array_spec_def v_def [symmetric] h_def [symmetric] Let_def)
  have a: "2 ^ h = astart i + 8" by (simp add: i power_add)
  have "n + 8 - 2 ^ h = n - astart i" "astart i \<le> n" "n < astart i + 8 * 2 ^ i"
    using b(2,3) a astart_simps(3) [of i] unfolding power_Suc by linarith+
  then show ?thesis using spec by (intro exI [of _ i] exI [of _ "n - astart i"]) auto
qed

end
