(* ===== verification/Pvector_Props.thy ===== *)
theory Pvector_Props
  imports Pvector
begin

text \<open>
  The persistent vector is a list of non-zero values, and opening it again after a power failure finds the list. The arrays in use are the first \<open>k\<close>; a
  call that is interrupted leaves at most one array without values behind.
\<close>

definition cell :: "u64 list \<Rightarrow> nat \<Rightarrow> u64" where
  "cell vs j = (if j < length vs then vs ! j else 0)"

definition array_of :: "u64 list \<Rightarrow> nat \<Rightarrow> u64 list" where
  "array_of vs i = map (\<lambda>p. cell vs (astart i + p)) [0 ..< 8 * 2 ^ i]"

definition vec_rep :: "nat \<Rightarrow> pvector \<Rightarrow> u64 list \<Rightarrow> bool" where
  "vec_rep k v vs \<longleftrightarrow> k \<le> PVECTOR_MAX_ARRAYS \<and> list_all (\<lambda>x. x \<noteq> 0) vs \<and> length vs \<le> astart k \<and>
     arrays v = map (\<lambda>i. if i < k then Some (array_of vs i) else None) [0 ..< PVECTOR_MAX_ARRAYS] \<and> (k = 0 \<longrightarrow> embedded v = replicate 8 0)"

text \<open>No array without values, except the embedded one; and after an interruption, at most the last.\<close>

definition tight :: "nat \<Rightarrow> u64 list \<Rightarrow> bool" where
  "tight k vs \<longleftrightarrow> k \<le> 1 \<or> astart (k - 1) < length vs"

definition interrupted :: "nat \<Rightarrow> u64 list \<Rightarrow> bool" where
  "interrupted k vs \<longleftrightarrow> k \<le> 1 \<or> astart (k - 1) \<le> length vs"

definition stores :: "pvector_context \<Rightarrow> u64 list \<Rightarrow> bool" where
  "stores ctx vs \<longleftrightarrow> nvalues ctx = of_nat (length vs) \<and> (\<exists>k. vec_rep k (vec ctx) vs \<and> tight k vs)"

lemma tight_interrupted: "tight k vs \<Longrightarrow> interrupted k vs"
  by (auto simp: tight_def interrupted_def)

lemma array_of_simps [simp]: "length (array_of vs i) = 8 * 2 ^ i" "p < 8 * 2 ^ i \<Longrightarrow> array_of vs i ! p = cell vs (astart i + p)"
  by (simp_all add: array_of_def)

lemma rep_array: "vec_rep k v vs \<Longrightarrow> i < PVECTOR_MAX_ARRAYS \<Longrightarrow> arrays v ! i = (if i < k then Some (array_of vs i) else None)"
  by (simp add: vec_rep_def)

lemma rep_length: "vec_rep k v vs \<Longrightarrow> length (arrays v) = PVECTOR_MAX_ARRAYS"
  by (simp add: vec_rep_def)

lemma astart_small: "k \<le> PVECTOR_MAX_ARRAYS \<Longrightarrow> astart k < 2 ^ 60"
  using astart_mono [of k PVECTOR_MAX_ARRAYS] by (simp add: PVECTOR_MAX_ARRAYS_def astart_def)

lemma rep_length_small: "vec_rep k v vs \<Longrightarrow> length vs < 2 ^ 60"
  using astart_small [of k] by (auto simp: vec_rep_def)

lemma unat_length: "vec_rep k v vs \<Longrightarrow> unat (of_nat (length vs) :: u64) = length vs"
  using rep_length_small [of k v vs] by (simp add: unat_of_nat)

subsection \<open>Opening\<close>

lemma arrays_loop_stop: "\<not> (n < PVECTOR_MAX_ARRAYS \<and> arrays v ! n \<noteq> None) \<Longrightarrow> arrays_loop v n nv = (n, nv)"
  by (subst arrays_loop.simps) (rule if_not_P)

lemma arrays_loop_step: "n < PVECTOR_MAX_ARRAYS \<and> arrays v ! n \<noteq> None \<Longrightarrow> arrays_loop v n nv = arrays_loop v (n + 1)
    (if n \<noteq> PVECTOR_MAX_ARRAYS - 1 \<and> arrays v ! (n + 1) \<noteq> None then nv + push_bit (n + PVECTOR_INIT_SHIFT) 1 else nv)"
  by (subst arrays_loop.simps) (rule if_P)

lemma arrays_loop_rep:
  assumes "vec_rep k v vs" "n \<le> k" "nv = of_nat (astart (min n (k - 1)))"
  shows "arrays_loop v n nv = (k, of_nat (astart (k - 1)))"
  using assms(2,3)
proof (induction "k - n" arbitrary: n nv)
  case 0
  have "\<not> (k < PVECTOR_MAX_ARRAYS \<and> arrays v ! k \<noteq> None)" using rep_array [OF assms(1), of k] by auto
  from arrays_loop_stop [OF this] show ?case using 0 by simp
next
  case (Suc d)
  then have nk: "n < k" "k \<le> PVECTOR_MAX_ARRAYS" using assms(1) by (auto simp: vec_rep_def)
  have a: "arrays v ! n \<noteq> None" using rep_array [OF assms(1), of n] nk by simp
  define nv' where "nv' = (if n \<noteq> PVECTOR_MAX_ARRAYS - 1 \<and> arrays v ! (n + 1) \<noteq> None then nv + push_bit (n + PVECTOR_INIT_SHIFT) 1 else nv)"
  have c: "(n \<noteq> PVECTOR_MAX_ARRAYS - 1 \<and> arrays v ! (n + 1) \<noteq> None) = (n + 1 < k)"
    using rep_array [OF assms(1), of "n + 1"] nk by (cases "n + 1 < PVECTOR_MAX_ARRAYS") auto
  have "nv' = of_nat (astart (min (n + 1) (k - 1)))"
  proof (cases "n + 1 < k")
    case True
    then have "min n (k - 1) = n" "min (n + 1) (k - 1) = Suc n" by simp_all
    then show ?thesis using True Suc.prems(2) unfolding nv'_def c by (simp add: PVECTOR_INIT_SHIFT_def push_bit_eq_mult power_add)
  next
    case False
    then have "min n (k - 1) = k - 1" "min (n + 1) (k - 1) = k - 1" using nk by simp_all
    then show ?thesis using False Suc.prems(2) unfolding nv'_def c by simp
  qed
  from Suc.hyps(1) [OF _ _ this] Suc.hyps(2) nk have "arrays_loop v (n + 1) nv' = (k, of_nat (astart (k - 1)))" by simp
  then show ?case using a nk unfolding nv'_def by (subst arrays_loop_step) simp_all
qed

lemma count_values:
  assumes "list_all (\<lambda>x. x \<noteq> 0) vs" "astart i \<le> length vs" "length vs \<le> astart (Suc i)"
  shows "length (takeWhile (\<lambda>x. x \<noteq> 0) (array_of vs i)) = length vs - astart i"
proof -
  let ?d = "length vs - astart i"
  have d: "?d \<le> 8 * 2 ^ i" using assms(3) by simp
  have nz: "array_of vs i ! p \<noteq> 0" if "p < ?d" for p
    using that d assms(1) by (auto simp: cell_def list_all_length)
  have "array_of vs i ! ?d = 0" if "?d < length (array_of vs i)" using that assms(2) by (simp add: cell_def)
  then have "takeWhile (\<lambda>x. x \<noteq> 0) (array_of vs i) = take ?d (array_of vs i)" using nz
    by (intro takeWhile_eq_take_P_nth) (blast, blast)
  then show ?thesis using d by simp
qed

lemma rep_update:
  assumes "vec_rep k v vs"
  shows "(arrays v)[i := a] = map (\<lambda>j. if j = i then a else if j < k then Some (array_of vs j) else None) [0 ..< PVECTOR_MAX_ARRAYS]"
  using rep_length [OF assms] rep_array [OF assms] by (intro nth_equalityI) (simp_all add: nth_list_update)

lemma rep_drop:
  assumes "vec_rep (Suc k) v vs" "length vs \<le> astart k" "k \<noteq> 0"
  shows "vec_rep k (v\<lparr>arrays := (arrays v)[k := None]\<rparr>) vs"
proof -
  have "(arrays v)[k := None] = map (\<lambda>i. if i < k then Some (array_of vs i) else None) [0 ..< PVECTOR_MAX_ARRAYS]"
    unfolding rep_update [OF assms(1)] by (intro map_cong) auto
  then show ?thesis using assms by (simp add: vec_rep_def)
qed

lemma pvector_init_rep:
  assumes "vec_rep k v vs" "interrupted k vs"
  shows "\<exists>ctx. pvector_init True v = Some ctx \<and> stores ctx vs \<and> iter ctx = 0"
proof -
  have loop: "arrays_loop v 0 0 = (k, of_nat (astart (k - 1)))" using arrays_loop_rep [OF assms(1), of 0 0] by simp
  show ?thesis
  proof (cases k)
    case 0
    then have "length vs = 0" using assms(1) by (simp add: vec_rep_def)
    then show ?thesis using loop 0 assms(1) by (auto simp: pvector_init_def stores_def tight_def)
  next
    case (Suc i)
    have r: "list_all (\<lambda>x. x \<noteq> 0) vs" "length vs \<le> astart (Suc i)" "i < PVECTOR_MAX_ARRAYS" using assms(1) Suc by (auto simp: vec_rep_def)
    have s: "astart i \<le> length vs" using assms(2) Suc by (cases i) (auto simp: interrupted_def)
    have a: "take (2 ^ (i + PVECTOR_INIT_SHIFT)) (the (arrays v ! i)) = array_of vs i"
      using rep_array [OF assms(1) r(3)] Suc by (simp add: PVECTOR_INIT_SHIFT_def power_add)
    note n = count_values [OF r(1) s r(2)]
    show ?thesis
    proof (cases "length vs = astart i \<and> i \<noteq> 0")
      case True
      then obtain j where j: "i = Suc j" by (cases i) auto
      have "vec_rep i (v\<lparr>arrays := (arrays v)[i := None]\<rparr>) vs" using rep_drop assms(1) True Suc by simp
      moreover have "tight i vs" using True by (simp add: tight_def j)
      ultimately show ?thesis using loop Suc True n a by (auto simp: pvector_init_def stores_def)
    next
      case False
      then have "tight k vs" using s Suc by (auto simp: tight_def)
      moreover have "pvector_init True v = Some \<lparr>vec = v, nvalues = of_nat (astart i) + of_nat (length vs - astart i), iter = 0\<rparr>"
        using loop Suc False n a s by (auto simp: pvector_init_def)
      ultimately show ?thesis using assms(1) s by (auto simp: stores_def simp flip: of_nat_add)
    qed
  qed
qed

subsection \<open>Adding and removing values\<close>

lemma array_of_append:
  assumes "length vs = astart i + p" "p < 8 * 2 ^ i"
  shows "array_of (vs @ [x]) i = (array_of vs i)[p := x]" "j \<noteq> i \<Longrightarrow> array_of (vs @ [x]) j = array_of vs j"
proof -
  have c: "cell (vs @ [x]) n = (if n = length vs then x else cell vs n)" for n by (auto simp: cell_def nth_append)
  show "array_of (vs @ [x]) i = (array_of vs i)[p := x]" using assms by (intro nth_equalityI) (auto simp: c nth_list_update)
  assume "j \<noteq> i"
  then have "astart j + q \<noteq> length vs" if "q < 8 * 2 ^ j" for q
    using astart_unique [of i "length vs" j] assms that by auto
  then show "array_of (vs @ [x]) j = array_of vs j" by (intro nth_equalityI) (auto simp: c)
qed

lemma array_of_zero: "length vs \<le> astart i \<Longrightarrow> array_of vs i = replicate (8 * 2 ^ i) 0"
  by (intro nth_equalityI) (auto simp: cell_def)

text \<open>The place of the next value: in the last array in use, or at the start of a new one.\<close>

lemma next_place:
  assumes "vec_rep k v vs" "tight k vs" "pvector_get_array_spec (of_nat (length vs)) = (i, p)"
  shows "length vs = astart i + p" "p < 8 * 2 ^ i" "i < k \<and> Suc i = k \<or> i = k \<and> p = 0"
proof -
  obtain i' p' where "pvector_get_array_spec (of_nat (length vs)) = (i', p')" "length vs = astart i' + p'" "p' < 8 * 2 ^ i'"
    using array_spec_exact [OF rep_length_small [OF assms(1)]] by blast
  then show ip: "length vs = astart i + p" "p < 8 * 2 ^ i" using assms(3) by simp_all
  have le: "length vs \<le> astart k" using assms(1) by (simp add: vec_rep_def)
  show "i < k \<and> Suc i = k \<or> i = k \<and> p = 0"
  proof (cases "length vs = astart k")
    case True
    have "i = k" by (rule astart_unique [of _ "length vs"]) (use ip True in auto)
    then show ?thesis using ip(1) True by simp
  next
    case False
    then obtain j where j: "k = Suc j" using le by (cases k) auto
    have "astart j \<le> length vs" using assms(2) j by (cases j) (auto simp: tight_def)
    then have "i = j" using astart_unique [of i "length vs" j] ip False le j by auto
    then show ?thesis using j by simp
  qed
qed

lemma rep_add:
  assumes "vec_rep k v vs" "length vs = astart k" "k < PVECTOR_MAX_ARRAYS"
  shows "vec_rep (Suc k) (v\<lparr>arrays := (arrays v)[k := Some (replicate (8 * 2 ^ k) 0)]\<rparr>) vs"
proof -
  have z: "array_of vs k = replicate (8 * 2 ^ k) 0" using array_of_zero assms(2) by simp
  have "(arrays v)[k := Some (replicate (8 * 2 ^ k) 0)] = map (\<lambda>i. if i < Suc k then Some (array_of vs i) else None) [0 ..< PVECTOR_MAX_ARRAYS]"
    unfolding rep_update [OF assms(1)] using z by (intro map_cong) auto
  then show ?thesis using assms by (simp add: vec_rep_def)
qed

lemma push_back_rep:
  assumes "stores ctx vs" "pvector_get_array_spec (of_nat (length vs)) = (i, p)"
  shows "length vs = astart i + p" "p < 8 * 2 ^ i"
    "i \<ge> PVECTOR_MAX_ARRAYS \<Longrightarrow> pvector_push_back alloc ctx = (None, ctx)"
    "i < PVECTOR_MAX_ARRAYS \<Longrightarrow> \<not> alloc \<and> pvector_push_back alloc ctx = (None, ctx) \<or>
      (\<exists>ctx'. pvector_push_back alloc ctx = (Some (i, p), ctx') \<and> vec_rep (Suc i) (vec ctx') vs \<and> interrupted (Suc i) vs \<and>
        nvalues ctx' = of_nat (length vs) + 1)"
proof -
  obtain k where k: "vec_rep k (vec ctx) vs" "tight k vs" and n: "nvalues ctx = of_nat (length vs)" using assms(1) by (auto simp: stores_def)
  note np = next_place [OF k assms(2)]
  show "length vs = astart i + p" "p < 8 * 2 ^ i" by (rule np)+
  show "pvector_push_back alloc ctx = (None, ctx)" if "i \<ge> PVECTOR_MAX_ARRAYS"
    using that by (simp add: pvector_push_back_def Let_def n assms(2))
  assume i: "i < PVECTOR_MAX_ARRAYS"
  have int: "interrupted (Suc i) vs" using np(1) by (simp add: interrupted_def)
  show "\<not> alloc \<and> pvector_push_back alloc ctx = (None, ctx) \<or> (\<exists>ctx'. pvector_push_back alloc ctx = (Some (i, p), ctx') \<and>
      vec_rep (Suc i) (vec ctx') vs \<and> interrupted (Suc i) vs \<and> nvalues ctx' = of_nat (length vs) + 1)"
  proof (cases "i < k")
    case True
    then have "Suc i = k" using np(3) by simp
    then show ?thesis using i k(1) int rep_array [OF k(1) i] by (simp add: pvector_push_back_def Let_def n assms(2))
  next
    case False
    then have ik: "i = k" "length vs = astart k" using np by auto
    have a: "arrays (vec ctx) ! i = None" using rep_array [OF k(1) i] ik by simp
    have r: "vec_rep (Suc i) ((vec ctx)\<lparr>arrays := (arrays (vec ctx))[i := Some (replicate (8 * 2 ^ i) 0)]\<rparr>) vs"
      using rep_add [OF k(1) ik(2)] i ik by simp
    show ?thesis
    proof (cases "i = 0")
      case True
      then have "embedded (vec ctx) = replicate (8 * 2 ^ i) 0" using k(1) ik by (simp add: vec_rep_def)
      then show ?thesis using r int a True i by (simp add: pvector_push_back_def Let_def n assms(2))
    next
      case False
      then show ?thesis using r int a i by (simp add: pvector_push_back_def Let_def n assms(2) PVECTOR_INIT_SHIFT_def power_add mult.commute)
    qed
  qed
qed

lemma write_rep:
  assumes "vec_rep (Suc i) v vs" "length vs = astart i + p" "p < 8 * 2 ^ i"
  shows "write_value (i, p) x v = Some (v\<lparr>arrays := (arrays v)[i := Some ((array_of vs i)[p := x])]\<rparr>)"
    "x \<noteq> 0 \<Longrightarrow> vec_rep (Suc i) (v\<lparr>arrays := (arrays v)[i := Some ((array_of vs i)[p := x])]\<rparr>) (vs @ [x]) \<and> tight (Suc i) (vs @ [x])"
proof -
  have i: "i < PVECTOR_MAX_ARRAYS" "length (arrays v) = PVECTOR_MAX_ARRAYS" using assms(1) by (auto simp: vec_rep_def)
  show "write_value (i, p) x v = Some (v\<lparr>arrays := (arrays v)[i := Some ((array_of vs i)[p := x])]\<rparr>)"
    using i rep_array [OF assms(1) i(1)] assms(3) by (simp add: write_value_def array_at_def)
  assume x: "x \<noteq> 0"
  have "(arrays v)[i := Some ((array_of vs i)[p := x])] = map (\<lambda>j. if j < Suc i then Some (array_of (vs @ [x]) j) else None) [0 ..< PVECTOR_MAX_ARRAYS]"
    unfolding rep_update [OF assms(1)] using array_of_append [OF assms(2,3)] by (intro map_cong) auto
  then show "vec_rep (Suc i) (v\<lparr>arrays := (arrays v)[i := Some ((array_of vs i)[p := x])]\<rparr>) (vs @ [x]) \<and> tight (Suc i) (vs @ [x])"
    using assms x by (auto simp: vec_rep_def tight_def)
qed

text \<open>The value at the end is overwritten with zero.\<close>

lemma clear_rep:
  assumes "vec_rep (Suc i) v (vs @ [x])" "length vs = astart i + p" "p < 8 * 2 ^ i"
  shows "read_value v (i, p) = Some x"
    "\<exists>v'. write_value (i, p) 0 v = Some v' \<and> vec_rep (Suc i) v' vs \<and> interrupted (Suc i) vs"
proof -
  have i: "i < PVECTOR_MAX_ARRAYS" "length (arrays v) = PVECTOR_MAX_ARRAYS" using assms(1) by (auto simp: vec_rep_def)
  have a: "arrays v ! i = Some ((array_of vs i)[p := x])" using rep_array [OF assms(1) i(1)] array_of_append(1) [OF assms(2,3)] by simp
  show "read_value v (i, p) = Some x" using i a assms(3) by (simp add: read_value_def array_at_def)
  have "array_of vs i ! p = 0" using assms(2,3) by (simp add: cell_def)
  then have z: "(array_of vs i)[p := 0] = array_of vs i" by (metis list_update_id)
  define v' where "v' = v\<lparr>arrays := (arrays v)[i := Some (array_of vs i)]\<rparr>"
  have "write_value (i, p) 0 v = Some v'" using i a assms(3) z by (simp add: write_value_def array_at_def v'_def)
  moreover have "(arrays v)[i := Some (array_of vs i)] = map (\<lambda>j. if j < Suc i then Some (array_of vs j) else None) [0 ..< PVECTOR_MAX_ARRAYS]"
    unfolding rep_update [OF assms(1)] using array_of_append [OF assms(2,3)] by (intro map_cong) auto
  then have "vec_rep (Suc i) v' vs" using assms by (simp add: vec_rep_def v'_def)
  ultimately show "\<exists>v'. write_value (i, p) 0 v = Some v' \<and> vec_rep (Suc i) v' vs \<and> interrupted (Suc i) vs"
    using assms(2) by (simp add: interrupted_def)
qed

subsection \<open>The vector is a list\<close>

text \<open>What a caller does: it asks for a place and writes the value.\<close>

definition push_value :: "bool \<Rightarrow> u64 \<Rightarrow> pvector_context \<Rightarrow> (bool \<times> pvector_context) option" where
  "push_value alloc x ctx =
     (case pvector_push_back alloc ctx of
        (None, ctx) \<Rightarrow> Some (False, ctx)
      | (Some s, ctx) \<Rightarrow> map_option (\<lambda>v. (True, ctx\<lparr>vec := v\<rparr>)) (write_value s x (vec ctx)))"

lemma push_value_list:
  assumes "stores ctx vs" "x \<noteq> 0"
  shows "\<exists>ok ctx'. push_value alloc x ctx = Some (ok, ctx') \<and> stores ctx' (if ok then vs @ [x] else vs) \<and>
    (alloc \<longrightarrow> ok = (length vs < astart PVECTOR_MAX_ARRAYS))"
proof -
  obtain i p where ip: "pvector_get_array_spec (of_nat (length vs)) = (i, p)" by fastforce
  note pb = push_back_rep [OF assms(1) ip]
  have lim: "length vs < astart PVECTOR_MAX_ARRAYS \<longleftrightarrow> i < PVECTOR_MAX_ARRAYS"
    using astart_mono [of "Suc i" PVECTOR_MAX_ARRAYS] astart_mono [of PVECTOR_MAX_ARRAYS i] pb(1,2) by (cases "i < PVECTOR_MAX_ARRAYS") auto
  consider "i \<ge> PVECTOR_MAX_ARRAYS" | "i < PVECTOR_MAX_ARRAYS" "\<not> alloc" "pvector_push_back alloc ctx = (None, ctx)"
    | ctx1 where "i < PVECTOR_MAX_ARRAYS" "pvector_push_back alloc ctx = (Some (i, p), ctx1)" "vec_rep (Suc i) (vec ctx1) vs" "nvalues ctx1 = of_nat (length vs) + 1"
    using pb(4) [of alloc] by (meson not_le)
  then show ?thesis
  proof cases
    case 3
    note w = write_rep [OF 3(3) pb(1,2)]
    show ?thesis using 3 w(1) [of x] w(2) [of x] assms(2) lim by (auto simp: push_value_def stores_def)
  qed (use pb(3) [of alloc] assms(1) lim in \<open>auto simp: push_value_def\<close>)
qed

text \<open>The last value and its place.\<close>

lemma last_place:
  assumes "stores ctx (vs @ [x])"
  shows "\<exists>i p. pvector_get_array_spec (nvalues ctx - 1) = (i, p) \<and> length vs = astart i + p \<and> p < 8 * 2 ^ i \<and> vec_rep (Suc i) (vec ctx) (vs @ [x]) \<and>
    nvalues ctx - 1 = of_nat (length vs) \<and> nvalues ctx \<noteq> 0"
proof -
  obtain k where k: "vec_rep k (vec ctx) (vs @ [x])" "tight k (vs @ [x])" and n: "nvalues ctx = of_nat (length (vs @ [x]))" using assms by (auto simp: stores_def)
  have m: "nvalues ctx - 1 = of_nat (length vs)" using n by simp
  have nz: "nvalues ctx \<noteq> 0"
  proof
    assume "nvalues ctx = 0"
    then show False using unat_length [OF k(1)] n by simp
  qed
  have "length vs < 2 ^ 60" using rep_length_small [OF k(1)] by simp
  from array_spec_exact [OF this] obtain i p where ip: "pvector_get_array_spec (of_nat (length vs)) = (i, p)" "length vs = astart i + p" "p < 8 * 2 ^ i" by blast
  have le: "Suc (length vs) \<le> astart k" using k(1) by (simp add: vec_rep_def)
  then obtain j where j: "k = Suc j" by (cases k) auto
  have "astart j \<le> length vs" using k(2) j by (cases j) (auto simp: tight_def)
  then have "i = j" using astart_unique [of i "length vs" j] ip le j by auto
  then show ?thesis using ip k(1) j m nz by auto
qed

lemma pop_entry_list:
  assumes "stores ctx (vs @ [x])"
  shows "\<exists>i v'. pop_entry (Some (\<lambda>_. 0)) ctx = Some (x, v') \<and> vec_rep (Suc i) v' vs \<and> interrupted (Suc i) vs \<and>
    fst (pvector_get_array_spec (nvalues ctx - 1)) = i \<and> (snd (pvector_get_array_spec (nvalues ctx - 1)) = 0 \<longleftrightarrow> length vs = astart i)"
proof -
  obtain i p where ip: "pvector_get_array_spec (nvalues ctx - 1) = (i, p)" "length vs = astart i + p" "p < 8 * 2 ^ i" "vec_rep (Suc i) (vec ctx) (vs @ [x])"
    using last_place [OF assms] by blast
  show ?thesis using clear_rep [OF ip(4,2,3)] ip(1,2) by (auto simp: pop_entry_def)
qed

lemma pop_back_list:
  assumes "stores ctx vs"
  shows "\<exists>ctx'. pvector_pop_back (Some (\<lambda>_. 0)) ctx = Some (if vs = [] then 0 else last vs, ctx') \<and> stores ctx' (butlast vs)"
proof (cases vs rule: rev_cases)
  case Nil
  then show ?thesis using assms by (simp add: pvector_pop_back_def stores_def)
next
  case (snoc ws x)
  obtain i v' where e: "pop_entry (Some (\<lambda>_. 0)) ctx = Some (x, v')" "vec_rep (Suc i) v' ws" "interrupted (Suc i) ws"
    "fst (pvector_get_array_spec (nvalues ctx - 1)) = i" "snd (pvector_get_array_spec (nvalues ctx - 1)) = 0 \<longleftrightarrow> length ws = astart i"
    using pop_entry_list assms snoc by blast
  have n: "nvalues ctx - 1 = of_nat (length ws)" "nvalues ctx \<noteq> 0" using last_place assms snoc by blast+
  define v'' where "v'' = (if length ws = astart i \<and> i \<noteq> 0 then v'\<lparr>arrays := (arrays v')[i := None]\<rparr> else v')"
  have "\<exists>k. vec_rep k v'' ws \<and> tight k ws"
  proof (cases "length ws = astart i \<and> i \<noteq> 0")
    case True
    then obtain j where j: "i = Suc j" by (cases i) auto
    have "vec_rep i v'' ws" using rep_drop [OF e(2)] True by (simp add: v''_def)
    moreover have "tight i ws" using True by (simp add: tight_def j)
    ultimately show ?thesis by blast
  next
    case False
    then have "tight (Suc i) ws" using e(3) by (auto simp: tight_def interrupted_def)
    then show ?thesis using e(2) False by (auto simp: v''_def)
  qed
  moreover have "pvector_pop_back (Some (\<lambda>_. 0)) ctx = Some (x, ctx\<lparr>vec := v'', nvalues := nvalues ctx - 1\<rparr>)"
    using e n(2) by (simp add: pvector_pop_back_def v''_def Let_def)
  ultimately show ?thesis using snoc n(1) by (auto simp: stores_def)
qed

lemma get_list:
  assumes "stores ctx vs" "n < length vs"
  shows "pvector_get (vec ctx) (of_nat n) = Some (vs ! n)"
proof -
  obtain k where k: "vec_rep k (vec ctx) vs" using assms(1) by (auto simp: stores_def)
  have "n < 2 ^ 60" using rep_length_small [OF k] assms(2) by simp
  from array_spec_exact [OF this] obtain i p where ip: "pvector_get_array_spec (of_nat n) = (i, p)" "n = astart i + p" "p < 8 * 2 ^ i" by blast
  have "i < k"
  proof (rule ccontr)
    assume "\<not> i < k"
    then have "astart k \<le> astart i" by (intro astart_mono) simp
    then show False using k assms(2) ip(2) by (simp add: vec_rep_def)
  qed
  moreover have "k \<le> PVECTOR_MAX_ARRAYS" using k by (simp add: vec_rep_def)
  ultimately show ?thesis using ip assms(2) rep_array [OF k, of i] rep_length [OF k]
    by (simp add: pvector_get_def read_value_def array_at_def cell_def)
qed

subsection \<open>The iterator\<close>

lemma small_index:
  assumes "stores ctx vs" "i \<le> length vs" "j \<le> length vs"
  shows "(of_nat i :: u64) = of_nat j \<longleftrightarrow> i = j"
proof -
  obtain k where "vec_rep k (vec ctx) vs" using assms(1) by (auto simp: stores_def)
  from rep_length_small [OF this] have "unat (of_nat i :: u64) = i" "unat (of_nat j :: u64) = j" using assms(2,3) by (simp_all add: unat_of_nat)
  then show ?thesis by metis
qed

lemma iterator_ends:
  assumes "stores ctx vs"
  shows "pvector_first ctx = Some (if vs = [] then (0, ctx) else (hd vs, ctx\<lparr>iter := 0\<rparr>))"
    "pvector_last ctx = Some (if vs = [] then (0, ctx) else (last vs, ctx\<lparr>iter := of_nat (length vs - 1)\<rparr>))"
proof -
  have n: "nvalues ctx = of_nat (length vs)" using assms by (simp add: stores_def)
  have z: "nvalues ctx = 0 \<longleftrightarrow> vs = []" using small_index [OF assms, of "length vs" 0] n by simp
  define l where "l = length vs - 1"
  have m: "nvalues ctx - 1 = of_nat l \<and> pvector_get (vec ctx) (of_nat l) = Some (last vs)" if "vs \<noteq> []"
    using that n get_list [OF assms, of l] by (auto simp: l_def last_conv_nth neq_Nil_conv)
  show "pvector_first ctx = Some (if vs = [] then (0, ctx) else (hd vs, ctx\<lparr>iter := 0\<rparr>))"
    using z get_list [OF assms, of 0] by (auto simp: pvector_first_def hd_conv_nth)
  show "pvector_last ctx = Some (if vs = [] then (0, ctx) else (last vs, ctx\<lparr>iter := of_nat (length vs - 1)\<rparr>))"
    using z m unfolding l_def [symmetric] by (auto simp: pvector_last_def)
qed

lemma iterator_moves:
  assumes "stores ctx vs" "i < length vs" "iter ctx = of_nat i"
  shows "pvector_prev ctx = Some (if i = 0 then (0, ctx) else (vs ! (i - 1), ctx\<lparr>iter := of_nat (i - 1)\<rparr>))"
    "pvector_next ctx = Some (if Suc i = length vs then (0, ctx) else (vs ! Suc i, ctx\<lparr>iter := of_nat (Suc i)\<rparr>))"
proof -
  have z: "iter ctx = 0 \<longleftrightarrow> i = 0" using small_index [OF assms(1), of i 0] assms(2,3) by simp
  have m: "iter ctx - 1 = of_nat (i - 1)" if "i \<noteq> 0" using that assms(3) by (cases i) simp_all
  show "pvector_prev ctx = Some (if i = 0 then (0, ctx) else (vs ! (i - 1), ctx\<lparr>iter := of_nat (i - 1)\<rparr>))"
    using z m get_list [OF assms(1), of "i - 1"] assms(2) by (auto simp: pvector_prev_def)
  have "nvalues ctx - 1 = of_nat (length vs - 1)" using assms(1,2) by (cases vs) (simp_all add: stores_def)
  then have e: "iter ctx = nvalues ctx - 1 \<longleftrightarrow> Suc i = length vs" using small_index [OF assms(1), of i "length vs - 1"] assms(2,3) by auto
  have s: "iter ctx + 1 = of_nat (Suc i)" using assms(3) by simp
  show "pvector_next ctx = Some (if Suc i = length vs then (0, ctx) else (vs ! Suc i, ctx\<lparr>iter := of_nat (Suc i)\<rparr>))"
    using get_list [OF assms(1), of "Suc i"] assms(2) unfolding pvector_next_def e s by (auto simp del: of_nat_Suc)
qed

text \<open>C37: The vector is a list of non-zero values with an iterator. Pushing a value appends it whenever memory can be allocated and the limit of the vector is not reached,
  and otherwise leaves the list unchanged; popping returns and removes the last value, or returns 0 on the empty list; every index gives the value of the list at
  this index. The iterator goes to the first and the last value, or returns 0 on the empty list; from a position in the list it goes to the value before and after
  it and returns 0 and stays at the ends.\<close>

theorem pvector_refines_list:
  assumes "stores ctx vs" "x \<noteq> 0"
  shows "(\<exists>ok ctx'. push_value alloc x ctx = Some (ok, ctx') \<and> stores ctx' (if ok then vs @ [x] else vs) \<and>
      (alloc \<longrightarrow> ok = (length vs < astart PVECTOR_MAX_ARRAYS))) \<and>
    (\<exists>ctx'. pvector_pop_back (Some (\<lambda>_. 0)) ctx = Some (if vs = [] then 0 else last vs, ctx') \<and> stores ctx' (butlast vs)) \<and>
    (\<forall>n<length vs. pvector_get (vec ctx) (of_nat n) = Some (vs ! n)) \<and>
    pvector_first ctx = Some (if vs = [] then (0, ctx) else (hd vs, ctx\<lparr>iter := 0\<rparr>)) \<and>
    pvector_last ctx = Some (if vs = [] then (0, ctx) else (last vs, ctx\<lparr>iter := of_nat (length vs - 1)\<rparr>)) \<and>
    (\<forall>i<length vs. iter ctx = of_nat i \<longrightarrow>
      pvector_prev ctx = Some (if i = 0 then (0, ctx) else (vs ! (i - 1), ctx\<lparr>iter := of_nat (i - 1)\<rparr>)) \<and>
      pvector_next ctx = Some (if Suc i = length vs then (0, ctx) else (vs ! Suc i, ctx\<lparr>iter := of_nat (Suc i)\<rparr>)))"
  using push_value_list [OF assms] pop_back_list [OF assms(1)] get_list [OF assms(1)] iterator_ends [OF assms(1)] iterator_moves [OF assms(1)] by blast

text \<open>C38: Opening a vector restores its contents. After a power failure between two calls, in \<open>pvector_push_back\<close> before the caller has written the value, or
  in \<open>pvector_pop_back\<close> after the value was zeroed and before its array is freed, \<open>pvector_init\<close> finds exactly the values that were pushed and
  not popped, and it frees the array that the interrupted call has left.\<close>

theorem pvector_init_recovers:
  assumes "stores ctx vs"
  shows "(\<exists>ctx'. pvector_init True (vec ctx) = Some ctx' \<and> stores ctx' vs) \<and>
    (\<exists>ctx'. pvector_init True (vec (snd (pvector_push_back alloc ctx))) = Some ctx' \<and> stores ctx' vs) \<and>
    (vs \<noteq> [] \<longrightarrow> (\<exists>ret v ctx'. pop_entry (Some (\<lambda>_. 0)) ctx = Some (ret, v) \<and> pvector_init True v = Some ctx' \<and> stores ctx' (butlast vs)))"
proof (intro conjI impI)
  obtain k where k: "vec_rep k (vec ctx) vs" "tight k vs" using assms by (auto simp: stores_def)
  show open_ok: "\<exists>ctx'. pvector_init True (vec ctx) = Some ctx' \<and> stores ctx' vs" using pvector_init_rep [OF k(1) tight_interrupted [OF k(2)]] by blast
  obtain i p where ip: "pvector_get_array_spec (of_nat (length vs)) = (i, p)" by fastforce
  note pb = push_back_rep [OF assms ip]
  consider "pvector_push_back alloc ctx = (None, ctx)"
    | ctx1 where "pvector_push_back alloc ctx = (Some (i, p), ctx1)" "vec_rep (Suc i) (vec ctx1) vs" "interrupted (Suc i) vs"
    using pb(3,4) [of alloc] by (meson not_le)
  then show "\<exists>ctx'. pvector_init True (vec (snd (pvector_push_back alloc ctx))) = Some ctx' \<and> stores ctx' vs"
  proof cases
    case 2
    then show ?thesis using pvector_init_rep [OF 2(2,3)] by auto
  qed (use open_ok in simp)
  assume "vs \<noteq> []"
  then obtain ws x where ws: "vs = ws @ [x]" by (cases vs rule: rev_cases) auto
  obtain i v where e: "pop_entry (Some (\<lambda>_. 0)) ctx = Some (x, v)" "vec_rep (Suc i) v ws" "interrupted (Suc i) ws"
    using pop_entry_list assms ws by blast
  show "\<exists>ret v ctx'. pop_entry (Some (\<lambda>_. 0)) ctx = Some (ret, v) \<and> pvector_init True v = Some ctx' \<and> stores ctx' (butlast vs)"
    using pvector_init_rep [OF e(2,3)] e(1) ws by auto
qed

definition empty_vector :: pvector_context where
  "empty_vector = \<lparr>vec = \<lparr>arrays = replicate 20 None, embedded = replicate 8 0\<rparr>, nvalues = 0, iter = 0\<rparr>"

lemma empty_vector_stores: "stores empty_vector []"
proof -
  have "vec_rep 0 (vec empty_vector) []" by (simp add: vec_rep_def empty_vector_def PVECTOR_MAX_ARRAYS_def map_replicate_const)
  then show ?thesis by (auto simp: stores_def tight_def empty_vector_def)
qed

theorem pvector_refines_list_witness:
  "stores empty_vector [] \<and> (\<exists>ctx. push_value True 5 empty_vector = Some (True, ctx) \<and> stores ctx [5]) \<and> pvector_first empty_vector = Some (0, empty_vector)"
proof -
  have l: "0 < astart PVECTOR_MAX_ARRAYS" by (simp add: astart_def PVECTOR_MAX_ARRAYS_def)
  have "(5 :: u64) \<noteq> 0" by simp
  from pvector_refines_list [OF empty_vector_stores this, of True] l show ?thesis using empty_vector_stores by auto
qed

theorem pvector_init_recovers_witness:
  "stores empty_vector [] \<and> map_option nvalues (pvector_init True (vec (snd (pvector_push_back True empty_vector)))) = Some 0 \<and>
   fst (pvector_push_back True empty_vector) = Some (0, 0)"
proof -
  have "fst (pvector_push_back True empty_vector) = Some (0, 0)" by code_simp
  then show ?thesis using pvector_init_recovers [OF empty_vector_stores, of True] empty_vector_stores by (auto simp: stores_def)
qed

end
