(* ===== verification/Heap_Classes.thy ===== *)
theory Heap_Classes
  imports Heap_Init
begin

text \<open>
  Allocation classes of \<open>src/nvml/src/libpmemobj/heap.c\<close>: the buckets for the block sizes of runs and the map from the size of a request to its bucket. Bucket
  objects are numbers, with the set of those that are allocated; the number of a new object is the number of the call of \<open>bucket_new\<close>, and \<open>oracle\<close> tells which
  calls succeed. \<open>None\<close> is the deletion of an object that is not allocated, an access through an invalid pointer, or a loop that does not end.
\<close>

definition MAX_BUCKETS :: nat where "MAX_BUCKETS = 254"
definition RUN_UNIT_MAX :: nat where "RUN_UNIT_MAX = 8"
definition ALLOC_BLOCK_SIZE :: nat where "ALLOC_BLOCK_SIZE = 64"
definition MIN_RUN_SIZE :: nat where "MIN_RUN_SIZE = 128"
definition MAX_RUN_SIZE :: nat where "MAX_RUN_SIZE = CHUNKSIZE div 2"
definition MAX_RUN_WASTED_BYTES :: nat where "MAX_RUN_WASTED_BYTES = 1024"

definition categories :: "(nat \<times> nat) list" where
  "categories = [(2, 0), (16, 1), (64, 2), (256, 4), (0, 0)]"

datatype bptr = Null | Reserved | Ptr nat

record pmalloc_heap =
  default_bucket :: bptr
  buckets :: "bptr list"
  bucket_map :: "nat \<Rightarrow> nat"
  last_run_max_size :: nat
  caches :: "bptr list list"
  allocated :: "nat set"
  unit_size_of :: "nat \<Rightarrow> nat"
  calls :: nat

subsection \<open>Bucket objects\<close>

definition new_bucket :: "(nat \<Rightarrow> bool) \<Rightarrow> nat \<Rightarrow> pmalloc_heap \<Rightarrow> bptr \<times> pmalloc_heap" where
  "new_bucket oracle unit_size h =
     (let n = calls h; h = h\<lparr>calls := n + 1\<rparr>
      in if oracle n then (Ptr n, h\<lparr>allocated := insert n (allocated h), unit_size_of := (unit_size_of h)(n := unit_size)\<rparr>) else (Null, h))"

fun delete_bucket :: "bptr \<Rightarrow> pmalloc_heap \<Rightarrow> pmalloc_heap option" where
  "delete_bucket (Ptr n) h = (if n \<in> allocated h then Some (h\<lparr>allocated := allocated h - {n}\<rparr>) else None)"
| "delete_bucket _ h = None"

definition bucket_group_init :: "bptr list" where
  "bucket_group_init = replicate MAX_BUCKETS Null"

fun bucket_group_destroy :: "bptr list \<Rightarrow> pmalloc_heap \<Rightarrow> pmalloc_heap option" where
  "bucket_group_destroy [] h = Some h"
| "bucket_group_destroy (b # bs) h =
     (if b \<noteq> Null then Option.bind (delete_bucket b h) (bucket_group_destroy bs) else bucket_group_destroy bs h)"

subsection \<open>Creating a class\<close>

fun free_slot :: "nat \<Rightarrow> bptr list \<Rightarrow> nat" where
  "free_slot n [] = n"
| "free_slot n (b # bs) = (if b = Null then n else free_slot (n + 1) bs)"

definition heap_find_first_free_bucket_slot :: "pmalloc_heap \<Rightarrow> nat \<times> pmalloc_heap" where
  "heap_find_first_free_bucket_slot h =
     (let n = free_slot 0 (buckets h) in if n < MAX_BUCKETS then (n, h\<lparr>buckets := (buckets h)[n := Reserved]\<rparr>) else (MAX_BUCKETS, h))"

text \<open>The loop over the caches: the number of the cache at which it stops.\<close>

function create_cache_buckets :: "(nat \<Rightarrow> bool) \<Rightarrow> nat \<Rightarrow> nat \<Rightarrow> nat \<Rightarrow> pmalloc_heap \<Rightarrow> nat \<times> pmalloc_heap" where
  "create_cache_buckets oracle unit_size slot i h =
     (if i < length (caches h)
      then let (p, h1) = new_bucket oracle unit_size h; h2 = h1\<lparr>caches := (caches h)[i := (caches h ! i)[slot := p]]\<rparr>
           in if p = Null then (i, h2) else create_cache_buckets oracle unit_size slot (i + 1) h2
      else (i, h))"
  by pat_completeness auto
termination
  by (relation "measure (\<lambda>(oracle, u, slot, i, h). length (caches h) - i)") (auto simp: new_bucket_def Let_def split: if_splits)

declare create_cache_buckets.simps [simp del]

fun delete_cache_buckets :: "nat \<Rightarrow> nat \<Rightarrow> pmalloc_heap \<Rightarrow> pmalloc_heap option" where
  "delete_cache_buckets slot 0 h = Some h"
| "delete_cache_buckets slot (Suc i) h = Option.bind (delete_bucket (caches h ! i ! slot) h) (delete_cache_buckets slot i)"

definition heap_create_alloc_class_buckets :: "(nat \<Rightarrow> bool) \<Rightarrow> nat \<Rightarrow> pmalloc_heap \<Rightarrow> (nat \<times> pmalloc_heap) option" where
  "heap_create_alloc_class_buckets oracle unit_size h =
     (let (slot, h) = heap_find_first_free_bucket_slot h
      in if slot = MAX_BUCKETS then Some (slot, h)
         else let (p, h) = new_bucket oracle unit_size h; h = h\<lparr>buckets := (buckets h)[slot := p]\<rparr>
              in if p = Null then Some (MAX_BUCKETS, h)
                 else let (i, h) = create_cache_buckets oracle unit_size slot 0 h
                      in if i = length (caches h) then Some (slot, h)
                         else map_option (\<lambda>h. (MAX_BUCKETS, h\<lparr>buckets := (buckets h)[slot := Null]\<rparr>))
                                (Option.bind (delete_bucket (buckets h ! slot) h) (delete_cache_buckets slot i)))"

definition heap_register_bucket_range :: "nat \<Rightarrow> nat \<Rightarrow> nat \<Rightarrow> pmalloc_heap \<Rightarrow> pmalloc_heap" where
  "heap_register_bucket_range b start fin h = h\<lparr>bucket_map := (\<lambda>n. if start \<le> n \<and> n \<le> fin then b else bucket_map h n)\<rparr>"

definition unit_size_at :: "pmalloc_heap \<Rightarrow> nat \<Rightarrow> nat option" where
  "unit_size_at h i = (if i < length (buckets h) then case buckets h ! i of Ptr n \<Rightarrow> Some (unit_size_of h n) | _ \<Rightarrow> None else None)"

subsection \<open>Choosing a class\<close>

text \<open>The size is unsigned, so \<open>s - 1\<close> wraps for an empty request.\<close>

definition SIZE_TO_ALLOC_BLOCKS :: "nat \<Rightarrow> nat" where
  "SIZE_TO_ALLOC_BLOCKS s = 1 + (if s = 0 then 2 ^ 64 - 1 else s - 1) div ALLOC_BLOCK_SIZE"

definition SIZE_TO_BID :: "pmalloc_heap \<Rightarrow> nat \<Rightarrow> nat" where
  "SIZE_TO_BID h s = bucket_map h (SIZE_TO_ALLOC_BLOCKS s)"

text \<open>The check after the creation compares \<open>unit_size\<close>, as the code does.\<close>

definition heap_get_create_bucket_idx_by_unit_size :: "(nat \<Rightarrow> bool) \<Rightarrow> nat \<Rightarrow> pmalloc_heap \<Rightarrow> (nat \<times> pmalloc_heap) option" where
  "heap_get_create_bucket_idx_by_unit_size oracle unit_size h =
     (let bucket_idx = SIZE_TO_BID h unit_size
      in Option.bind (unit_size_at h bucket_idx) (\<lambda>u.
           if u \<noteq> unit_size
           then Option.bind (heap_create_alloc_class_buckets oracle unit_size h) (\<lambda>(bucket_idx, h).
                  if unit_size = MAX_BUCKETS then Some (MAX_BUCKETS, h)
                  else let supported_block = unit_size div ALLOC_BLOCK_SIZE
                       in Some (bucket_idx, heap_register_bucket_range bucket_idx supported_block supported_block h))
           else Some (bucket_idx, h)))"

text \<open>The search from the last slot: \<open>Some None\<close> when no class fits.\<close>

fun find_class :: "pmalloc_heap \<Rightarrow> nat \<Rightarrow> nat \<Rightarrow> nat option option" where
  "find_class h n 0 = Some None"
| "find_class h n (Suc i) =
     (if buckets h ! i = Null then find_class h n i
      else Option.bind (unit_size_at h i) (\<lambda>u. if n mod u = 0 \<and> n div u \<le> RUN_UNIT_MAX then Some (Some i) else find_class h n i))"

text \<open>Beyond \<open>RUNSIZE\<close> the remainder is \<open>RUNSIZE\<close> itself and the loop goes on.\<close>

function reduce_waste :: "nat \<Rightarrow> nat option" where
  "reduce_waste n =
     (if \<not> RUNSIZE mod n > MAX_RUN_WASTED_BYTES then Some n else if n > RUNSIZE then None else reduce_waste (n + ALLOC_BLOCK_SIZE))"
  by pat_completeness auto
termination
  by (relation "measure (\<lambda>n. Suc RUNSIZE - n)") (auto simp: ALLOC_BLOCK_SIZE_def)

declare reduce_waste.simps [simp del]

definition heap_find_or_create_best_alloc_class :: "(nat \<Rightarrow> bool) \<Rightarrow> nat \<Rightarrow> pmalloc_heap \<Rightarrow> (nat \<times> pmalloc_heap) option" where
  "heap_find_or_create_best_alloc_class oracle n h =
     Option.bind (find_class h n MAX_BUCKETS) (\<lambda>f. case f of
       Some i \<Rightarrow> Some (i, h)
     | None \<Rightarrow> Option.bind (reduce_waste n) (\<lambda>n. heap_create_alloc_class_buckets oracle n h))"

subsection \<open>Initialisation\<close>

text \<open>The loop of one category, from \<open>i\<close>: whether all classes were created, and the last size.\<close>

function category_loop :: "(nat \<Rightarrow> bool) \<Rightarrow> nat \<Rightarrow> nat \<Rightarrow> nat \<Rightarrow> nat \<Rightarrow> pmalloc_heap \<Rightarrow> (bool \<times> nat \<times> pmalloc_heap) option" where
  "category_loop oracle hi step i sz h =
     (if \<not> i \<le> hi then Some (True, sz, h)
      else if step = 0 then None
      else Option.bind (heap_find_or_create_best_alloc_class oracle ((i + (step - 1)) * ALLOC_BLOCK_SIZE) h) (\<lambda>(slot, h).
        if slot = MAX_BUCKETS then Some (False, i + (step - 1), h)
        else category_loop oracle hi step (i + step) (i + (step - 1)) (heap_register_bucket_range slot i (i + (step - 1)) h)))"
  by pat_completeness auto
termination
  by (relation "measure (\<lambda>(oracle, hi, step, i, sz, h). Suc hi - i)") auto

declare category_loop.simps [simp del]

fun categories_loop :: "(nat \<Rightarrow> bool) \<Rightarrow> (nat \<times> nat) list \<Rightarrow> nat \<Rightarrow> pmalloc_heap \<Rightarrow> (bool \<times> nat \<times> pmalloc_heap) option" where
  "categories_loop oracle ((lo, _) # (hi, step) # cs) sz h =
     Option.bind (category_loop oracle hi step (lo + 1) sz h) (\<lambda>(ok, sz, h).
       if ok then categories_loop oracle ((hi, step) # cs) sz h else Some (False, sz, h))"
| "categories_loop oracle _ sz h = Some (True, sz, h)"

fun largest_slot :: "bptr list \<Rightarrow> nat \<Rightarrow> nat" where
  "largest_slot bs 0 = 0"
| "largest_slot bs (Suc n) = (if bs ! Suc n = Null then largest_slot bs n else Suc n)"

fun destroy_caches :: "bptr list list \<Rightarrow> pmalloc_heap \<Rightarrow> pmalloc_heap option" where
  "destroy_caches [] h = Some h"
| "destroy_caches (c # cs) h = Option.bind (bucket_group_destroy c h) (destroy_caches cs)"

definition buckets_init_error :: "pmalloc_heap \<Rightarrow> (int \<times> pmalloc_heap) option" where
  "buckets_init_error h =
     map_option (Pair ENOMEM)
       (Option.bind (delete_bucket (default_bucket h) h) (\<lambda>h.
         Option.bind (bucket_group_destroy (buckets h) h) (\<lambda>h. destroy_caches (caches h) h)))"

text \<open>\<open>map_malloc\<close> is the result of the allocation of \<open>bucket_map\<close>. The last call, \<open>heap_populate_buckets\<close>, works on the zones and its result is ignored.\<close>

definition heap_buckets_init :: "bool \<Rightarrow> (nat \<Rightarrow> bool) \<Rightarrow> pmalloc_heap \<Rightarrow> (int \<times> pmalloc_heap) option" where
  "heap_buckets_init map_malloc oracle h =
     (let h = h\<lparr>last_run_max_size := MAX_RUN_SIZE\<rparr>
      in if \<not> map_malloc then Some (ENOMEM, h)
         else let (p, h) = new_bucket oracle CHUNKSIZE h; h = h\<lparr>default_bucket := p\<rparr>
              in if p = Null then Some (ENOMEM, h)
                 else Option.bind (heap_create_alloc_class_buckets oracle MIN_RUN_SIZE h) (\<lambda>(slot, h).
                   if slot = MAX_BUCKETS then buckets_init_error h
                   else Option.bind (categories_loop oracle categories 0 (heap_register_bucket_range slot 0 2 h)) (\<lambda>(ok, sz, h).
                     if \<not> ok then buckets_init_error h
                     else let slot = largest_slot (buckets h) (MAX_BUCKETS - 1)
                          in map_option (\<lambda>u. let m = u * min (RUNSIZE div u) RUN_UNIT_MAX; h = h\<lparr>last_run_max_size := min MAX_RUN_SIZE m\<rparr>
                               in (0, heap_register_bucket_range slot sz (last_run_max_size h div ALLOC_BLOCK_SIZE) h))
                               (unit_size_at h slot))))"

definition new_heap :: "nat \<Rightarrow> pmalloc_heap" where
  "new_heap ncaches = \<lparr>default_bucket = Null, buckets = bucket_group_init, bucket_map = (\<lambda>_. 0), last_run_max_size = 0,
     caches = replicate ncaches bucket_group_init, allocated = {}, unit_size_of = (\<lambda>_. 0), calls = 0\<rparr>"

subsection \<open>Failure of a cache bucket\<close>

text \<open>Deleting objects only shrinks the set of allocated objects, so a pointer to a deleted object in a group makes its destruction fail.\<close>

lemma delete_bucket_mono: "delete_bucket b h = Some h' \<Longrightarrow> allocated h' \<subseteq> allocated h \<and> caches h' = caches h \<and> buckets h' = buckets h"
  by (cases b) (auto split: if_splits)

lemma group_destroy_mono: "bucket_group_destroy bs h = Some h' \<Longrightarrow> allocated h' \<subseteq> allocated h \<and> caches h' = caches h"
proof (induction bs arbitrary: h)
  case (Cons b bs)
  show ?case
  proof (cases "b = Null")
    case False
    then obtain h1 where h1: "delete_bucket b h = Some h1" "bucket_group_destroy bs h1 = Some h'" using Cons.prems by (auto split: bind_splits)
    then show ?thesis using Cons.IH [OF h1(2)] delete_bucket_mono [OF h1(1)] by auto
  qed (use Cons in simp)
qed simp

lemma group_destroy_dangling: "Ptr n \<in> set bs \<Longrightarrow> n \<notin> allocated h \<Longrightarrow> bucket_group_destroy bs h = None"
proof (induction bs arbitrary: h)
  case (Cons b bs)
  show ?case
  proof (cases "Ptr n \<in> set bs")
    case True
    have "bucket_group_destroy bs h1 = None" if "delete_bucket b h = Some h1" for h1
      using Cons.IH [OF True, of h1] delete_bucket_mono [OF that] Cons.prems(2) by blast
    then show ?thesis using Cons.IH [OF True Cons.prems(2)] by (cases "delete_bucket b h") simp_all
  qed (use Cons.prems in auto)
qed simp

lemma destroy_caches_dangling: "c \<in> set cs \<Longrightarrow> Ptr n \<in> set c \<Longrightarrow> n \<notin> allocated h \<Longrightarrow> destroy_caches cs h = None"
proof (induction cs arbitrary: h)
  case (Cons d cs)
  show ?case
  proof (cases "bucket_group_destroy d h")
    case (Some h1)
    then have "c \<noteq> d" using group_destroy_dangling Cons.prems(2,3) by auto
    then have "c \<in> set cs" using Cons.prems(1) by simp
    then show ?thesis using Cons.IH [OF _ Cons.prems(2), of h1] group_destroy_mono [OF Some] Cons.prems(3) Some by auto
  qed simp
qed simp

lemma error_path_dangling:
  assumes "c \<in> set (caches h)" "Ptr n \<in> set c" "n \<notin> allocated h"
  shows "buckets_init_error h = None"
proof (cases "Option.bind (delete_bucket (default_bucket h) h) (\<lambda>h. bucket_group_destroy (buckets h) h)")
  case None
  then show ?thesis by (auto simp: buckets_init_error_def split: bind_splits)
next
  case (Some h2)
  then obtain h1 where h1: "delete_bucket (default_bucket h) h = Some h1" "bucket_group_destroy (buckets h1) h1 = Some h2" by (auto split: bind_splits)
  then have "allocated h2 \<subseteq> allocated h" "caches h2 = caches h" using delete_bucket_mono [OF h1(1)] group_destroy_mono [OF h1(2)] by auto
  then have "destroy_caches (caches h2) h2 = None" using destroy_caches_dangling [OF _ assms(2), of "caches h2" h2] assms(1,3) by auto
  then show ?thesis using h1 by (simp add: buckets_init_error_def)
qed

text \<open>The loop over the caches, when the bucket of cache \<open>i\<close> cannot be created: the buckets before it stay in their slots.\<close>

lemma create_cache_buckets_fail:
  assumes "p \<le> i" "i < length (caches h)" "calls h = K + p" "\<forall>m. p \<le> m \<and> m < i \<longrightarrow> oracle (K + m)" "\<not> oracle (K + i)"
    "list_all (\<lambda>c. slot < length c) (caches h)"
  shows "\<exists>h'. create_cache_buckets oracle u slot p h = (i, h') \<and> length (caches h') = length (caches h) \<and> buckets h' = buckets h \<and>
    allocated h' = allocated h \<union> {K + p ..< K + i} \<and> list_all (\<lambda>c. slot < length c) (caches h') \<and>
    (\<forall>m<i. caches h' ! m ! slot = (if p \<le> m then Ptr (K + m) else caches h ! m ! slot))"
  using assms
proof (induction "i - p" arbitrary: p h)
  case 0
  then have p: "p = i" by simp
  let ?h = "h\<lparr>calls := K + i + 1, caches := (caches h)[i := (caches h ! i)[slot := Null]]\<rparr>"
  have "create_cache_buckets oracle u slot p h = (i, ?h)"
    using 0 p by (subst create_cache_buckets.simps) (simp add: new_bucket_def Let_def)
  moreover have "list_all (\<lambda>c. slot < length c) ((caches h)[i := (caches h ! i)[slot := Null]])"
    using 0 by (auto simp: list_all_length nth_list_update)
  ultimately show ?case using p by auto
next
  case (Suc d)
  then have p: "p < i" "oracle (K + p)" by auto
  define h1 where "h1 = h\<lparr>calls := K + p + 1, allocated := insert (K + p) (allocated h), unit_size_of := (unit_size_of h)(K + p := u),
    caches := (caches h)[p := (caches h ! p)[slot := Ptr (K + p)]]\<rparr>"
  have step: "create_cache_buckets oracle u slot p h = create_cache_buckets oracle u slot (p + 1) h1"
    using Suc.prems p by (subst create_cache_buckets.simps) (simp add: new_bucket_def Let_def h1_def)
  have l: "list_all (\<lambda>c. slot < length c) (caches h1)" using Suc.prems(2,6) p(1) by (auto simp: h1_def list_all_length nth_list_update)
  have c: "caches h1 ! m ! slot = (if m = p then Ptr (K + p) else caches h ! m ! slot)" if "m < i" for m
    using Suc.prems(2,6) p(1) by (auto simp: h1_def nth_list_update list_all_length)
  have "\<exists>h'. create_cache_buckets oracle u slot (p + 1) h1 = (i, h') \<and> length (caches h') = length (caches h1) \<and> buckets h' = buckets h1 \<and>
    allocated h' = allocated h1 \<union> {K + (p + 1) ..< K + i} \<and> list_all (\<lambda>c. slot < length c) (caches h') \<and>
    (\<forall>m<i. caches h' ! m ! slot = (if p + 1 \<le> m then Ptr (K + m) else caches h1 ! m ! slot))"
    by (rule Suc.hyps(1)) (use Suc.prems Suc.hyps(2) p l in \<open>auto simp: h1_def\<close>)
  then obtain h' where h': "create_cache_buckets oracle u slot (p + 1) h1 = (i, h')" "length (caches h') = length (caches h1)" "buckets h' = buckets h1"
    "allocated h' = allocated h1 \<union> {K + (p + 1) ..< K + i}" "list_all (\<lambda>c. slot < length c) (caches h')"
    "\<And>m. m < i \<Longrightarrow> caches h' ! m ! slot = (if p + 1 \<le> m then Ptr (K + m) else caches h1 ! m ! slot)" by blast
  have "{K + p ..< K + i} = insert (K + p) {K + (p + 1) ..< K + i}" using p(1) by auto
  moreover have "caches h' ! m ! slot = (if p \<le> m then Ptr (K + m) else caches h ! m ! slot)" if "m < i" for m
    using h'(6) [OF that] c [OF that] by auto
  ultimately show ?case using h'(1-5) step by (auto simp: h1_def)
qed

lemma delete_cache_buckets_all:
  assumes "\<forall>m<i. caches h ! m ! slot = Ptr (K + m) \<and> K + m \<in> allocated h"
  shows "\<exists>h'. delete_cache_buckets slot i h = Some h' \<and> caches h' = caches h \<and> allocated h' = allocated h - {K ..< K + i}"
  using assms
proof (induction i arbitrary: h)
  case (Suc i)
  let ?h = "h\<lparr>allocated := allocated h - {K + i}\<rparr>"
  have "delete_bucket (caches h ! i ! slot) h = Some ?h" using Suc.prems by simp
  moreover obtain h' where "delete_cache_buckets slot i ?h = Some h'" "caches h' = caches h" "allocated h' = allocated h - {K + i} - {K ..< K + i}"
    using Suc.IH [of ?h] Suc.prems by auto
  moreover have "allocated h - {K + i} - {K ..< K + i} = allocated h - {K ..< K + Suc i}" by auto
  ultimately show ?case by simp
qed simp

text \<open>C40: A class whose bucket for a cache other than the first cannot be created is freed twice. Whenever a class is created in a heap whose objects are numbered by the
  calls that created them, its own bucket and the buckets of the first \<open>i\<close> caches are created and the next is not, \<open>heap_create_alloc_class_buckets\<close> deletes the buckets
  and leaves the pointers in the caches. The destruction of the first cache, from then on and in the error path of \<open>heap_buckets_init\<close>, which runs next, deletes a
  bucket that is not allocated any more.\<close>

theorem failed_class_double_free:
  assumes "free_slot 0 (buckets h) = slot" "slot < MAX_BUCKETS" "length (buckets h) = MAX_BUCKETS" "list_all (\<lambda>c. length c = MAX_BUCKETS) (caches h)"
    "\<forall>n\<in>allocated h. n < calls h" "0 < i" "i < length (caches h)" "\<forall>m\<le>i. oracle (calls h + m)" "\<not> oracle (calls h + Suc i)"
  shows "\<exists>h'. heap_create_alloc_class_buckets oracle unit_size h = Some (MAX_BUCKETS, h') \<and>
    hd (caches h') ! slot = Ptr (Suc (calls h)) \<and> Suc (calls h) \<notin> allocated h' \<and>
    (\<forall>g. allocated g \<subseteq> allocated h' \<longrightarrow> bucket_group_destroy (hd (caches h')) g = None) \<and> buckets_init_error h' = None"
proof -
  let ?a = "calls h" and ?K = "Suc (calls h)"
  define h1 where "h1 = h\<lparr>calls := ?K, allocated := insert ?a (allocated h), unit_size_of := (unit_size_of h)(?a := unit_size), buckets := (buckets h)[slot := Ptr ?a]\<rparr>"
  have "\<exists>h2. create_cache_buckets oracle unit_size slot 0 h1 = (i, h2) \<and> length (caches h2) = length (caches h1) \<and> buckets h2 = buckets h1 \<and>
    allocated h2 = allocated h1 \<union> {?K + 0 ..< ?K + i} \<and> list_all (\<lambda>c. slot < length c) (caches h2) \<and>
    (\<forall>m<i. caches h2 ! m ! slot = (if 0 \<le> m then Ptr (?K + m) else caches h1 ! m ! slot))"
  proof (rule create_cache_buckets_fail)
    show "\<forall>m. 0 \<le> m \<and> m < i \<longrightarrow> oracle (?K + m)" using assms(8) by (metis Suc_leI add_Suc_shift)
  qed (use assms in \<open>auto simp: h1_def list_all_iff\<close>)
  then obtain h2 where h2: "create_cache_buckets oracle unit_size slot 0 h1 = (i, h2)" "length (caches h2) = length (caches h)" "buckets h2 ! slot = Ptr ?a"
    "allocated h2 = insert ?a (allocated h) \<union> {?K ..< ?K + i}" "list_all (\<lambda>c. slot < length c) (caches h2)" "\<And>m. m < i \<Longrightarrow> caches h2 ! m ! slot = Ptr (?K + m)"
    using assms(2,3) by (auto simp: h1_def)
  define h3 where "h3 = h2\<lparr>allocated := allocated h2 - {?a}\<rparr>"
  have "delete_bucket (buckets h2 ! slot) h2 = Some h3" using h2(3,4) by (simp add: h3_def)
  moreover have "\<forall>m<i. caches h3 ! m ! slot = Ptr (?K + m) \<and> ?K + m \<in> allocated h3" using h2(4,6) by (simp add: h3_def)
  then obtain h4 where h4: "delete_cache_buckets slot i h3 = Some h4" "caches h4 = caches h2" "allocated h4 = allocated h3 - {?K ..< ?K + i}"
    using delete_cache_buckets_all [of i h3 slot ?K] by (auto simp: h3_def)
  define h' where "h' = h4\<lparr>buckets := (buckets h4)[slot := Null]\<rparr>"
  ultimately have r: "heap_create_alloc_class_buckets oracle unit_size h = Some (MAX_BUCKETS, h')"
    using h2(1,2) h4(1) assms(1,2,7) spec [OF assms(8), of 0]
    by (simp add: heap_create_alloc_class_buckets_def heap_find_first_free_bucket_slot_def new_bucket_def Let_def h1_def h'_def)
  have ne: "caches h2 \<noteq> []" using h2(2) assms(7) by auto
  then have c: "hd (caches h') \<in> set (caches h')" "hd (caches h') ! slot = Ptr ?K" using h2(6) [OF assms(6)] by (simp_all add: h'_def h4(2) hd_conv_nth)
  have s: "slot < length (hd (caches h'))" using h2(5) ne by (auto simp: h'_def h4(2) list_all_iff)
  have n: "?K \<notin> allocated h'" using assms(6) by (simp add: h'_def h4(3))
  have d: "Ptr ?K \<in> set (hd (caches h'))" using nth_mem [OF s] by (simp add: c(2))
  have "bucket_group_destroy (hd (caches h')) g = None" if "allocated g \<subseteq> allocated h'" for g using group_destroy_dangling [OF d, of g] n that by blast
  then show ?thesis using error_path_dangling [OF c(1) d n] r c(2) n by blast
qed

theorem failed_class_double_free_witness:
  "let h = (new_heap 3)\<lparr>default_bucket := Ptr 0, allocated := {0}, calls := 1\<rparr>
   in \<exists>h'. heap_create_alloc_class_buckets (\<lambda>n. n \<noteq> 4) MIN_RUN_SIZE h = Some (MAX_BUCKETS, h') \<and> buckets_init_error h' = None"
proof -
  define h where "h = (new_heap 3)\<lparr>default_bucket := Ptr 0, allocated := {0}, calls := 1\<rparr>"
  have g: "bucket_group_init = Null # replicate 253 Null" by (simp add: bucket_group_init_def MAX_BUCKETS_def numeral_eq_Suc)
  have "free_slot 0 (buckets h) = 0" by (simp add: h_def new_heap_def g)
  moreover have "(0 :: nat) < MAX_BUCKETS" "length (buckets h) = MAX_BUCKETS" "list_all (\<lambda>c. length c = MAX_BUCKETS) (caches h)" "\<forall>n\<in>allocated h. n < calls h"
    "(0 :: nat) < 2" "2 < length (caches h)" "\<forall>m\<le>2. (\<lambda>n. n \<noteq> 4) (calls h + m)" "\<not> (\<lambda>n. n \<noteq> 4) (calls h + Suc 2)"
    by (simp_all add: h_def new_heap_def bucket_group_init_def MAX_BUCKETS_def list_all_iff)
  ultimately show ?thesis using failed_class_double_free [of h 0 2 "\<lambda>n. n \<noteq> 4" MIN_RUN_SIZE] unfolding Let_def h_def [symmetric] by blast
qed

end
