(* ===== verification/Heap_Classes_Props.thy ===== *)
theory Heap_Classes_Props
  imports Heap_Classes
begin

text \<open>
  The allocation classes serve every size: \<open>heap_buckets_init\<close> gives every request up to \<open>last_run_max_size\<close> a bucket whose runs can hold it in at most \<open>RUN_UNIT_MAX\<close>
  blocks. The used slots are the first ones.
\<close>

definition all_ok :: "nat \<Rightarrow> bool" where
  "all_ok n = True"

definition unit_ok :: "nat \<Rightarrow> bool" where
  "unit_ok u \<longleftrightarrow> 0 < u \<and> u \<le> 17408 \<and> u mod 64 = 0"

definition classes :: "nat list \<Rightarrow> pmalloc_heap \<Rightarrow> bool" where
  "classes ids h \<longleftrightarrow> length ids \<le> MAX_BUCKETS \<and> buckets h = map Ptr ids @ replicate (MAX_BUCKETS - length ids) Null \<and>
     (\<forall>i\<in>set ids. i < calls h \<and> unit_ok (unit_size_of h i))"

text \<open>Every number of allocation blocks up to \<open>N\<close> is mapped to a class that can serve it.\<close>

definition covered_to :: "pmalloc_heap \<Rightarrow> nat \<Rightarrow> bool" where
  "covered_to h N \<longleftrightarrow> (\<forall>n\<le>N. \<exists>u. unit_size_at h (bucket_map h n) = Some u \<and> n * 64 \<le> 8 * u)"

definition extends :: "pmalloc_heap \<Rightarrow> pmalloc_heap \<Rightarrow> bool" where
  "extends h h' \<longleftrightarrow> bucket_map h' = bucket_map h \<and> (\<forall>i u. unit_size_at h i = Some u \<longrightarrow> unit_size_at h' i = Some u)"

lemma covered_extends: "covered_to h N \<Longrightarrow> extends h h' \<Longrightarrow> covered_to h' N"
  unfolding covered_to_def extends_def by metis

lemma class_unit:
  assumes "classes ids h" "i < length ids"
  shows "unit_size_at h i = Some (unit_size_of h (ids ! i))" "unit_ok (unit_size_of h (ids ! i))" "buckets h ! i = Ptr (ids ! i)"
  using assms by (auto simp: classes_def unit_size_at_def nth_append)

lemma class_unit_None: "classes ids h \<Longrightarrow> \<not> i < length ids \<Longrightarrow> unit_size_at h i = None"
  by (auto simp: classes_def unit_size_at_def nth_append)

subsection \<open>Creating a class\<close>

lemma cache_buckets_ok:
  assumes "i \<le> length (caches h)"
  shows "\<exists>h'. create_cache_buckets all_ok u slot i h = (length (caches h), h') \<and> length (caches h') = length (caches h) \<and> buckets h' = buckets h \<and>
    bucket_map h' = bucket_map h \<and> calls h \<le> calls h' \<and> (\<forall>n<calls h. unit_size_of h' n = unit_size_of h n)"
  using assms
proof (induction "length (caches h) - i" arbitrary: i h)
  case 0
  then show ?case by (simp add: create_cache_buckets.simps)
next
  case (Suc d)
  define h1 where "h1 = (snd (new_bucket all_ok u h))\<lparr>caches := (caches h)[i := (caches h ! i)[slot := Ptr (calls h)]]\<rparr>"
  have h1: "length (caches h1) = length (caches h)" "buckets h1 = buckets h" "bucket_map h1 = bucket_map h" "calls h1 = Suc (calls h)"
    "\<forall>n<calls h. unit_size_of h1 n = unit_size_of h n" by (simp_all add: h1_def new_bucket_def all_ok_def Let_def)
  have "new_bucket all_ok u h = (Ptr (calls h), snd (new_bucket all_ok u h))" by (simp add: new_bucket_def all_ok_def Let_def)
  then have "create_cache_buckets all_ok u slot i h = create_cache_buckets all_ok u slot (i + 1) h1"
    using Suc.hyps(2) by (subst create_cache_buckets.simps) (auto simp: h1_def Let_def split: prod.split)
  moreover have d: "d = length (caches h1) - (i + 1)" "i + 1 \<le> length (caches h1)" using Suc.hyps(2) h1(1) by linarith+
  obtain h' where "create_cache_buckets all_ok u slot (i + 1) h1 = (length (caches h1), h')" "length (caches h') = length (caches h1)"
    "buckets h' = buckets h1" "bucket_map h' = bucket_map h1" "calls h1 \<le> calls h'" "\<forall>n<calls h1. unit_size_of h' n = unit_size_of h1 n"
    using Suc.hyps(1) [OF d] by blast
  ultimately show ?case using h1 by auto
qed

lemma free_slot_ptrs: "free_slot n (map Ptr ids @ bs) = free_slot (n + length ids) bs"
  by (induction ids arbitrary: n) simp_all

lemma create_class_ok:
  assumes "classes ids h" "length ids < MAX_BUCKETS" "unit_ok u"
  shows "\<exists>h'. heap_create_alloc_class_buckets all_ok u h = Some (length ids, h') \<and> classes (ids @ [calls h]) h' \<and> extends h h' \<and>
    unit_size_at h' (length ids) = Some u"
proof -
  let ?m = "length ids"
  obtain k where k: "MAX_BUCKETS - ?m = Suc k" using assms(2) by (metis Suc_diff_Suc)
  have b: "buckets h = map Ptr ids @ Null # replicate k Null" using assms(1) k by (simp add: classes_def)
  have slot: "heap_find_first_free_bucket_slot h = (?m, h\<lparr>buckets := map Ptr ids @ Reserved # replicate k Null\<rparr>)"
    using assms(2) by (simp add: heap_find_first_free_bucket_slot_def b free_slot_ptrs Let_def list_update_append)
  define h1 where "h1 = h\<lparr>buckets := map Ptr ids @ Ptr (calls h) # replicate k Null, calls := Suc (calls h),
    allocated := insert (calls h) (allocated h), unit_size_of := (unit_size_of h)(calls h := u)\<rparr>"
  obtain h' where h': "create_cache_buckets all_ok u ?m 0 h1 = (length (caches h1), h')" "length (caches h') = length (caches h1)" "buckets h' = buckets h1"
    "bucket_map h' = bucket_map h1" "calls h1 \<le> calls h'" "\<forall>n<calls h1. unit_size_of h' n = unit_size_of h1 n"
    using cache_buckets_ok [of 0 h1 u ?m] by auto
  have e: "h\<lparr>calls := Suc (calls h), allocated := insert (calls h) (allocated h), unit_size_of := (unit_size_of h)(calls h := u),
    buckets := map Ptr ids @ Ptr (calls h) # replicate k Null\<rparr> = h1" by (simp add: h1_def)
  have res: "heap_create_alloc_class_buckets all_ok u h = Some (?m, h')"
    using h'(1,2) assms(2) unfolding heap_create_alloc_class_buckets_def slot
    by (simp add: new_bucket_def all_ok_def Let_def e list_update_append)
  have us: "unit_size_of h' i = unit_size_of h i" if "i \<in> set ids" for i using h'(6) assms(1) that by (auto simp: h1_def classes_def)
  have uc: "unit_size_of h' (calls h) = u" using h'(6) by (simp add: h1_def)
  have "buckets h' = map Ptr (ids @ [calls h]) @ replicate (MAX_BUCKETS - length (ids @ [calls h])) Null" using h'(3) k by (simp add: h1_def)
  moreover have "i < calls h' \<and> unit_ok (unit_size_of h' i)" if "i \<in> set (ids @ [calls h])" for i
    using that us uc assms(1,3) h'(5) by (auto simp: classes_def h1_def)
  ultimately have cl: "classes (ids @ [calls h]) h'" using assms(2) by (simp add: classes_def)
  have "unit_size_at h' i = Some w" if w: "unit_size_at h i = Some w" for i w
  proof -
    have i: "i < ?m" using class_unit_None [OF assms(1)] w by (metis option.distinct(1))
    then show ?thesis using class_unit(1) [OF assms(1) i] class_unit(1) [OF cl, of i] us [of "ids ! i"] w by (simp add: nth_append)
  qed
  then have "extends h h'" using h'(4) by (simp add: extends_def h1_def)
  moreover have "unit_size_at h' ?m = Some u" using class_unit(1) [OF cl, of ?m] uc by simp
  ultimately show ?thesis using res cl by blast
qed

subsection \<open>Choosing a class\<close>

lemma reduce_waste_ok: "n \<le> 17408 \<Longrightarrow> n mod 64 = 0 \<Longrightarrow> 0 < n \<Longrightarrow> \<exists>u. reduce_waste n = Some u \<and> n \<le> u \<and> unit_ok u"
proof (induction "17408 - n" arbitrary: n rule: less_induct)
  case less
  show ?case
  proof (cases "RUNSIZE mod n > MAX_RUN_WASTED_BYTES")
    case False
    then show ?thesis using less.prems by (subst reduce_waste.simps) (auto simp: unit_ok_def)
  next
    case True
    have "RUNSIZE mod 17408 \<le> MAX_RUN_WASTED_BYTES" by (simp add: RUNSIZE_def CHUNKSIZE_def RUN_METASIZE_def MAX_RUN_WASTED_BYTES_def)
    then have "n \<noteq> 17408" using True by auto
    moreover obtain q where q: "n = 64 * q" using less.prems(2) by (auto simp: mod_eq_0_iff_dvd dvd_def)
    ultimately have n: "n + 64 \<le> 17408" "(n + 64) mod 64 = 0" using less.prems(1) by simp_all
    have r: "reduce_waste n = reduce_waste (n + 64)"
      using True less.prems(1) by (subst reduce_waste.simps) (simp add: ALLOC_BLOCK_SIZE_def RUNSIZE_def CHUNKSIZE_def RUN_METASIZE_def)
    have "17408 - (n + 64) < 17408 - n" using n(1) by linarith
    from less.hyps [OF this n] obtain u where "reduce_waste (n + 64) = Some u" "n + 64 \<le> u" "unit_ok u" by auto
    then show ?thesis using r by auto
  qed
qed

lemma find_class_ok:
  assumes "classes ids h" "k \<le> MAX_BUCKETS"
  shows "find_class h n k = Some None \<or> (\<exists>i u. find_class h n k = Some (Some i) \<and> i < length ids \<and> unit_size_at h i = Some u \<and> n \<le> 8 * u)"
  using assms(2)
proof (induction k)
  case (Suc k)
  show ?case
  proof (cases "k < length ids")
    case True
    define u where "u = unit_size_of h (ids ! k)"
    note c = class_unit [OF assms(1) True, folded u_def]
    have "n \<le> 8 * u" if "n mod u = 0" "n div u \<le> RUN_UNIT_MAX"
      using that div_mult_mod_eq [of n u] mult_le_mono1 [of "n div u" 8 u] by (simp add: RUN_UNIT_MAX_def)
    note le = this
    have e: "find_class h n (Suc k) = (if n mod u = 0 \<and> n div u \<le> RUN_UNIT_MAX then Some (Some k) else find_class h n k)"
      using c(1,3) by simp
    show ?thesis
    proof (cases "n mod u = 0 \<and> n div u \<le> RUN_UNIT_MAX")
      case fit: True
      then have "find_class h n (Suc k) = Some (Some k)" using e by (simp only: if_True simp_thms)
      moreover have "n \<le> 8 * u" using le fit by (elim conjE)
      ultimately show ?thesis using True c(1) by (intro disjI2 exI [of _ k] exI [of _ u] conjI)
    next
      case nofit: False
      then have "find_class h n (Suc k) = find_class h n k" using e by (simp only: if_False simp_thms)
      then show ?thesis using Suc.IH [OF Suc_leD [OF Suc.prems]] by (simp only:)
    qed
  next
    case False
    then have "buckets h ! k = Null" using assms(1) Suc.prems by (simp add: classes_def nth_append)
    then have "find_class h n (Suc k) = find_class h n k" by simp
    then show ?thesis using Suc.IH [OF Suc_leD [OF Suc.prems]] by (simp only:)
  qed
qed simp

lemma best_class_ok:
  assumes "classes ids h" "length ids < MAX_BUCKETS" "n \<le> 17408" "n mod 64 = 0" "0 < n"
  shows "\<exists>slot h' ids' u. heap_find_or_create_best_alloc_class all_ok n h = Some (slot, h') \<and> slot < MAX_BUCKETS \<and> classes ids' h' \<and> extends h h' \<and>
    length ids \<le> length ids' \<and> length ids' \<le> Suc (length ids) \<and> unit_size_at h' slot = Some u \<and> n \<le> 8 * u"
proof (cases "find_class h n MAX_BUCKETS = Some None")
  case True
  obtain u where u: "reduce_waste n = Some u" "n \<le> u" "unit_ok u" using reduce_waste_ok [OF assms(3-5)] by (elim exE conjE)
  obtain h' where h': "heap_create_alloc_class_buckets all_ok u h = Some (length ids, h')" "classes (ids @ [calls h]) h'" "extends h h'"
    "unit_size_at h' (length ids) = Some u" using create_class_ok [OF assms(1,2) u(3)] by (elim exE conjE)
  have "heap_find_or_create_best_alloc_class all_ok n h = Some (length ids, h')"
    unfolding heap_find_or_create_best_alloc_class_def True by (simp add: u(1) h'(1))
  moreover have "n \<le> 8 * u" using u(2) by linarith
  ultimately show ?thesis using assms(2) h'(2-4)
    by (intro exI [of _ "length ids"] exI [of _ h'] exI [of _ "ids @ [calls h]"] exI [of _ u] conjI) simp_all
next
  case False
  then obtain i u where f: "find_class h n MAX_BUCKETS = Some (Some i)" "i < length ids" "unit_size_at h i = Some u" "n \<le> 8 * u"
    using find_class_ok [OF assms(1) order_refl, of n] by (elim disjE exE conjE) (rule notE)
  have "heap_find_or_create_best_alloc_class all_ok n h = Some (i, h)" unfolding heap_find_or_create_best_alloc_class_def f(1) by simp
  then show ?thesis using assms(1,2) f(2-4)
    by (intro exI [of _ i] exI [of _ h] exI [of _ ids] exI [of _ u] conjI) (simp_all add: extends_def)
qed

lemma register_range:
  assumes "classes ids h" "unit_size_at h slot = Some u" "fin * 64 \<le> 8 * u" "covered_to h N" "start \<le> Suc N" "N \<le> fin"
  shows "classes ids (heap_register_bucket_range slot start fin h)" "covered_to (heap_register_bucket_range slot start fin h) fin"
proof -
  let ?h = "heap_register_bucket_range slot start fin h"
  have us: "unit_size_at ?h = unit_size_at h" by (auto simp: heap_register_bucket_range_def unit_size_at_def fun_eq_iff split: bptr.split)
  show "classes ids ?h" using assms(1) by (simp add: classes_def heap_register_bucket_range_def)
  show "covered_to ?h fin" unfolding covered_to_def us
  proof (intro allI impI)
    fix n assume n: "n \<le> fin"
    show "\<exists>u. unit_size_at h (bucket_map ?h n) = Some u \<and> n * 64 \<le> 8 * u"
    proof (cases "start \<le> n")
      case True
      then show ?thesis using n assms(2,3) by (simp add: heap_register_bucket_range_def)
    next
      case False
      then have "n \<le> N" using assms(5) by simp
      then show ?thesis using False assms(4) by (simp add: heap_register_bucket_range_def covered_to_def)
    qed
  qed
qed

subsection \<open>The categories\<close>

lemma category_step:
  assumes "i + (step - 1) \<le> 256" "0 < step" "0 < i" "classes ids h" "covered_to h (i - 1)" "length ids < MAX_BUCKETS"
  shows "\<exists>slot h1 ids1. heap_find_or_create_best_alloc_class all_ok ((i + (step - 1)) * ALLOC_BLOCK_SIZE) h = Some (slot, h1) \<and> slot < MAX_BUCKETS \<and>
    classes ids1 (heap_register_bucket_range slot i (i + (step - 1)) h1) \<and>
    covered_to (heap_register_bucket_range slot i (i + (step - 1)) h1) (i + (step - 1)) \<and> length ids1 \<le> Suc (length ids) \<and> 0 < length ids1"
proof -
  let ?e = "i + (step - 1)"
  have n: "?e * ALLOC_BLOCK_SIZE \<le> 17408" "?e * ALLOC_BLOCK_SIZE mod 64 = 0" "0 < ?e * ALLOC_BLOCK_SIZE"
    using assms(1,3) by (simp_all add: ALLOC_BLOCK_SIZE_def)
  obtain slot h1 ids1 u where b: "heap_find_or_create_best_alloc_class all_ok (?e * ALLOC_BLOCK_SIZE) h = Some (slot, h1)" "slot < MAX_BUCKETS"
    "classes ids1 h1" "extends h h1" "length ids1 \<le> Suc (length ids)" "unit_size_at h1 slot = Some u" "?e * ALLOC_BLOCK_SIZE \<le> 8 * u"
    using best_class_ok [OF assms(4,6) n] by (elim exE conjE)
  have c: "covered_to h1 (i - 1)" using covered_extends assms(5) b(4) .
  have e: "?e * 64 \<le> 8 * u" "i \<le> Suc (i - 1)" "i - 1 \<le> ?e" using b(7) assms(3) by (simp_all add: ALLOC_BLOCK_SIZE_def)
  note r = register_range [OF b(3,6) e(1) c e(2,3)]
  have "slot < length ids1" using class_unit_None [OF b(3)] b(6) by (metis option.distinct(1))
  then have "0 < length ids1" by linarith
  then show ?thesis using b(1,2,5) r by (intro exI [of _ slot] exI [of _ h1] exI [of _ ids1] conjI)
qed

lemma category_ok:
  assumes "i + d * step = Suc hi" "0 < step" "0 < i" "hi \<le> 256" "classes ids h" "covered_to h (i - 1)" "length ids + d \<le> MAX_BUCKETS" "0 < length ids"
  shows "\<exists>h' ids'. category_loop all_ok hi step i sz h = Some (True, if d = 0 then sz else hi, h') \<and> classes ids' h' \<and> covered_to h' hi \<and>
    length ids' \<le> length ids + d \<and> 0 < length ids'"
  using assms
proof (induction d arbitrary: i sz h ids)
  case 0
  then have i: "i = Suc hi" by simp
  then have "category_loop all_ok hi step i sz h = Some (True, sz, h)" "i - 1 = hi" by (subst category_loop.simps, simp_all)
  then show ?case using 0 by (intro exI [of _ h] exI [of _ ids]) simp
next
  case (Suc d)
  let ?e = "i + (step - 1)"
  have i: "i \<le> hi" "?e \<le> 256" "length ids < MAX_BUCKETS" using Suc.prems by simp_all
  have nx: "i + step + d * step = Suc hi" "0 < i + step" "i + step - 1 = ?e" using Suc.prems(1-3) by simp_all
  obtain slot h1 ids1 where s: "heap_find_or_create_best_alloc_class all_ok (?e * ALLOC_BLOCK_SIZE) h = Some (slot, h1)" "slot < MAX_BUCKETS"
    "classes ids1 (heap_register_bucket_range slot i ?e h1)" "covered_to (heap_register_bucket_range slot i ?e h1) ?e"
    "length ids1 \<le> Suc (length ids)" "0 < length ids1"
    using category_step [OF i(2) Suc.prems(2,3,5,6) i(3)] by (elim exE conjE)
  let ?h = "heap_register_bucket_range slot i ?e h1"
  have step: "category_loop all_ok hi step i sz h = category_loop all_ok hi step (i + step) ?e ?h"
    using i(1) s(1,2) Suc.prems(2) by (subst category_loop.simps) simp
  have cv: "covered_to ?h (i + step - 1)" unfolding nx(3) by (rule s(4))
  have l: "length ids1 + d \<le> MAX_BUCKETS" using s(5) Suc.prems(7) by simp
  obtain h' ids' where h': "category_loop all_ok hi step (i + step) ?e ?h = Some (True, if d = 0 then ?e else hi, h')" "classes ids' h'" "covered_to h' hi"
    "length ids' \<le> length ids1 + d" "0 < length ids'"
    using Suc.IH [OF nx(1) Suc.prems(2) nx(2) Suc.prems(4) s(3) cv l s(6), of ?e] by (elim exE conjE)
  have "(if d = 0 then ?e else hi) = hi" using nx(1) Suc.prems(2) by auto
  then show ?case using step h' s(5) by (intro exI [of _ h'] exI [of _ ids'] conjI) simp_all
qed

lemma categories_ok:
  assumes "classes ids h" "covered_to h 2" "length ids = 1"
  shows "\<exists>h' ids'. categories_loop all_ok categories 0 h = Some (True, 256, h') \<and> classes ids' h' \<and> covered_to h' 256 \<and> 0 < length ids'"
proof -
  obtain h1 ids1 where 1: "category_loop all_ok 16 1 3 0 h = Some (True, 16, h1)" "classes ids1 h1" "covered_to h1 16" "length ids1 \<le> 15" "0 < length ids1"
    using category_ok [of 3 14 1 16 ids h 0] assms by (auto simp: MAX_BUCKETS_def)
  obtain h2 ids2 where 2: "category_loop all_ok 64 2 17 16 h1 = Some (True, 64, h2)" "classes ids2 h2" "covered_to h2 64" "length ids2 \<le> 39" "0 < length ids2"
    using category_ok [of 17 24 2 64 ids1 h1 16] 1 by (auto simp: MAX_BUCKETS_def)
  obtain h3 ids3 where 3: "category_loop all_ok 256 4 65 64 h2 = Some (True, 256, h3)" "classes ids3 h3" "covered_to h3 256" "0 < length ids3"
    using category_ok [of 65 48 4 256 ids2 h2 64] 2 by (auto simp: MAX_BUCKETS_def)
  have 4: "category_loop all_ok 0 0 257 256 h3 = Some (True, 256, h3)" by (simp add: category_loop.simps)
  have "categories_loop all_ok categories 0 h = Some (True, 256, h3)" using 1(1) 2(1) 3(1) 4 by (simp add: categories_def)
  then show ?thesis using 3 by blast
qed

subsection \<open>The whole map\<close>

lemma largest_slot_classes:
  assumes "classes ids h" "0 < length ids" "length ids \<le> Suc n" "n < MAX_BUCKETS"
  shows "largest_slot (buckets h) n = length ids - 1"
  using assms(3,4)
proof (induction n)
  case (Suc n)
  show ?case
  proof (cases "length ids = Suc (Suc n)")
    case True
    then show ?thesis using class_unit(3) [OF assms(1), of "Suc n"] by simp
  next
    case False
    then have "buckets h ! Suc n = Null" using assms(1) Suc.prems by (simp add: classes_def nth_append)
    then show ?thesis using Suc False by simp
  qed
qed (use assms(2) in simp)

lemma unit_ok_nallocs: "unit_ok u \<Longrightarrow> 8 \<le> RUNSIZE div u"
proof -
  assume u: "unit_ok u"
  have "8 * u \<le> RUNSIZE" using u by (simp add: unit_ok_def RUNSIZE_def CHUNKSIZE_def RUN_METASIZE_def)
  then show ?thesis using u by (simp add: unit_ok_def less_eq_div_iff_mult_less_eq)
qed

lemma blocks_bound:
  assumes "1 \<le> s" "SIZE_TO_ALLOC_BLOCKS s * 64 \<le> 8 * u"
  shows "(s - 1) div u + 1 \<le> RUN_UNIT_MAX"
proof -
  have "(s - 1) div 64 * 64 + (s - 1) mod 64 = s - 1" "(s - 1) mod 64 < 64" by simp_all
  then have "s \<le> SIZE_TO_ALLOC_BLOCKS s * 64" using assms(1) by (simp add: SIZE_TO_ALLOC_BLOCKS_def ALLOC_BLOCK_SIZE_def)
  then have "s - 1 < 8 * u" using assms by linarith
  then have "(s - 1) div u < 8" by (simp add: less_mult_imp_div_less)
  then show ?thesis by (simp add: RUN_UNIT_MAX_def)
qed

lemma init_created:
  "\<exists>h h' ids. new_bucket all_ok CHUNKSIZE ((new_heap k)\<lparr>last_run_max_size := MAX_RUN_SIZE\<rparr>) = (Ptr 0, h) \<and>
     heap_create_alloc_class_buckets all_ok MIN_RUN_SIZE (h\<lparr>default_bucket := Ptr 0\<rparr>) = Some (0, h') \<and>
     classes ids (heap_register_bucket_range 0 0 2 h') \<and> covered_to (heap_register_bucket_range 0 0 2 h') 2 \<and> length ids = 1"
proof -
  define h where "h = snd (new_bucket all_ok CHUNKSIZE ((new_heap k)\<lparr>last_run_max_size := MAX_RUN_SIZE\<rparr>))"
  have n: "new_bucket all_ok CHUNKSIZE ((new_heap k)\<lparr>last_run_max_size := MAX_RUN_SIZE\<rparr>) = (Ptr 0, h)"
    by (simp add: h_def new_bucket_def all_ok_def Let_def new_heap_def)
  have cl: "classes [] (h\<lparr>default_bucket := Ptr 0\<rparr>)"
    by (simp add: h_def new_bucket_def all_ok_def Let_def classes_def new_heap_def bucket_group_init_def)
  have u: "unit_ok MIN_RUN_SIZE" by (simp add: unit_ok_def MIN_RUN_SIZE_def)
  have z: "length ([] :: nat list) < MAX_BUCKETS" by (simp add: MAX_BUCKETS_def)
  obtain h' where h': "heap_create_alloc_class_buckets all_ok MIN_RUN_SIZE (h\<lparr>default_bucket := Ptr 0\<rparr>) = Some (0, h')"
    "classes [calls (h\<lparr>default_bucket := Ptr 0\<rparr>)] h'" "unit_size_at h' 0 = Some MIN_RUN_SIZE"
    using create_class_ok [OF cl z u] by auto
  have r: "classes [calls (h\<lparr>default_bucket := Ptr 0\<rparr>)] (heap_register_bucket_range 0 0 2 h')" using h'(2) by (simp add: classes_def heap_register_bucket_range_def)
  have "unit_size_at (heap_register_bucket_range 0 0 2 h') 0 = Some MIN_RUN_SIZE" using class_unit(1) [OF r, of 0] class_unit(1) [OF h'(2), of 0] h'(3)
    by (simp add: heap_register_bucket_range_def)
  then have "covered_to (heap_register_bucket_range 0 0 2 h') 2" by (simp add: covered_to_def heap_register_bucket_range_def MIN_RUN_SIZE_def)
  then show ?thesis using n h'(1) r by (intro exI [of _ h] exI [of _ h'] exI [of _ "[calls (h\<lparr>default_bucket := Ptr 0\<rparr>)]"] conjI) simp_all
qed

lemma init_finish:
  assumes "classes ids h" "covered_to h 256" "0 < length ids"
  shows "\<exists>u. unit_size_at h (largest_slot (buckets h) (MAX_BUCKETS - 1)) = Some u \<and> unit_ok u \<and> largest_slot (buckets h) (MAX_BUCKETS - 1) < MAX_BUCKETS \<and>
    (let m = min MAX_RUN_SIZE (u * min (RUNSIZE div u) RUN_UNIT_MAX);
         h' = heap_register_bucket_range (largest_slot (buckets h) (MAX_BUCKETS - 1)) 256 (m div ALLOC_BLOCK_SIZE) (h\<lparr>last_run_max_size := m\<rparr>)
     in classes ids h' \<and> covered_to h' (m div ALLOC_BLOCK_SIZE))"
proof -
  have n: "length ids \<le> Suc (MAX_BUCKETS - 1)" "MAX_BUCKETS - 1 < MAX_BUCKETS" using assms(1) by (simp_all add: classes_def MAX_BUCKETS_def)
  let ?slot = "length ids - 1"
  have slot: "largest_slot (buckets h) (MAX_BUCKETS - 1) = ?slot" "?slot < length ids" using largest_slot_classes [OF assms(1,3) n] assms(3) by simp_all
  obtain u where u: "unit_size_at h ?slot = Some u" "unit_ok u" using class_unit(1,2) [OF assms(1) slot(2)] by blast
  define m where "m = min MAX_RUN_SIZE (u * min (RUNSIZE div u) RUN_UNIT_MAX)"
  define h0 where "h0 = h\<lparr>last_run_max_size := m\<rparr>"
  have "m \<le> 8 * u" using unit_ok_nallocs [OF u(2)] by (simp add: m_def RUN_UNIT_MAX_def min_def)
  then have e: "m div ALLOC_BLOCK_SIZE * 64 \<le> 8 * u" using div_times_less_eq_dividend [of m 64] by (simp add: ALLOC_BLOCK_SIZE_def del: div_times_less_eq_dividend)
  have us: "unit_size_at h0 = unit_size_at h" by (auto simp: h0_def unit_size_at_def fun_eq_iff split: bptr.split)
  have h0: "classes ids h0" using assms(1) by (simp add: classes_def h0_def)
  let ?f = "m div ALLOC_BLOCK_SIZE"
  have c0: "covered_to h0 (min 256 ?f)" using assms(2) by (simp add: covered_to_def us) (simp add: h0_def)
  have fin: "classes ids (heap_register_bucket_range ?slot 256 ?f h0) \<and> covered_to (heap_register_bucket_range ?slot 256 ?f h0) ?f"
  proof (cases "256 \<le> ?f")
    case True
    have u0: "unit_size_at h0 ?slot = Some u" using u(1) by (simp add: us)
    then show ?thesis using register_range [OF h0 u0 e c0, of 256] True by (simp add: min_def)
  next
    case False
    then have "heap_register_bucket_range ?slot 256 ?f h0 = h0" by (auto simp: heap_register_bucket_range_def intro!: pmalloc_heap.equality)
    then show ?thesis using h0 c0 False by (simp add: min_def)
  qed
  have "?slot < MAX_BUCKETS" using slot(2) assms(1) by (simp add: classes_def)
  then show ?thesis unfolding slot(1) using u fin by (intro exI [of _ u] conjI) (simp_all only: Let_def m_def [symmetric] h0_def [symmetric])
qed

lemma run_max_multiple: "unit_ok u \<Longrightarrow> min MAX_RUN_SIZE (u * min (RUNSIZE div u) RUN_UNIT_MAX) mod 64 = 0"
  by (auto simp: min_def unit_ok_def MAX_RUN_SIZE_def CHUNKSIZE_def mod_eq_0_iff_dvd)

lemma run_max_bounds:
  "unit_ok u \<Longrightarrow> 0 < min MAX_RUN_SIZE (u * min (RUNSIZE div u) RUN_UNIT_MAX) \<and> min MAX_RUN_SIZE (u * min (RUNSIZE div u) RUN_UNIT_MAX) \<le> MAX_RUN_SIZE"
  using unit_ok_nallocs [of u] by (simp add: unit_ok_def MAX_RUN_SIZE_def CHUNKSIZE_def RUN_UNIT_MAX_def)

lemma class_serves:
  assumes "classes ids h" "covered_to h (m div ALLOC_BLOCK_SIZE)" "1 \<le> s" "s \<le> m" "m mod 64 = 0"
  shows "\<exists>u. SIZE_TO_BID h s < MAX_BUCKETS \<and> unit_size_at h (SIZE_TO_BID h s) = Some u \<and> 0 < u \<and>
    (s - 1) div u + 1 \<le> RUN_UNIT_MAX \<and> ((s - 1) div u + 1) * u \<le> RUNSIZE"
proof -
  obtain q where q: "m = 64 * q" using assms(5) by (auto simp: mod_eq_0_iff_dvd dvd_def)
  have "(s - 1) div 64 < q" using assms(3,4) q by (simp add: less_mult_imp_div_less mult.commute)
  then have "SIZE_TO_ALLOC_BLOCKS s \<le> m div ALLOC_BLOCK_SIZE" using q assms(3) by (simp add: SIZE_TO_ALLOC_BLOCKS_def ALLOC_BLOCK_SIZE_def)
  then obtain u where u: "unit_size_at h (SIZE_TO_BID h s) = Some u" "SIZE_TO_ALLOC_BLOCKS s * 64 \<le> 8 * u"
    using assms(2) by (auto simp: covered_to_def SIZE_TO_BID_def)
  have b: "SIZE_TO_BID h s < length ids" using class_unit_None [OF assms(1)] u(1) by (metis option.distinct(1))
  then have uo: "unit_ok u" using class_unit(1,2) [OF assms(1) b] u(1) by simp
  have r: "(s - 1) div u + 1 \<le> RUN_UNIT_MAX" using blocks_bound [OF assms(3) u(2)] .
  have "8 * u \<le> RUNSIZE" using uo by (simp add: unit_ok_def RUNSIZE_def CHUNKSIZE_def RUN_METASIZE_def)
  then have "((s - 1) div u + 1) * u \<le> RUNSIZE" using mult_le_mono1 [OF r [unfolded RUN_UNIT_MAX_def], of u] by (rule order_trans [rotated])
  moreover have "SIZE_TO_BID h s < MAX_BUCKETS" using b assms(1) by (simp add: classes_def)
  ultimately show ?thesis using u(1) uo r by (intro exI [of _ u]) (simp add: unit_ok_def)
qed

text \<open>C39: Initialisation succeeds when every allocation does, whatever the number of caches, and leaves a map in which every size up to \<open>last_run_max_size\<close>
  has a bucket that can serve it: the blocks of its unit size that the request needs are at most \<open>RUN_UNIT_MAX\<close> and fit a run. The search of the classes, the
  rounding against wasted bytes and the slots of the buckets never run out.\<close>

theorem alloc_classes_serve_all:
  "\<exists>h. heap_buckets_init True all_ok (new_heap k) = Some (0, h) \<and> 0 < last_run_max_size h \<and> last_run_max_size h \<le> MAX_RUN_SIZE \<and>
     (\<forall>s. 1 \<le> s \<longrightarrow> s \<le> last_run_max_size h \<longrightarrow> (\<exists>u. SIZE_TO_BID h s < MAX_BUCKETS \<and> unit_size_at h (SIZE_TO_BID h s) = Some u \<and> 0 < u \<and>
        (s - 1) div u + 1 \<le> RUN_UNIT_MAX \<and> ((s - 1) div u + 1) * u \<le> RUNSIZE))"
proof -
  obtain h0 h1 ids1 where i: "new_bucket all_ok CHUNKSIZE ((new_heap k)\<lparr>last_run_max_size := MAX_RUN_SIZE\<rparr>) = (Ptr 0, h0)"
    "heap_create_alloc_class_buckets all_ok MIN_RUN_SIZE (h0\<lparr>default_bucket := Ptr 0\<rparr>) = Some (0, h1)"
    "classes ids1 (heap_register_bucket_range 0 0 2 h1)" "covered_to (heap_register_bucket_range 0 0 2 h1) 2" "length ids1 = 1"
    using init_created [of k] by (elim exE conjE)
  obtain h2 ids where c: "categories_loop all_ok categories 0 (heap_register_bucket_range 0 0 2 h1) = Some (True, 256, h2)" "classes ids h2" "covered_to h2 256"
    "0 < length ids" using categories_ok [OF i(3-5)] by (elim exE conjE)
  define slot where "slot = largest_slot (buckets h2) (MAX_BUCKETS - 1)"
  obtain u where u: "unit_size_at h2 slot = Some u" "unit_ok u"
    "let m = min MAX_RUN_SIZE (u * min (RUNSIZE div u) RUN_UNIT_MAX); h' = heap_register_bucket_range slot 256 (m div ALLOC_BLOCK_SIZE) (h2\<lparr>last_run_max_size := m\<rparr>)
     in classes ids h' \<and> covered_to h' (m div ALLOC_BLOCK_SIZE)" using init_finish [OF c(2-4)] unfolding slot_def by (elim exE conjE)
  define m where "m = min MAX_RUN_SIZE (u * min (RUNSIZE div u) RUN_UNIT_MAX)"
  define h where "h = heap_register_bucket_range slot 256 (m div ALLOC_BLOCK_SIZE) (h2\<lparr>last_run_max_size := m\<rparr>)"
  have res: "heap_buckets_init True all_ok (new_heap k) = Some (0, h)" unfolding heap_buckets_init_def Let_def i(1)
    using u(1) by (auto simp: i(2) c(1) MAX_BUCKETS_def slot_def h_def m_def)
  have h: "classes ids h" "covered_to h (m div ALLOC_BLOCK_SIZE)" "last_run_max_size h = m"
    using u(3) by (simp_all add: Let_def h_def heap_register_bucket_range_def flip: m_def)
  note serves = class_serves [OF h(1,2) _ _ run_max_multiple [OF u(2), folded m_def]]
  have b: "0 < m" "m \<le> MAX_RUN_SIZE" using run_max_bounds [OF u(2), folded m_def] by (rule conjunct1, rule conjunct2)
  show ?thesis by (intro exI [of _ h] conjI allI impI; (unfold h(3))?; (rule res b serves | assumption)+)
qed

theorem alloc_classes_serve_all_witness:
  "\<exists>h u. heap_buckets_init True all_ok (new_heap 2) = Some (0, h) \<and> unit_size_at h (SIZE_TO_BID h 1) = Some u \<and> 0 < u \<and> u \<le> RUNSIZE"
proof -
  obtain h where h: "heap_buckets_init True all_ok (new_heap 2) = Some (0, h)" "0 < last_run_max_size h"
    "\<And>s. 1 \<le> s \<Longrightarrow> s \<le> last_run_max_size h \<Longrightarrow> \<exists>u. SIZE_TO_BID h s < MAX_BUCKETS \<and> unit_size_at h (SIZE_TO_BID h s) = Some u \<and> 0 < u \<and>
        (s - 1) div u + 1 \<le> RUN_UNIT_MAX \<and> ((s - 1) div u + 1) * u \<le> RUNSIZE"
    using alloc_classes_serve_all [of 2] by (elim exE conjE) presburger
  then show ?thesis using h(3) [of 1] by auto
qed

end
