(* ===== verification/Plist.thy ===== *)
theory Plist
  imports Redo_Props
begin

text \<open>
  Persistent lists, \<open>src/nvml/src/libpmemobj/list.c\<close>: circular doubly linked lists of objects, changed through the redo log of a lane. Pointers into the pool
  are pool offsets, so a field is the word \<open>Data off\<close> of the memory of \<open>Redo_Log\<close>. Each function is the list of its memory operations; functions that fill the
  log also return the next index. The lane is held by the calling thread. \<open>lk\<close> is the result of \<open>pmemobj_mutex_lock\<close> for a lock, and the lock operations that
  succeed are returned as well. The \<open>ASSERT\<close>s of debug builds appear as hypotheses. Calls of the allocator are not part of this theory: \<open>list_insert_new\<close>
  starts from the result of its allocation and the memory after it, and \<open>list_remove_free\<close> ends before its call of \<open>pfree\<close>.
\<close>

type_synonym list_events = "(redo_log, u64) ev list"

subsection \<open>Data\<close>

definition NEXT_OFF :: u64 where "NEXT_OFF = 8"
definition PREV_OFF :: u64 where "PREV_OFF = 24"

record PMEMoid =
  pool_uuid_lo :: u64
  oid_off :: u64

record list_args_common =
  c_pe_offset :: u64
  c_obj_doffset :: u64
  c_entry_ptr :: u64

record list_args_insert =
  i_head :: u64
  i_dest :: PMEMoid
  i_dest_entry_ptr :: u64
  i_before :: bool

record list_args_remove =
  r_pe_offset :: u64
  r_obj_doffset :: u64
  r_head :: u64
  r_entry_ptr :: u64

text \<open>Fields: a \<open>PMEMoid\<close> is the uuid of its pool and the offset; a list entry is the next and the previous object, a list head the first object and the lock.\<close>

definition oid_at :: "redo_mem \<Rightarrow> u64 \<Rightarrow> PMEMoid" where
  "oid_at m a = \<lparr>pool_uuid_lo = m (Data a), oid_off = m (Data (a + 8))\<rparr>"

definition pe_first :: "redo_mem \<Rightarrow> u64 \<Rightarrow> PMEMoid" where
  "pe_first m head = oid_at m head"

definition pe_next :: "redo_mem \<Rightarrow> u64 \<Rightarrow> PMEMoid" where
  "pe_next m e = oid_at m e"

definition pe_prev :: "redo_mem \<Rightarrow> u64 \<Rightarrow> PMEMoid" where
  "pe_prev m e = oid_at m (e + 16)"

definition head_lock :: "u64 \<Rightarrow> u64" where
  "head_lock head = head + 16"

subsection \<open>Locks\<close>

datatype lock_op = MutexLock u64 | MutexUnlock u64

definition list_mutexes_lock :: "(u64 \<Rightarrow> int) \<Rightarrow> u64 \<Rightarrow> u64 option \<Rightarrow> int \<times> lock_op list" where
  "list_mutexes_lock lk head1 head2 =
     (if head2 = None \<or> head2 = Some head1
      then let l = head_lock head1 in (lk l, if lk l = 0 then [MutexLock l] else [])
      else let (lock1, lock2) = (if head_lock head1 < head_lock (the head2) then (head_lock head1, head_lock (the head2))
                                 else (head_lock (the head2), head_lock head1))
           in if lk lock1 \<noteq> 0 then (lk lock1, [])
              else if lk lock2 \<noteq> 0 then (lk lock2, [MutexLock lock1, MutexUnlock lock1])
              else (0, [MutexLock lock1, MutexLock lock2]))"

definition list_mutexes_unlock :: "u64 \<Rightarrow> u64 option \<Rightarrow> lock_op list" where
  "list_mutexes_unlock head1 head2 =
     (if head2 = None \<or> head2 = Some head1 then [MutexUnlock (head_lock head1)]
      else [MutexUnlock (head_lock head1), MutexUnlock (head_lock (the head2))])"

subsection \<open>Filling the log\<close>

definition list_get_dest :: "redo_mem \<Rightarrow> u64 \<Rightarrow> PMEMoid \<Rightarrow> u64 \<Rightarrow> bool \<Rightarrow> PMEMoid" where
  "list_get_dest m head dest pe_offset before =
     (if oid_off dest \<noteq> 0 then dest
      else if oid_off (pe_first m head) = 0 \<or> before then pe_first m head
      else pe_prev m (oid_off (pe_first m head) + pe_offset))"

definition list_set_oid_redo_log :: "u64 \<Rightarrow> redo_mem \<Rightarrow> nat \<Rightarrow> u64 \<Rightarrow> u64 \<Rightarrow> bool \<Rightarrow> nat \<times> list_events" where
  "list_set_oid_redo_log uuid m redo_index oidp obj_doffset oidp_inited =
     (if \<not> oidp_inited \<or> pool_uuid_lo (oid_at m oidp) \<noteq> uuid
      then (redo_index + 2, redo_log_store redo_index oidp uuid @ redo_log_store (redo_index + 1) (oidp + 8) obj_doffset)
      else (redo_index + 1, redo_log_store redo_index (oidp + 8) obj_doffset))"

definition list_update_head :: "u64 \<Rightarrow> redo_mem \<Rightarrow> nat \<Rightarrow> u64 \<Rightarrow> u64 \<Rightarrow> nat \<times> list_events" where
  "list_update_head uuid m redo_index head first_offset =
     (let first = redo_log_store redo_index (head + 8) first_offset
      in if pool_uuid_lo (pe_first m head) = 0 then (redo_index + 2, first @ redo_log_store (redo_index + 1) head uuid)
         else (redo_index + 1, first))"

text \<open>\<open>ssize_t\<close> is a word read as a signed number.\<close>

definition u64_add_offset :: "u64 \<Rightarrow> u64 \<Rightarrow> u64" where
  "u64_add_offset v off = (if 0 \<le>s off then v + off else v - (- off))"

definition entry_words :: "u64 \<Rightarrow> u64 list" where
  "entry_words e = [e, e + 8, e + 16, e + 24]"

definition list_fill_entry_persist :: "u64 \<Rightarrow> u64 \<Rightarrow> u64 \<Rightarrow> u64 \<Rightarrow> list_events" where
  "list_fill_entry_persist uuid entry_ptr next_offset prev_offset =
     [Store (Data entry_ptr) uuid, Store (Data (entry_ptr + 8)) next_offset,
      Store (Data (entry_ptr + 16)) uuid, Store (Data (entry_ptr + 24)) prev_offset] @
     persist (map Data (entry_words entry_ptr))"

definition list_fill_entry_redo_log ::
  "u64 \<Rightarrow> nat \<Rightarrow> list_args_common \<Rightarrow> u64 \<Rightarrow> u64 \<Rightarrow> bool \<Rightarrow> nat \<times> list_events" where
  "list_fill_entry_redo_log uuid redo_index args next_offset prev_offset set_uuid =
     (let next_off_off = u64_add_offset (c_obj_doffset args + NEXT_OFF) (c_pe_offset args);
          prev_off_off = u64_add_offset (c_obj_doffset args + PREV_OFF) (c_pe_offset args)
      in (redo_index + 2,
          (if set_uuid
           then [Store (Data (c_entry_ptr args)) uuid, Store (Data (c_entry_ptr args + 16)) uuid] @ persist (map Data (entry_words (c_entry_ptr args)))
           else []) @
          redo_log_store redo_index next_off_off next_offset @ redo_log_store (redo_index + 1) prev_off_off prev_offset))"

definition list_remove_single :: "u64 \<Rightarrow> redo_mem \<Rightarrow> nat \<Rightarrow> list_args_remove \<Rightarrow> nat \<times> list_events" where
  "list_remove_single uuid m redo_index args =
     (if oid_off (pe_next m (r_entry_ptr args)) = r_obj_doffset args then list_update_head uuid m redo_index (r_head args) 0
      else let next_off = oid_off (pe_next m (r_entry_ptr args));
               next_prev_off = u64_add_offset (next_off + PREV_OFF) (r_pe_offset args);
               prev_off = oid_off (pe_prev m (r_entry_ptr args));
               prev_next_off = u64_add_offset (prev_off + NEXT_OFF) (r_pe_offset args);
               evs = redo_log_store redo_index next_prev_off prev_off @ redo_log_store (redo_index + 1) prev_next_off next_off;
               redo_index = redo_index + 2
           in if oid_off (pe_first m (r_head args)) = r_obj_doffset args
              then let (redo_index, upd) = list_update_head uuid m redo_index (r_head args) next_off in (redo_index, evs @ upd)
              else (redo_index, evs))"

text \<open>The insertions also give the offsets of the next and the previous object of the new entry.\<close>

definition list_insert_before ::
  "redo_mem \<Rightarrow> nat \<Rightarrow> list_args_insert \<Rightarrow> list_args_common \<Rightarrow> nat \<times> list_events \<times> u64 \<times> u64" where
  "list_insert_before m redo_index args args_common =
     (let next_offset = oid_off (i_dest args);
          prev_offset = oid_off (pe_prev m (i_dest_entry_ptr args));
          dest_prev_off = u64_add_offset (oid_off (i_dest args) + PREV_OFF) (c_pe_offset args_common);
          dest_prev_next_off = u64_add_offset (oid_off (pe_prev m (i_dest_entry_ptr args)) + NEXT_OFF) (c_pe_offset args_common)
      in (redo_index + 2,
          redo_log_store redo_index dest_prev_off (c_obj_doffset args_common) @
          redo_log_store (redo_index + 1) dest_prev_next_off (c_obj_doffset args_common), next_offset, prev_offset))"

definition list_insert_after ::
  "redo_mem \<Rightarrow> nat \<Rightarrow> list_args_insert \<Rightarrow> list_args_common \<Rightarrow> nat \<times> list_events \<times> u64 \<times> u64" where
  "list_insert_after m redo_index args args_common =
     (let next_offset = oid_off (pe_next m (i_dest_entry_ptr args));
          prev_offset = oid_off (i_dest args);
          dest_next_off = u64_add_offset (oid_off (i_dest args) + NEXT_OFF) (c_pe_offset args_common);
          dest_next_prev_off = u64_add_offset (oid_off (pe_next m (i_dest_entry_ptr args)) + PREV_OFF) (c_pe_offset args_common)
      in (redo_index + 2,
          redo_log_store redo_index dest_next_off (c_obj_doffset args_common) @
          redo_log_store (redo_index + 1) dest_next_prev_off (c_obj_doffset args_common), next_offset, prev_offset))"

definition list_insert_user ::
  "u64 \<Rightarrow> redo_mem \<Rightarrow> nat \<Rightarrow> list_args_insert \<Rightarrow> list_args_common \<Rightarrow> nat \<times> list_events \<times> u64 \<times> u64" where
  "list_insert_user uuid m redo_index args args_common =
     (let obj = c_obj_doffset args_common
      in if oid_off (i_dest args) = 0
         then let (redo_index, upd) = list_update_head uuid m redo_index (i_head args) obj in (redo_index, upd, obj, obj)
         else if i_before args
         then let (redo_index, evs, next_offset, prev_offset) = list_insert_before m redo_index args args_common
              in if oid_off (i_dest args) = oid_off (pe_first m (i_head args))
                 then let (redo_index, upd) = list_update_head uuid m redo_index (i_head args) obj
                      in (redo_index, evs @ upd, next_offset, prev_offset)
                 else (redo_index, evs, next_offset, prev_offset)
         else list_insert_after m redo_index args args_common)"

text \<open>The ends of the operations: \<open>redo_log_set_last\<close> or \<open>redo_log_store_last\<close>, then \<open>redo_log_process\<close>.\<close>

definition process_log :: "redo_mem \<Rightarrow> list_events \<Rightarrow> list_events option" where
  "process_log m evs = map_option (\<lambda>process. evs @ process) (redo_log_process (cache (run evs (boot m))) REDO_NUM_ENTRIES)"

definition redo_last :: "redo_mem \<Rightarrow> nat \<times> list_events \<Rightarrow> list_events option" where
  "redo_last m r = (case r of (redo_index, evs) \<Rightarrow> process_log m (evs @ redo_log_set_last (cache (run evs (boot m))) (redo_index - 1)))"

definition redo_store_last :: "redo_mem \<Rightarrow> nat \<times> list_events \<Rightarrow> u64 \<Rightarrow> u64 \<Rightarrow> list_events option" where
  "redo_store_last m r off v = (case r of (redo_index, evs) \<Rightarrow> process_log m (evs @ redo_log_store_last redo_index off v))"

subsection \<open>Operations\<close>

definition list_insert ::
  "u64 \<Rightarrow> (u64 \<Rightarrow> int) \<Rightarrow> redo_mem \<Rightarrow> u64 \<Rightarrow> u64 \<Rightarrow> PMEMoid \<Rightarrow> bool \<Rightarrow> PMEMoid \<Rightarrow> (int \<times> lock_op list \<times> list_events) option" where
  "list_insert uuid lk m pe_offset head dest before oid =
     (let lock = head_lock head
      in if lk lock \<noteq> 0 then Some (lk lock, [], [])
         else let dest = list_get_dest m head dest pe_offset before;
                  args = \<lparr>i_head = head, i_dest = dest, i_dest_entry_ptr = oid_off dest + pe_offset, i_before = before\<rparr>;
                  args_common = \<lparr>c_pe_offset = pe_offset, c_obj_doffset = oid_off oid, c_entry_ptr = oid_off oid + pe_offset\<rparr>;
                  (redo_index, evs, next_offset, prev_offset) = list_insert_user uuid m 0 args args_common;
                  (redo_index, fill) = list_fill_entry_redo_log uuid redo_index args_common next_offset prev_offset True
              in map_option (\<lambda>evs. (0, [MutexLock lock, MutexUnlock lock], evs)) (redo_last m (redo_index, evs @ fill)))"

definition list_remove ::
  "u64 \<Rightarrow> (u64 \<Rightarrow> int) \<Rightarrow> redo_mem \<Rightarrow> u64 \<Rightarrow> u64 \<Rightarrow> PMEMoid \<Rightarrow> (int \<times> lock_op list \<times> list_events) option" where
  "list_remove uuid lk m pe_offset head oid =
     (let lock = head_lock head
      in if lk lock \<noteq> 0 then Some (lk lock, [], [])
         else let entry_ptr = oid_off oid + pe_offset;
                  args = \<lparr>r_pe_offset = pe_offset, r_obj_doffset = oid_off oid, r_head = head, r_entry_ptr = entry_ptr\<rparr>;
                  args_common = \<lparr>c_pe_offset = pe_offset, c_obj_doffset = oid_off oid, c_entry_ptr = entry_ptr\<rparr>;
                  (redo_index, evs) = list_remove_single uuid m 0 args;
                  (redo_index, fill) = list_fill_entry_redo_log uuid redo_index args_common 0 0 False
              in map_option (\<lambda>evs. (0, [MutexLock lock, MutexUnlock lock], evs)) (redo_last m (redo_index, evs @ fill)))"

text \<open>The log of \<open>list_move\<close>; \<open>None\<close> when nothing is to do.\<close>

definition move_log ::
  "u64 \<Rightarrow> redo_mem \<Rightarrow> u64 \<Rightarrow> u64 \<Rightarrow> u64 \<Rightarrow> u64 \<Rightarrow> PMEMoid \<Rightarrow> bool \<Rightarrow> PMEMoid \<Rightarrow> (nat \<times> list_events) option" where
  "move_log uuid m pe_offset_old head_old pe_offset_new head_new dest before oid =
     (let entry_ptr_old = oid_off oid + pe_offset_old;
          entry_ptr_new = oid_off oid + pe_offset_new;
          dest_entry_ptr = oid_off dest + pe_offset_new;
          same = (head_old = head_new)
      in if same \<and> oid_off dest = oid_off oid then None
         else if same \<and> before \<and> oid_off (pe_prev m dest_entry_ptr) = oid_off oid
         then if oid_off (pe_first m head_old) \<noteq> oid_off dest then None else Some (list_update_head uuid m 0 head_old (oid_off oid))
         else if same \<and> \<not> before \<and> oid_off (pe_next m dest_entry_ptr) = oid_off oid
         then if oid_off (pe_first m head_old) \<noteq> oid_off oid then None
              else Some (list_update_head uuid m 0 head_old (oid_off (pe_next m entry_ptr_old)))
         else let args_remove = \<lparr>r_pe_offset = pe_offset_old, r_obj_doffset = oid_off oid, r_head = head_old, r_entry_ptr = entry_ptr_old\<rparr>;
                  args_insert = \<lparr>i_head = head_new, i_dest = dest, i_dest_entry_ptr = dest_entry_ptr, i_before = before\<rparr>;
                  args_common = \<lparr>c_pe_offset = pe_offset_new, c_obj_doffset = oid_off oid, c_entry_ptr = entry_ptr_new\<rparr>;
                  (redo_index, evs1) = list_remove_single uuid m 0 args_remove;
                  (redo_index, evs2, next_offset, prev_offset) = list_insert_user uuid m redo_index args_insert args_common;
                  (redo_index, fill) = list_fill_entry_redo_log uuid redo_index args_common next_offset prev_offset (pe_offset_new \<noteq> pe_offset_old)
              in Some (redo_index, evs1 @ evs2 @ fill))"

definition list_move ::
  "u64 \<Rightarrow> (u64 \<Rightarrow> int) \<Rightarrow> redo_mem \<Rightarrow> u64 \<Rightarrow> u64 \<Rightarrow> u64 \<Rightarrow> u64 \<Rightarrow> PMEMoid \<Rightarrow> bool \<Rightarrow> PMEMoid \<Rightarrow>
   (int \<times> lock_op list \<times> list_events) option" where
  "list_move uuid lk m pe_offset_old head_old pe_offset_new head_new dest before oid =
     (let (ret, locks) = list_mutexes_lock lk head_new (Some head_old)
      in if ret \<noteq> 0 then Some (ret, locks, [])
         else let dest = list_get_dest m head_new dest pe_offset_new before;
                  locks = locks @ list_mutexes_unlock head_new (Some head_old)
              in case move_log uuid m pe_offset_old head_old pe_offset_new head_new dest before oid of
                   None \<Rightarrow> Some (0, locks, [])
                 | Some r \<Rightarrow> map_option (\<lambda>evs. (0, locks, evs)) (redo_last m r))"

text \<open>\<open>ret\<close> is the result of the allocation, which stores the offset of the new object in \<open>section->obj_offset\<close>, the word \<open>sec_off_off\<close>. \<open>oidp\<close> is \<open>None\<close> for a
  pointer that is \<open>NULL\<close> or not into the pool.\<close>

definition list_insert_new ::
  "u64 \<Rightarrow> int \<Rightarrow> redo_mem \<Rightarrow> u64 \<Rightarrow> u64 \<Rightarrow> u64 \<Rightarrow> PMEMoid \<Rightarrow> bool \<Rightarrow> u64 option \<Rightarrow> (int \<times> list_events) option" where
  "list_insert_new uuid ret m sec_off_off pe_offset user_head dest before oidp =
     (if ret \<noteq> 0 then Some (ret, [])
      else let obj_doffset = m (Data sec_off_off);
               dest = list_get_dest m user_head dest pe_offset before;
               entry_ptr = obj_doffset + pe_offset;
               args = \<lparr>i_head = user_head, i_dest = dest, i_dest_entry_ptr = oid_off dest + pe_offset, i_before = before\<rparr>;
               args_common = \<lparr>c_pe_offset = pe_offset, c_obj_doffset = obj_doffset, c_entry_ptr = entry_ptr\<rparr>;
               (redo_index, evs, next_offset, prev_offset) = list_insert_user uuid m 0 args args_common;
               fill = list_fill_entry_persist uuid entry_ptr next_offset prev_offset;
               (redo_index, oid) = (case oidp of None \<Rightarrow> (redo_index, []) | Some p \<Rightarrow> list_set_oid_redo_log uuid m redo_index p obj_doffset False)
           in map_option (Pair 0) (redo_store_last m (redo_index, evs @ fill @ oid) sec_off_off 0))"

definition list_insert_new_user ::
  "u64 \<Rightarrow> (u64 \<Rightarrow> int) \<Rightarrow> int \<Rightarrow> redo_mem \<Rightarrow> u64 \<Rightarrow> u64 \<Rightarrow> u64 \<Rightarrow> PMEMoid \<Rightarrow> bool \<Rightarrow> u64 option \<Rightarrow>
   (int \<times> lock_op list \<times> list_events) option" where
  "list_insert_new_user uuid lk ret m sec_off_off pe_offset user_head dest before oidp =
     (let lock = head_lock user_head
      in if lk lock \<noteq> 0 then Some (lk lock, [], [])
         else map_option (\<lambda>(ret, evs). (ret, [MutexLock lock, MutexUnlock lock], evs))
                (list_insert_new uuid ret m sec_off_off pe_offset user_head dest before oidp))"

text \<open>\<open>oidp\<close> is \<open>Inr p\<close> for a pointer into the pool and \<open>Inl oid\<close> for an object number outside of the pool, which is not persistent.\<close>

definition list_remove_free ::
  "u64 \<Rightarrow> redo_mem \<Rightarrow> u64 \<Rightarrow> u64 \<Rightarrow> u64 \<Rightarrow> PMEMoid + u64 \<Rightarrow> list_events option" where
  "list_remove_free uuid m sec_off_off pe_offset user_head oidp =
     (let obj_doffset = oid_off (case oidp of Inl oid \<Rightarrow> oid | Inr p \<Rightarrow> oid_at m p);
          args = \<lparr>r_pe_offset = pe_offset, r_obj_doffset = obj_doffset, r_head = user_head, r_entry_ptr = obj_doffset + pe_offset\<rparr>;
          (redo_index, evs) = list_remove_single uuid m 0 args;
          (redo_index, oid) = (case oidp of Inl _ \<Rightarrow> (redo_index, []) | Inr p \<Rightarrow> list_set_oid_redo_log uuid m redo_index p 0 True)
      in redo_store_last m (redo_index, evs @ oid) sec_off_off obj_doffset)"

definition list_remove_free_user ::
  "u64 \<Rightarrow> (u64 \<Rightarrow> int) \<Rightarrow> redo_mem \<Rightarrow> u64 \<Rightarrow> u64 \<Rightarrow> u64 \<Rightarrow> PMEMoid + u64 \<Rightarrow> (int \<times> lock_op list \<times> list_events) option" where
  "list_remove_free_user uuid lk m sec_off_off pe_offset user_head oidp =
     (let lock = head_lock user_head
      in if lk lock \<noteq> 0 then Some (lk lock, [], [])
         else map_option (\<lambda>evs. (0, [MutexLock lock, MutexUnlock lock], evs)) (list_remove_free uuid m sec_off_off pe_offset user_head oidp))"

subsection \<open>Recovery\<close>

text \<open>Recovery of the lane: the events, and whether \<open>pfree\<close> is called for the recorded object.\<close>

definition lane_list_recovery :: "redo_mem \<Rightarrow> u64 \<Rightarrow> (list_events \<times> bool) option" where
  "lane_list_recovery m sec_off_off =
     map_option (\<lambda>evs. (evs, cache (run evs (boot m)) (Data sec_off_off) \<noteq> 0)) (redo_log_recover m REDO_NUM_ENTRIES)"

definition lane_list_check :: "PMEMobjpool \<Rightarrow> redo_mem \<Rightarrow> u64 \<Rightarrow> int option" where
  "lane_list_check pop m sec_off_off =
     map_option (\<lambda>ret. if ret \<noteq> 0 then ret
       else if m (Data sec_off_off) \<noteq> 0 \<and> \<not> (heap_offset pop \<le> m (Data sec_off_off) \<and> m (Data sec_off_off) < heap_offset pop + heap_size pop)
       then -1 else 0) (redo_log_check pop m REDO_NUM_ENTRIES)"

end
