(* ===== verification/Plist_Props.thy ===== *)
theory Plist_Props
  imports Plist
begin

text \<open>
  The lists of \<open>Plist\<close> are sequences of objects. The first part is about rings of next and previous pointers, the second about the updates that the operations
  put into the log, the third about power failures.
\<close>

subsection \<open>Rings\<close>

definition linked :: "(u64 \<Rightarrow> u64) \<Rightarrow> (u64 \<Rightarrow> u64) \<Rightarrow> u64 list \<Rightarrow> bool" where
  "linked nx pv xs \<longleftrightarrow> list_all (\<lambda>(a, b). nx a = b \<and> pv b = a) (zip xs (rotate1 xs))"

lemma zip_rotate1: "length xs = length ys \<Longrightarrow> zip (rotate1 xs) (rotate1 ys) = rotate1 (zip xs ys)"
  by (cases xs; cases ys) simp_all

lemma linked_rotate1: "linked nx pv (rotate1 xs) = linked nx pv xs"
  by (simp add: linked_def zip_rotate1 list_all_iff)

lemma linked_swap: "linked nx pv (xs @ ys) = linked nx pv (ys @ xs)"
proof -
  have "linked nx pv (rotate n zs) = linked nx pv zs" for n zs by (induction n) (simp_all add: linked_rotate1)
  from this [of "length xs" "xs @ ys"] show ?thesis by (simp add: rotate_append)
qed

lemma linked_cong:
  assumes "\<And>x. x \<in> set xs \<Longrightarrow> nx x = nx' x \<and> pv x = pv' x" "linked nx pv xs"
  shows "linked nx' pv' xs"
proof -
  have "nx' a = b \<and> pv' b = a" if "(a, b) \<in> set (zip xs (rotate1 xs))" for a b
  proof -
    have "a \<in> set xs" "b \<in> set xs" using set_zip_leftD [OF that] set_zip_rightD [OF that] by simp_all
    moreover have "nx a = b" "pv b = a" using assms(2) that by (auto simp: linked_def list_all_iff)
    ultimately show ?thesis using assms(1) by metis
  qed
  then show ?thesis by (auto simp: linked_def list_all_iff)
qed

text \<open>The ring as a path that ends where it begins.\<close>

definition path :: "(u64 \<Rightarrow> u64) \<Rightarrow> (u64 \<Rightarrow> u64) \<Rightarrow> u64 \<Rightarrow> u64 list \<Rightarrow> u64 \<Rightarrow> bool" where
  "path nx pv x xs z \<longleftrightarrow> list_all (\<lambda>(a, b). nx a = b \<and> pv b = a) (zip (x # xs) (xs @ [z]))"

lemma linked_path: "linked nx pv (x # xs) \<longleftrightarrow> path nx pv x xs x"
  by (simp add: linked_def path_def)

lemma path_Nil: "path nx pv x [] z \<longleftrightarrow> nx x = z \<and> pv z = x"
  by (simp add: path_def)

lemma path_snoc: "path nx pv x (xs @ [y]) z \<longleftrightarrow> path nx pv x xs y \<and> nx y = z \<and> pv z = y"
  unfolding path_def by (induction xs arbitrary: x) auto

lemma path_cong:
  assumes "path nx pv x xs z" "\<And>a. a \<in> set (x # xs) \<Longrightarrow> nx' a = nx a" "\<And>b. b \<in> set (xs @ [z]) \<Longrightarrow> pv' b = pv b"
  shows "path nx' pv' x xs z"
proof -
  have "nx' a = b \<and> pv' b = a" if "(a, b) \<in> set (zip (x # xs) (xs @ [z]))" for a b
  proof -
    have "a \<in> set (x # xs)" "b \<in> set (xs @ [z])" using set_zip_leftD [OF that] set_zip_rightD [OF that] by simp_all
    moreover have "nx a = b" "pv b = a" using assms(1) that by (auto simp: path_def list_all_iff)
    ultimately show ?thesis using assms(2,3) by metis
  qed
  then show ?thesis by (auto simp: path_def list_all_iff)
qed

lemma linked_ends: "linked nx pv (x # xs) \<Longrightarrow> nx (last (x # xs)) = x \<and> pv x = last (x # xs)"
  by (cases xs rule: rev_cases) (simp_all add: linked_path path_snoc path_Nil)

lemma linked_snoc:
  assumes "linked nx pv (x # xs)" "y \<notin> set (x # xs)" "distinct (x # xs)" "l = last (x # xs)"
  shows "linked (nx(l := y, y := x)) (pv(x := y, y := l)) ((x # xs) @ [y])"
proof (cases xs rule: rev_cases)
  case Nil
  then show ?thesis using assms by (simp add: linked_def)
next
  case (snoc ys z)
  have l: "l = z" using assms(4) snoc by simp
  have "path nx pv x ys z" using assms(1) by (simp add: snoc linked_path path_snoc)
  then have "path (nx(l := y, y := x)) (pv(x := y, y := l)) x ys z"
    by (rule path_cong) (use assms(2,3) snoc l in auto)
  moreover have "z \<noteq> y" "x \<noteq> y" using assms(2) snoc by auto
  ultimately show ?thesis unfolding snoc append.simps linked_path path_snoc by (simp add: l)
qed

lemma linked_butlast:
  assumes "linked nx pv ((x # xs) @ [y])" "distinct ((x # xs) @ [y])" "l = last (x # xs)"
  shows "linked (nx(l := x)) (pv(x := l)) (x # xs)"
proof (cases xs rule: rev_cases)
  case Nil
  then show ?thesis using assms by (simp add: linked_def)
next
  case (snoc ys z)
  have l: "l = z" using assms(3) snoc by simp
  have "path nx pv x ys z" using assms(1) unfolding snoc append.simps linked_path path_snoc by simp
  then have "path (nx(l := x)) (pv(x := l)) x ys z"
    by (rule path_cong) (use assms(2) snoc l in auto)
  then show ?thesis unfolding snoc linked_path by (simp add: path_snoc l)
qed

lemma linked_first: "linked nx pv (a # x # xs) \<Longrightarrow> nx a = x \<and> pv x = a"
  by (simp add: linked_path path_def)

text \<open>What the operations mean for the sequence of objects.\<close>

fun put_at :: "bool \<Rightarrow> u64 \<Rightarrow> u64 \<Rightarrow> u64 list \<Rightarrow> u64 list" where
  "put_at before d y [] = []"
| "put_at before d y (x # xs) = (if x = d then if before then y # x # xs else x # y # xs else x # put_at before d y xs)"

lemma put_at_append: "d \<notin> set us \<Longrightarrow> put_at before d y (us @ d # vs) = us @ (if before then [y, d] else [d, y]) @ vs"
  by (induction us) auto

lemma put_at_simps:
  assumes "d \<in> set xs"
  shows "set (put_at before d y xs) = insert y (set xs)" "distinct xs \<Longrightarrow> y \<notin> set xs \<Longrightarrow> distinct (put_at before d y xs)"
    "hd (put_at before d y xs) = (if before \<and> d = hd xs then y else hd xs)"
proof -
  obtain us vs where xs: "xs = us @ d # vs" "d \<notin> set us" using assms by (metis split_list_first)
  show "set (put_at before d y xs) = insert y (set xs)" "distinct xs \<Longrightarrow> y \<notin> set xs \<Longrightarrow> distinct (put_at before d y xs)"
    "hd (put_at before d y xs) = (if before \<and> d = hd xs then y else hd xs)"
    using xs(2) unfolding xs(1) put_at_append [OF xs(2)] by (auto simp: hd_append)
qed

lemma ring_insert_before:
  assumes "linked nx pv xs" "distinct xs" "d \<in> set xs" "y \<notin> set xs"
  shows "linked (nx(pv d := y, y := d)) (pv(d := y, y := pv d)) (put_at True d y xs)"
proof -
  obtain us vs where xs: "xs = us @ d # vs" "d \<notin> set us" using assms(3) by (metis split_list_first)
  have l: "linked nx pv (d # (vs @ us))" using assms(1) linked_swap [of nx pv us "d # vs"] by (simp add: xs(1))
  have "y \<notin> set (d # vs @ us)" "distinct (d # vs @ us)" using assms(2,4) by (auto simp: xs(1))
  from linked_snoc [OF l this] linked_ends [OF l]
  have "linked (nx(pv d := y, y := d)) (pv(d := y, y := pv d)) ((d # vs) @ (us @ [y]))" by simp
  then show ?thesis unfolding linked_swap [of _ _ "d # vs"] by (simp add: xs(1) put_at_append [OF xs(2)])
qed

lemma ring_insert_after:
  assumes "linked nx pv xs" "distinct xs" "d \<in> set xs" "y \<notin> set xs"
  shows "linked (nx(d := y, y := nx d)) (pv(nx d := y, y := d)) (put_at False d y xs)"
proof -
  obtain us vs where xs: "xs = us @ d # vs" "d \<notin> set us" using assms(3) by (metis split_list_first)
  obtain z zs where z: "vs @ us @ [d] = z # zs" by (cases "vs @ us @ [d]") auto
  have l: "linked nx pv (z # zs)" using assms(1) linked_swap [of nx pv "us @ [d]" vs] by (simp add: xs(1) flip: z)
  have d: "d = last (z # zs)" by (simp flip: z)
  have "y \<notin> set (z # zs)" "distinct (z # zs)" using assms(2,4) by (auto simp: xs(1) simp flip: z)
  from linked_snoc [OF l this d] linked_ends [OF l] d
  have "linked (nx(d := y, y := nx d)) (pv(nx d := y, y := d)) ((z # zs) @ [y])" by simp
  then have "linked (nx(d := y, y := nx d)) (pv(nx d := y, y := d)) (vs @ (us @ [d, y]))" by (simp flip: z)
  then show ?thesis unfolding linked_swap [of _ _ vs] by (simp add: xs(1) put_at_append [OF xs(2)])
qed

lemma ring_remove:
  assumes "linked nx pv xs" "distinct xs" "y \<in> set xs" "xs \<noteq> [y]"
  shows "linked (nx(pv y := nx y)) (pv(nx y := pv y)) (remove1 y xs)" "nx y \<noteq> y" "nx y \<in> set xs" "pv y \<in> set xs" "pv y \<noteq> y"
    "hd xs = y \<Longrightarrow> hd (remove1 y xs) = nx y"
proof -
  obtain us vs where xs: "xs = us @ y # vs" "y \<notin> set us" using assms(3) by (metis split_list_first)
  obtain z zs where z: "vs @ us = z # zs" using assms(4) xs(1) by (cases "vs @ us") auto
  have set: "set (z # zs) = set vs \<union> set us" "y \<notin> set (z # zs)" using assms(2) by (auto simp: xs(1) simp flip: z)
  have l: "linked nx pv ((z # zs) @ [y])" using assms(1) linked_swap [of nx pv "us @ [y]" vs] by (simp add: xs(1) flip: z)
  have f: "linked nx pv (y # z # zs)" using l linked_swap [of nx pv "[y]" "z # zs"] by simp
  have n: "nx y = z" "pv y = last (z # zs)" using linked_first [OF f] linked_ends [OF f] by simp_all
  have "distinct (vs @ us)" using assms(2) by (auto simp: xs(1))
  then have d: "distinct ((z # zs) @ [y])" using set(2) by (auto simp: z)
  have "linked (nx(pv y := nx y)) (pv(nx y := pv y)) (vs @ us)" using linked_butlast [OF l d n(2)] n by (simp add: z)
  moreover have "remove1 y xs = us @ vs" using xs by (simp add: remove1_append)
  ultimately show "linked (nx(pv y := nx y)) (pv(nx y := pv y)) (remove1 y xs)" using linked_swap by metis
  have "nx y \<in> set (z # zs)" "pv y \<in> set (z # zs)" unfolding n by (rule list.set_intros, rule last_in_set) simp
  then have "nx y \<in> set vs \<union> set us" "pv y \<in> set vs \<union> set us" unfolding set(1) .
  moreover have "y \<notin> set vs \<union> set us" using assms(2) by (auto simp: xs(1))
  ultimately show "nx y \<noteq> y" "nx y \<in> set xs" "pv y \<in> set xs" "pv y \<noteq> y" by (auto simp: xs(1))
  show "hd xs = y \<Longrightarrow> hd (remove1 y xs) = nx y" using xs n(1) z by (cases us) auto
qed

lemma ring_neighbours:
  assumes "linked nx pv xs" "d \<in> set xs"
  shows "nx d \<in> set xs" "pv d \<in> set xs"
proof -
  obtain us vs where xs: "xs = us @ d # vs" using assms(2) by (metis split_list)
  have l: "linked nx pv (d # (vs @ us))" using assms(1) linked_swap [of nx pv us "d # vs"] by (simp add: xs)
  have "nx d \<in> set (d # (vs @ us))" using linked_first [of nx pv d] l by (cases "vs @ us") (auto simp: linked_def)
  moreover have "pv d \<in> set (d # (vs @ us))" using linked_ends [OF l] last_in_set [of "d # vs @ us"] by simp
  ultimately show "nx d \<in> set xs" "pv d \<in> set xs" by (auto simp: xs)
qed

lemma ring_inverse:
  assumes "linked nx pv xs" "d \<in> set xs"
  shows "pv (nx d) = d" "nx (pv d) = d"
proof -
  obtain us vs where xs: "xs = us @ d # vs" using assms(2) by (metis split_list)
  have l: "linked nx pv (d # (vs @ us))" using assms(1) linked_swap [of nx pv us "d # vs"] by (simp add: xs)
  show "nx (pv d) = d" using linked_ends [OF l] by metis
  show "pv (nx d) = d"
  proof (cases "vs @ us")
    case (Cons z zs)
    then show ?thesis using linked_first [of nx pv d z zs] l by simp
  qed (use l in \<open>simp add: linked_def\<close>)
qed

lemma ring_split:
  assumes "linked nx pv (us @ d # vs)"
  shows "pv d = (if us \<noteq> [] then last us else last (d # vs))" "nx d = (if vs \<noteq> [] then hd vs else hd (us @ [d]))"
proof -
  have l: "linked nx pv (d # (vs @ us))" using assms linked_swap [of nx pv us "d # vs"] by simp
  show "pv d = (if us \<noteq> [] then last us else last (d # vs))" using linked_ends [OF l] by (simp add: last_append)
  show "nx d = (if vs \<noteq> [] then hd vs else hd (us @ [d]))"
  proof (cases "vs @ us")
    case (Cons z zs)
    then show ?thesis using linked_first [of nx pv d z zs] l by (cases vs) auto
  qed (use l in \<open>simp add: linked_def\<close>)
qed

subsection \<open>Words\<close>

definition next_uuid :: "u64 \<Rightarrow> u64 \<Rightarrow> u64" where "next_uuid pe x = x + pe"
definition next_word :: "u64 \<Rightarrow> u64 \<Rightarrow> u64" where "next_word pe x = x + pe + 8"
definition prev_uuid :: "u64 \<Rightarrow> u64 \<Rightarrow> u64" where "prev_uuid pe x = x + pe + 16"
definition prev_word :: "u64 \<Rightarrow> u64 \<Rightarrow> u64" where "prev_word pe x = x + pe + 24"
definition first_word :: "u64 \<Rightarrow> u64" where "first_word head = head + 8"

definition list_words :: "u64 \<Rightarrow> u64 \<Rightarrow> u64 list \<Rightarrow> u64 list" where
  "list_words pe head xs = [head, first_word head] @ concat (map (\<lambda>x. entry_words (x + pe)) xs)"

text \<open>The words of a head and of the entries of some objects do not overlap and are aligned.\<close>

definition list_layout :: "u64 \<Rightarrow> u64 \<Rightarrow> u64 list \<Rightarrow> bool" where
  "list_layout pe head xs \<longleftrightarrow> distinct (list_words pe head xs) \<and> list_all (\<lambda>w. \<not> finish_flag w) (list_words pe head xs)"

lemma entry_words_eq: "entry_words (x + pe) = [next_uuid pe x, next_word pe x, prev_uuid pe x, prev_word pe x]"
  by (simp add: entry_words_def next_uuid_def next_word_def prev_uuid_def prev_word_def)

lemma word_inj [simp]:
  "next_uuid pe x = next_uuid pe z \<longleftrightarrow> x = z" "next_word pe x = next_word pe z \<longleftrightarrow> x = z"
  "prev_uuid pe x = prev_uuid pe z \<longleftrightarrow> x = z" "prev_word pe x = prev_word pe z \<longleftrightarrow> x = z"
  by (simp_all add: next_uuid_def next_word_def prev_uuid_def prev_word_def)

lemma layout_words:
  assumes "list_layout pe head xs" "x \<in> set xs"
  shows "set (entry_words (x + pe)) \<inter> {head, first_word head} = {}" "\<forall>w\<in>set (entry_words (x + pe)). \<not> finish_flag w"
    "distinct (entry_words (x + pe))" "z \<in> set xs \<Longrightarrow> z \<noteq> x \<Longrightarrow> set (entry_words (x + pe)) \<inter> set (entry_words (z + pe)) = {}"
    "head \<noteq> first_word head" "\<not> finish_flag head" "\<not> finish_flag (first_word head)"
proof -
  note L = assms(1) [unfolded list_layout_def list_words_def]
  show "head \<noteq> first_word head" "\<not> finish_flag head" "\<not> finish_flag (first_word head)" using L by simp_all
  show "set (entry_words (x + pe)) \<inter> {head, first_word head} = {}" "\<forall>w\<in>set (entry_words (x + pe)). \<not> finish_flag w"
    using L assms(2) by (auto simp: list_all_iff)
  have c: "distinct (concat (map (\<lambda>x. entry_words (x + pe)) xs))" using L by simp
  then show "distinct (entry_words (x + pe))" using assms(2) by (auto simp: distinct_concat_iff)
  show "set (entry_words (x + pe)) \<inter> set (entry_words (z + pe)) = {}" if z: "z \<in> set xs" "z \<noteq> x"
  proof -
    have "entry_words (x + pe) \<noteq> entry_words (z + pe)" using z(2) by (simp add: entry_words_def)
    then show ?thesis using c assms(2) z(1) by (auto simp: distinct_concat_iff)
  qed
qed

lemma layout_neq:
  assumes "list_layout pe head xs" "x \<in> set xs" "z \<in> set xs"
  shows "next_word pe x \<noteq> prev_word pe z" "prev_word pe z \<noteq> next_word pe x" "next_word pe x \<noteq> next_uuid pe z" "next_uuid pe z \<noteq> next_word pe x"
    "next_word pe x \<noteq> prev_uuid pe z" "prev_uuid pe z \<noteq> next_word pe x" "prev_word pe x \<noteq> next_uuid pe z" "next_uuid pe z \<noteq> prev_word pe x"
    "prev_word pe x \<noteq> prev_uuid pe z" "prev_uuid pe z \<noteq> prev_word pe x" "next_uuid pe x \<noteq> prev_uuid pe z" "prev_uuid pe z \<noteq> next_uuid pe x"
  using layout_words(3) [OF assms(1,2)] layout_words(4) [OF assms] by (cases "z = x"; auto simp: entry_words_eq)+

lemma layout_head:
  assumes "list_layout pe head xs" "x \<in> set xs"
  shows "head \<noteq> next_word pe x" "next_word pe x \<noteq> head" "head \<noteq> prev_word pe x" "prev_word pe x \<noteq> head"
    "head \<noteq> next_uuid pe x" "next_uuid pe x \<noteq> head" "head \<noteq> prev_uuid pe x" "prev_uuid pe x \<noteq> head"
    "first_word head \<noteq> next_word pe x" "next_word pe x \<noteq> first_word head" "first_word head \<noteq> prev_word pe x" "prev_word pe x \<noteq> first_word head"
    "first_word head \<noteq> next_uuid pe x" "next_uuid pe x \<noteq> first_word head" "first_word head \<noteq> prev_uuid pe x" "prev_uuid pe x \<noteq> first_word head"
  using layout_words(1) [OF assms] by (auto simp: entry_words_eq)

subsection \<open>Lists\<close>

abbreviation next_of :: "redo_mem \<Rightarrow> u64 \<Rightarrow> u64 \<Rightarrow> u64" where "next_of m pe x \<equiv> m (Data (next_word pe x))"
abbreviation prev_of :: "redo_mem \<Rightarrow> u64 \<Rightarrow> u64 \<Rightarrow> u64" where "prev_of m pe x \<equiv> m (Data (prev_word pe x))"
abbreviation first_of :: "redo_mem \<Rightarrow> u64 \<Rightarrow> u64" where "first_of m head \<equiv> m (Data (first_word head))"

definition has_uuid :: "u64 \<Rightarrow> u64 \<Rightarrow> redo_mem \<Rightarrow> u64 \<Rightarrow> bool" where
  "has_uuid uuid pe m x \<longleftrightarrow> m (Data (next_uuid pe x)) = uuid \<and> m (Data (prev_uuid pe x)) = uuid"

definition dlist :: "u64 \<Rightarrow> u64 \<Rightarrow> u64 \<Rightarrow> u64 list \<Rightarrow> redo_mem \<Rightarrow> bool" where
  "dlist uuid pe head xs m \<longleftrightarrow> distinct xs \<and> 0 \<notin> set xs \<and> first_of m head = (if xs = [] then 0 else hd xs) \<and>
     (m (Data head) = uuid \<or> xs = [] \<and> m (Data head) = 0) \<and> linked (next_of m pe) (prev_of m pe) xs \<and> list_all (has_uuid uuid pe m) xs"

lemma dlist_cong:
  assumes "dlist uuid pe head xs m" "\<And>w. w \<in> set (list_words pe head xs) \<Longrightarrow> m' (Data w) = m (Data w)"
  shows "dlist uuid pe head xs m'"
proof -
  have W: "m' (Data w) = m (Data w)" if "x \<in> set xs" "w \<in> {next_uuid pe x, next_word pe x, prev_uuid pe x, prev_word pe x}" for x w
    by (rule assms(2)) (use that in \<open>auto simp: list_words_def entry_words_eq\<close>)
  have w: "next_of m' pe x = next_of m pe x" "prev_of m' pe x = prev_of m pe x" "has_uuid uuid pe m' x = has_uuid uuid pe m x" if "x \<in> set xs" for x
    using W [OF that] by (simp_all add: has_uuid_def)
  have "linked (next_of m' pe) (prev_of m' pe) xs"
    using assms(1) by (intro linked_cong [of xs "next_of m pe" "next_of m' pe" "prev_of m pe" "prev_of m' pe"]) (auto simp: dlist_def w)
  moreover have "m' (Data head) = m (Data head)" "first_of m' head = first_of m head" using assms(2) by (simp_all add: list_words_def)
  ultimately show ?thesis using assms(1) w(3) by (simp add: dlist_def list_all_iff)
qed

text \<open>The updates in the log.\<close>

definition head_es :: "u64 \<Rightarrow> redo_mem \<Rightarrow> u64 \<Rightarrow> u64 \<Rightarrow> update list" where
  "head_es uuid m head f = (first_word head, f) # (if m (Data head) = 0 then [(head, uuid)] else [])"

definition remove_es :: "u64 \<Rightarrow> redo_mem \<Rightarrow> u64 \<Rightarrow> u64 \<Rightarrow> u64 \<Rightarrow> update list" where
  "remove_es uuid m pe head y =
     (if next_of m pe y = y then head_es uuid m head 0
      else [(prev_word pe (next_of m pe y), prev_of m pe y), (next_word pe (prev_of m pe y), next_of m pe y)] @
           (if first_of m head = y then head_es uuid m head (next_of m pe y) else []))"

definition insert_es :: "u64 \<Rightarrow> redo_mem \<Rightarrow> u64 \<Rightarrow> u64 \<Rightarrow> u64 \<Rightarrow> bool \<Rightarrow> u64 \<Rightarrow> update list" where
  "insert_es uuid m pe head d before y =
     (if d = 0 then head_es uuid m head y
      else if before
      then [(prev_word pe d, y), (next_word pe (prev_of m pe d), y)] @ (if d = first_of m head then head_es uuid m head y else [])
      else [(next_word pe d, y), (prev_word pe (next_of m pe d), y)])"

definition neighbours :: "redo_mem \<Rightarrow> u64 \<Rightarrow> u64 \<Rightarrow> bool \<Rightarrow> u64 \<Rightarrow> u64 \<times> u64" where
  "neighbours m pe d before y = (if d = 0 then (y, y) else if before then (d, prev_of m pe d) else (next_of m pe d, d))"

definition fill_es :: "u64 \<Rightarrow> u64 \<Rightarrow> u64 \<times> u64 \<Rightarrow> update list" where
  "fill_es pe y np = [(next_word pe y, fst np), (prev_word pe y, snd np)]"

text \<open>The words after the removal of one of several objects.\<close>

lemma commit_remove:
  assumes "list_layout pe head xs" "dlist uuid pe head xs m" "y \<in> set xs" "uuid \<noteq> 0" "xs \<noteq> [y]" "m' = commit (remove_es uuid m pe head y) m"
  shows "x \<in> set xs \<Longrightarrow> next_of m' pe x = ((next_of m pe)(prev_of m pe y := next_of m pe y)) x"
    "x \<in> set xs \<Longrightarrow> prev_of m' pe x = ((prev_of m pe)(next_of m pe y := prev_of m pe y)) x"
    "x \<in> set xs \<Longrightarrow> has_uuid uuid pe m' x = has_uuid uuid pe m x" "first_of m' head = (if hd xs = y then next_of m pe y else hd xs)" "m' (Data head) = uuid"
    "fst ` set (remove_es uuid m pe head y) \<subseteq> set (list_words pe head xs)"
proof -
  note L = layout_neq [OF assms(1)] layout_head [OF assms(1)]
  have d: "distinct xs" "first_of m head = hd xs" "m (Data head) = uuid" "linked (next_of m pe) (prev_of m pe) xs" using assms(2,3) by (auto simp: dlist_def)
  let ?n = "next_of m pe y" and ?p = "prev_of m pe y"
  note r = ring_remove [OF d(4,1) assms(3,5)]
  have es: "remove_es uuid m pe head y = [(prev_word pe ?n, ?p), (next_word pe ?p, ?n)] @ (if hd xs = y then [(first_word head, ?n)] else [])"
    using r(2) assms(4) d(2,3) by (simp add: remove_es_def head_es_def)
  show "x \<in> set xs \<Longrightarrow> next_of m' pe x = ((next_of m pe)(?p := ?n)) x" "x \<in> set xs \<Longrightarrow> prev_of m' pe x = ((prev_of m pe)(?n := ?p)) x"
    "x \<in> set xs \<Longrightarrow> has_uuid uuid pe m' x = has_uuid uuid pe m x"
    using r(3,4) unfolding assms(6) es has_uuid_def by (simp_all add: L)
  show "first_of m' head = (if hd xs = y then ?n else hd xs)" "m' (Data head) = uuid"
    using r(3,4) d(2,3) layout_words(5) [OF assms(1,3)] unfolding assms(6) es by (simp_all add: L)
  have W: "set (entry_words (x + pe)) \<subseteq> set (list_words pe head xs)" if "x \<in> set xs" for x using that by (auto simp: list_words_def)
  show "fst ` set (remove_es uuid m pe head y) \<subseteq> set (list_words pe head xs)"
    using W [OF r(3)] W [OF r(4)] unfolding es by (auto simp: entry_words_eq list_words_def)
qed

lemma dlist_remove:
  assumes "list_layout pe head xs" "dlist uuid pe head xs m" "y \<in> set xs" "uuid \<noteq> 0"
  shows "dlist uuid pe head (remove1 y xs) (commit (remove_es uuid m pe head y) m)" "fst ` set (remove_es uuid m pe head y) \<subseteq> set (list_words pe head xs)"
proof -
  have d: "distinct xs" "0 \<notin> set xs" "m (Data head) = uuid" "linked (next_of m pe) (prev_of m pe) xs" "list_all (has_uuid uuid pe m) xs"
    using assms(2,3) by (auto simp: dlist_def)
  have "dlist uuid pe head (remove1 y xs) (commit (remove_es uuid m pe head y) m) \<and> fst ` set (remove_es uuid m pe head y) \<subseteq> set (list_words pe head xs)"
  proof (cases "xs = [y]")
    case True
    have "next_of m pe y = y" using d(4) True by (simp add: linked_def)
    then have "remove_es uuid m pe head y = [(first_word head, 0)]" using assms(4) d(3) by (simp add: remove_es_def head_es_def)
    then show ?thesis using True d(3) layout_words(5) [OF assms(1,3)] by (simp add: dlist_def linked_def list_words_def)
  next
    case False
    note r = ring_remove [OF d(4,1) assms(3) False]
    let ?m = "commit (remove_es uuid m pe head y) m"
    note c = commit_remove [OF assms False refl]
    have sub: "x \<in> set xs" if "x \<in> set (remove1 y xs)" for x using that set_remove1_subset [of y xs] by blast
    have "linked (next_of ?m pe) (prev_of ?m pe) (remove1 y xs)"
      by (rule linked_cong [OF _ r(1)]) (use c(1,2) sub in auto)
    moreover have "list_all (has_uuid uuid pe ?m) (remove1 y xs)" using d(5) c(3) sub by (auto simp: list_all_iff)
    moreover have "next_of m pe y \<in> set (remove1 y xs)" using r(2,3) d(1) by (simp add: set_remove1_eq)
    then have "remove1 y xs \<noteq> []" by auto
    moreover have "hd (remove1 y xs) = hd xs" if "hd xs \<noteq> y" using that assms(3) by (cases xs) simp_all
    then have "hd (remove1 y xs) = first_of ?m head" using r(6) c(4) by (cases "hd xs = y") simp_all
    moreover have "distinct (remove1 y xs)" by (rule distinct_remove1 [OF d(1)])
    moreover have "0 \<notin> set (remove1 y xs)" using sub d(2) by blast
    ultimately have "dlist uuid pe head (remove1 y xs) ?m" using c(5) by (simp only: dlist_def if_False simp_thms)
    then show ?thesis using c(6) by simp
  qed
  then show "dlist uuid pe head (remove1 y xs) (commit (remove_es uuid m pe head y) m)" "fst ` set (remove_es uuid m pe head y) \<subseteq> set (list_words pe head xs)"
    by simp_all
qed

lemma dlist_insert_first:
  assumes "list_layout pe head [y]" "dlist uuid pe head [] m" "y \<noteq> 0" "has_uuid uuid pe m y"
  shows "dlist uuid pe head [y] (commit (head_es uuid m head y @ fill_es pe y (y, y)) m)"
proof -
  have L: "y \<in> set [y]" by simp
  note L = layout_neq [OF assms(1) L L] layout_head [OF assms(1) L] layout_words(5) [OF assms(1) L]
  have "m (Data head) = uuid \<or> m (Data head) = 0" using assms(2) by (auto simp: dlist_def)
  then show ?thesis using assms(3,4)
    by (cases "m (Data head) = 0") (simp_all add: dlist_def head_es_def fill_es_def linked_def has_uuid_def L L [symmetric])
qed

text \<open>The words after an insertion between \<open>p\<close> and \<open>n\<close>; the entries are in the order of either insertion.\<close>

lemma commit_between:
  assumes "list_layout pe head (y # xs)" "p \<in> set xs" "n \<in> set xs" "y \<notin> set xs" "hs \<in> {[], [(first_word head, y)]}"
    "es \<in> {[(prev_word pe n, y), (next_word pe p, y)], [(next_word pe p, y), (prev_word pe n, y)]}" "x \<in> set (y # xs)" "m' = commit (es @ hs @ fill_es pe y (n, p)) m"
  shows "next_of m' pe x = ((next_of m pe)(p := y, y := n)) x" "prev_of m' pe x = ((prev_of m pe)(n := y, y := p)) x"
    "has_uuid uuid pe m' x = has_uuid uuid pe m x" "first_of m' head = (if hs = [] then first_of m head else y)" "m' (Data head) = m (Data head)"
proof -
  have i: "p \<in> set (y # xs)" "n \<in> set (y # xs)" "y \<in> set (y # xs)" using assms(2,3) by simp_all
  have ne: "p \<noteq> y" "n \<noteq> y" using assms(2-4) by auto
  note L = layout_neq [OF assms(1)] layout_head [OF assms(1)] layout_words(5) [OF assms(1,7)]
  note LL = L(1-12) [OF assms(7) i(1)] L(1-12) [OF assms(7) i(2)] L(1-12) [OF assms(7) i(3)] L(1-12) [OF i(1) assms(7)] L(1-12) [OF i(2) assms(7)]
    L(1-12) [OF i(3) assms(7)] L(13-28) [OF assms(7)] L(13-28) [OF i(1)] L(13-28) [OF i(2)] L(13-28) [OF i(3)] L(29)
  consider "es = [(prev_word pe n, y), (next_word pe p, y)]" "hs = []" | "es = [(prev_word pe n, y), (next_word pe p, y)]" "hs = [(first_word head, y)]" |
    "es = [(next_word pe p, y), (prev_word pe n, y)]" "hs = []" | "es = [(next_word pe p, y), (prev_word pe n, y)]" "hs = [(first_word head, y)]"
    using assms(5,6) by blast
  then have "next_of m' pe x = ((next_of m pe)(p := y, y := n)) x \<and> prev_of m' pe x = ((prev_of m pe)(n := y, y := p)) x \<and>
    has_uuid uuid pe m' x = has_uuid uuid pe m x \<and> first_of m' head = (if hs = [] then first_of m head else y) \<and> m' (Data head) = m (Data head)"
    by cases (simp_all add: assms(8) fill_es_def has_uuid_def LL ne)
  then show "next_of m' pe x = ((next_of m pe)(p := y, y := n)) x" "prev_of m' pe x = ((prev_of m pe)(n := y, y := p)) x"
    "has_uuid uuid pe m' x = has_uuid uuid pe m x" "first_of m' head = (if hs = [] then first_of m head else y)" "m' (Data head) = m (Data head)" by simp_all
qed

lemma dlist_insert_at:
  assumes "list_layout pe head (y # xs)" "dlist uuid pe head xs m" "y \<noteq> 0" "has_uuid uuid pe m y" "uuid \<noteq> 0" "d \<in> set xs"
  shows "dlist uuid pe head (put_at before d y xs) (commit (insert_es uuid m pe head d before y @ fill_es pe y (neighbours m pe d before y)) m)"
proof -
  have d: "distinct xs" "0 \<notin> set xs" "first_of m head = hd xs" "m (Data head) = uuid" "linked (next_of m pe) (prev_of m pe) xs" "list_all (has_uuid uuid pe m) xs"
    using assms(2,6) by (auto simp: dlist_def)
  have y: "y \<notin> set xs" using assms(1) by (auto simp: list_layout_def list_words_def entry_words_def)
  have d0: "d \<noteq> 0" using assms(6) d(2) by auto
  define p where "p = (if before then prev_of m pe d else d)"
  define n where "n = (if before then d else next_of m pe d)"
  define hs where "hs = (if before \<and> d = hd xs then [(first_word head, y)] else [])"
  define es where "es = (if before then [(prev_word pe n, y), (next_word pe p, y)] else [(next_word pe p, y), (prev_word pe n, y)])"
  have pn: "p \<in> set xs" "n \<in> set xs" using ring_neighbours [OF d(5) assms(6)] assms(6) by (simp_all add: p_def n_def)
  have e: "insert_es uuid m pe head d before y @ fill_es pe y (neighbours m pe d before y) = es @ hs @ fill_es pe y (n, p)"
    using d0 assms(5) d(3,4) by (simp add: insert_es_def head_es_def neighbours_def es_def hs_def p_def n_def)
  define m' where "m' = commit (es @ hs @ fill_es pe y (n, p)) m"
  have hs: "hs \<in> {[], [(first_word head, y)]}" by (simp add: hs_def)
  have es: "es \<in> {[(prev_word pe n, y), (next_word pe p, y)], [(next_word pe p, y), (prev_word pe n, y)]}" by (simp add: es_def)
  note c = commit_between [OF assms(1) pn y hs es _ m'_def]
  have "linked ((next_of m pe)(p := y, y := n)) ((prev_of m pe)(n := y, y := p)) (put_at before d y xs)"
    using ring_insert_before [OF d(5,1) assms(6) y] ring_insert_after [OF d(5,1) assms(6) y] by (cases before) (simp_all add: p_def n_def)
  then have "linked (next_of m' pe) (prev_of m' pe) (put_at before d y xs)"
    by (rule linked_cong [rotated]) (use c(1,2) put_at_simps(1) [OF assms(6), of before y] in simp)
  moreover have "list_all (has_uuid uuid pe m') (put_at before d y xs)"
    using d(6) c(3) assms(4) put_at_simps(1) [OF assms(6), of before y] by (auto simp: list_all_iff)
  moreover have "put_at before d y xs \<noteq> []" using put_at_simps(1) [OF assms(6), of before y] by (metis insert_not_empty list.set(1))
  moreover have "first_of m' head = hd (put_at before d y xs)" using c(4) [of y] d(3) put_at_simps(3) [OF assms(6), of before y] by (auto simp: hs_def)
  moreover have "m' (Data head) = uuid" using c(5) [of y] d(4) by simp
  moreover have "distinct (put_at before d y xs)" by (rule put_at_simps(2) [OF assms(6) d(1) y])
  moreover have "0 \<notin> set (put_at before d y xs)" using put_at_simps(1) [OF assms(6), of before y] d(2) assms(3) by auto
  ultimately show ?thesis unfolding e m'_def [symmetric] by (simp only: dlist_def if_False simp_thms)
qed

subsection \<open>The log of an operation\<close>

text \<open>The entries from index \<open>i\<close> on.\<close>

definition log_from :: "nat \<Rightarrow> update list \<Rightarrow> list_events" where
  "log_from i es = concat (map (\<lambda>j. redo_log_store (i + j) (fst (es ! j)) (snd (es ! j))) [0 ..< length es])"

lemma log_from_Nil [simp]: "log_from i [] = []"
  by (simp add: log_from_def)

lemma log_from_Cons [simp]: "log_from i (e # es) = redo_log_store i (fst e) (snd e) @ log_from (Suc i) es"
proof -
  have "[0 ..< length (e # es)] = 0 # map Suc [0 ..< length es]" by (simp add: map_Suc_upt upt_conv_Cons del: upt_Suc)
  then show ?thesis unfolding log_from_def by (simp add: comp_def del: upt_Suc)
qed

lemma log_from_append: "log_from i (es @ es') = log_from i es @ log_from (i + length es) es'"
  by (induction es arbitrary: i) simp_all

lemma log_writes_from: "log_writes es = log_from 0 es"
  by (simp add: log_writes_def log_from_def)

lemma u64_add_offset_eq: "u64_add_offset v off = v + off"
  by (simp add: u64_add_offset_def)

lemma list_fields:
  "u64_add_offset (x + PREV_OFF) pe = prev_word pe x" "u64_add_offset (x + NEXT_OFF) pe = next_word pe x"
  "oid_off (pe_next m (x + pe)) = next_of m pe x" "oid_off (pe_prev m (x + pe)) = prev_of m pe x" "oid_off (pe_first m head) = first_of m head"
  "pool_uuid_lo (pe_first m head) = m (Data head)"
  by (simp_all add: next_word_def prev_word_def first_word_def NEXT_OFF_def PREV_OFF_def u64_add_offset_eq pe_first_def pe_next_def pe_prev_def oid_at_def
    add.commute [of 24 "_ + _"])

lemma list_update_head_es: "list_update_head uuid m i head f = (i + length (head_es uuid m head f), log_from i (head_es uuid m head f))"
  by (simp add: list_update_head_def head_es_def list_fields flip: first_word_def)

lemma list_remove_single_es:
  "list_remove_single uuid m i \<lparr>r_pe_offset = pe, r_obj_doffset = y, r_head = head, r_entry_ptr = y + pe\<rparr> =
     (i + length (remove_es uuid m pe head y), log_from i (remove_es uuid m pe head y))"
  by (simp add: list_remove_single_def remove_es_def list_update_head_es log_from_append list_fields Let_def)

lemma list_insert_user_es:
  assumes "args = \<lparr>i_head = head, i_dest = dest, i_dest_entry_ptr = oid_off dest + pe, i_before = before\<rparr>"
    "args_common = \<lparr>c_pe_offset = pe, c_obj_doffset = y, c_entry_ptr = y + pe\<rparr>"
  shows "list_insert_user uuid m i args args_common =
    (i + length (insert_es uuid m pe head (oid_off dest) before y), log_from i (insert_es uuid m pe head (oid_off dest) before y),
     neighbours m pe (oid_off dest) before y)"
  by (simp add: assms list_insert_user_def insert_es_def neighbours_def list_insert_before_def list_insert_after_def list_update_head_es log_from_append
    list_fields Let_def)

definition uuid_stores :: "u64 \<Rightarrow> u64 \<Rightarrow> u64 \<Rightarrow> list_events" where
  "uuid_stores uuid pe y = [Store (Data (next_uuid pe y)) uuid, Store (Data (prev_uuid pe y)) uuid] @ persist (map Data (entry_words (y + pe)))"

lemma list_fill_entry_es:
  "list_fill_entry_redo_log uuid i \<lparr>c_pe_offset = pe, c_obj_doffset = y, c_entry_ptr = y + pe\<rparr> n p set_uuid =
     (i + 2, (if set_uuid then uuid_stores uuid pe y else []) @ log_from i (fill_es pe y (n, p)))"
  by (simp add: list_fill_entry_redo_log_def fill_es_def list_fields Let_def uuid_stores_def next_uuid_def prev_uuid_def)

subsection \<open>Stages\<close>

lemma cache_log_from:
  "cache (run (log_from i es) s) (LogOff j) = (if i \<le> j \<and> j < i + length es then fst (es ! (j - i)) else cache s (LogOff j))"
  "cache (run (log_from i es) s) (LogVal j) = (if i \<le> j \<and> j < i + length es then snd (es ! (j - i)) else cache s (LogVal j))"
  "cache (run (log_from i es) s) (Data off) = cache s (Data off)"
  by (induction es rule: rev_induct) (auto simp: log_from_append redo_log_store_def nth_append)

lemma stored_log_from: "Store l v \<in> set (log_from i es) \<Longrightarrow> (\<exists>j. l = LogVal j) \<or> (\<exists>j. l = LogOff j) \<and> v \<in> fst ` set es"
  by (induction es arbitrary: i) (auto simp: redo_log_store_def)

text \<open>Words of an object that no list has yet, stored directly.\<close>

definition direct :: "update list \<Rightarrow> u64 list \<Rightarrow> list_events" where
  "direct ws ps = (if ws = [] then [] else map (\<lambda>(w, v). Store (Data w) v) ws @ persist (map Data ps))"

lemma cache_data_stores: "cache (run (map (\<lambda>(w, v). Store (Data w) v) ws) s) = commit ws (cache s)"
  by (induction ws arbitrary: s) auto

lemma cache_direct: "cache (run (direct ws ps) s) = commit ws (cache s)"
  by (simp add: direct_def cache_data_stores)

lemma durable_direct:
  assumes "fst ` set ws \<subseteq> set ps" "w \<in> fst ` set ws"
  shows "durable (run (direct ws ps) s) (Data w) = {commit ws (cache s) (Data w)}"
proof -
  have "ws \<noteq> []" "Data w \<in> set (map Data ps)" using assms by auto
  then show ?thesis by (simp add: direct_def cache_data_stores pm_run_persist)
qed

lemma staged_direct:
  assumes "ok_updates N (es1 @ es2)" "clean N m" "fst ` set ws \<subseteq> set ps"
    "tail = log_from (length es1) es2 \<or> (\<exists>es e. es2 = es @ [e] \<and> tail = log_from (length es1) es @ [Store (LogVal (length es1 + length es)) (snd e)])"
  shows "staged N (es1 @ es2) (fst ` set ws) m (commit ws m) (log_from 0 es1 @ direct ws ps @ tail)"
    (is "staged N ?es ?U m ?m1 ?p")
proof -
  let ?a = "run (log_from 0 es1) (boot m)"
  let ?b = "run (direct ws ps) ?a"
  have c: "cache ?b (LogOff j) = (if j < length es1 then fst (es1 ! j) else m (LogOff j))" "cache ?b (LogVal j) = (if j < length es1 then snd (es1 ! j) else m (LogVal j))" for j
    by (simp_all add: cache_direct cache_log_from)
  have ok: "pm_ok ?b" by (simp add: pm_ok_run)
  have fl: "\<not> finish_flag v" if "v \<in> fst ` set ?es" for v using assms(1) that by (auto simp: ok_updates_def)
  have st: "stage_store ?U l v" if "Store l v \<in> set (log_from i es)" "set es \<subseteq> set ?es" for l v i es
  proof -
    have "\<not> finish_flag v" if "v \<in> fst ` set es" using that \<open>set es \<subseteq> set ?es\<close> by (intro fl) (meson image_mono subsetD)
    then show ?thesis using stored_log_from [OF that(1)] by (elim disjE exE conjE) (simp_all add: stage_store_def)
  qed
  have dir: "stage_store ?U l v" if "Store l v \<in> set (direct ws ps)" for l v
    using that by (auto simp: direct_def stage_store_def persist_def split: if_splits) force
  have tl: "stage_store ?U l v" if "Store l v \<in> set tail" for l v
    using assms(4)
  proof (elim disjE exE conjE)
    assume "tail = log_from (length es1) es2"
    then show ?thesis using that st [of l v _ es2] by simp
  next
    fix es e assume e: "es2 = es @ [e]" "tail = log_from (length es1) es @ [Store (LogVal (length es1 + length es)) (snd e)]"
    then consider "Store l v \<in> set (log_from (length es1) es)" | "l = LogVal (length es1 + length es)" using \<open>Store l v \<in> set tail\<close> by auto
    then show ?thesis using st [of l v _ es] e(1) by cases (auto simp: stage_store_def)
  qed
  have nd: "Data off \<notin> stored tail" for off
    using assms(4) stored_log_from by (fastforce simp: stored_def)
  have D: "if off \<in> ?U then durable (run ?p (boot m)) (Data off) \<subseteq> {?m1 (Data off)} else ?m1 (Data off) = m (Data off)" for off
  proof (cases "off \<in> ?U")
    case True
    have "durable (run tail ?b) (Data off) \<subseteq> durable ?b (Data off)" using run_untouched [OF nd ok] by simp
    also have "\<dots> = {commit ws (cache ?a) (Data off)}" by (rule durable_direct [OF assms(3) True])
    also have "commit ws (cache ?a) (Data off) = ?m1 (Data off)" by (rule commit_agree) (simp add: cache_log_from)
    finally show ?thesis using True by simp
  qed (simp add: commit_other)
  have L: "(Suc i \<noteq> length ?es \<longrightarrow> cache (run tail ?b) (LogOff i) = fst (?es ! i)) \<and> cache (run tail ?b) (LogVal i) = snd (?es ! i)"
    if "i < length ?es" for i
    using assms(4) that by (auto simp: cache_log_from c nth_append)
  have S: "stage_store ?U l v" if "Store l v \<in> set ?p" for l v using that st [of l v 0 es1] dir tl by auto
  show ?thesis unfolding staged_def
  proof (intro conjI)
    show "\<forall>l v. Store l v \<in> set ?p \<longrightarrow> stage_store ?U l v" using S by blast
    show "\<forall>off. if off \<in> ?U then durable (run ?p (boot m)) (Data off) \<subseteq> {?m1 (Data off)} else ?m1 (Data off) = m (Data off)" using D ..
    show "\<forall>i<length ?es. (Suc i \<noteq> length ?es \<longrightarrow> cache (run ?p (boot m)) (LogOff i) = fst (?es ! i)) \<and> cache (run ?p (boot m)) (LogVal i) = snd (?es ! i)"
      unfolding run_simps using L by blast
  qed (rule assms(1), rule assms(2))
qed

text \<open>Whatever the stage, the operation ends with a log that is processed.\<close>

lemma process_log_staged:
  assumes "staged REDO_NUM_ENTRIES es U m m1 p"
  shows "process_log m (p @ persist (log_prefix (length es)) @ flag_evs es) = Some (staged_evs es p)"
proof -
  let ?n = "length es"
  have es: "es \<noteq> []" "\<forall>e\<in>set es. \<not> finish_flag (fst e)" "?n \<le> REDO_NUM_ENTRIES" using assms by (simp_all add: staged_def ok_updates_def)
  define c where "c = cache (run (p @ persist (log_prefix ?n) @ flag_evs es) (boot m))"
  have c: "c = (cache (run p (boot m)))(LogOff (?n - 1) := fst (last es) OR REDO_FINISH_FLAG)"
    by (simp add: c_def flag_evs_def persist_def)
  have "c (LogOff i) = log_off es i \<and> c (LogVal i) = snd (es ! i)" if "i < ?n" for i
    using assms that es(1) by (auto simp: c staged_def log_off_def last_conv_nth)
  then have "redo_log_process c REDO_NUM_ENTRIES = Some (process_evs es)"
    using process_loop_evs [of es c 0 REDO_NUM_ENTRIES] es by (simp add: redo_log_process_def process_evs_def)
  then show ?thesis unfolding process_log_def c_def [symmetric] by (simp add: staged_evs_def)
qed

lemma redo_last_staged:
  assumes "staged REDO_NUM_ENTRIES es U m m1 p" "cache (run p (boot m)) (LogOff (length es - 1)) = fst (last es)" "n = length es"
  shows "redo_last m (n, p) = Some (staged_evs es p)"
proof -
  have "es \<noteq> []" using assms(1) by (simp add: staged_def ok_updates_def)
  then have "redo_log_set_last (cache (run p (boot m))) (n - 1) = persist (log_prefix (length es)) @ flag_evs es"
    using assms(2,3) by (simp add: redo_log_set_last_def flag_evs_def)
  then show ?thesis using process_log_staged [OF assms(1)] by (simp add: redo_last_def)
qed

lemma redo_store_last_staged:
  assumes "staged REDO_NUM_ENTRIES (es @ [(off, v)]) U m m1 (p @ [Store (LogVal (length es)) v])"
  shows "redo_store_last m (length es, p) off v = Some (staged_evs (es @ [(off, v)]) (p @ [Store (LogVal (length es)) v]))"
  using process_log_staged [OF assms] by (simp add: redo_store_last_def redo_log_store_last_def flag_evs_def)

text \<open>What recovery finds after a power failure.\<close>

lemma staged_recovery:
  assumes "staged N es U m m1 p" "m' \<in> crash (run (take k (staged_evs es p)) (boot m))"
  shows "\<exists>a. recovered N m' = Some a \<and> clean N a \<and>
    (k < length (staged_evs es p) \<and> (\<forall>off. off \<notin> U \<longrightarrow> a (Data off) = m (Data off)) \<or> (\<forall>off. a (Data off) = commit es m1 (Data off)))"
proof -
  have ok: "ok_updates N es" using assms(1) by (simp add: staged_def)
  have len: "length p + 5 \<le> length (staged_evs es p)" by (simp add: staged_evs_def flag_evs_def persist_def)
  consider "k < length p + 5" "clean N m'" "\<forall>off. off \<notin> U \<longrightarrow> m' (Data off) = m (Data off)" | "committed N es m1 m'" | "old_data N (commit es m1) m'"
    using staged_crash [OF assms] by (auto split: if_splits)
  then show ?thesis
  proof cases
    case 1
    then show ?thesis using recover_clean [of N m'] len by auto
  next
    case 2
    then show ?thesis using recover_committed(2) [OF _ ok] by blast
  next
    case 3
    then show ?thesis using recover_clean [of N m'] by (auto simp: old_data_def)
  qed
qed

lemma dest_of:
  assumes "dlist uuid pe head xs m"
  shows "oid_off (list_get_dest m head dest pe before) =
    (if oid_off dest \<noteq> 0 then oid_off dest else if xs = [] then 0 else if before then hd xs else last xs)"
proof (cases xs)
  case (Cons x zs)
  then have "first_of m head = x" "x \<noteq> 0" "linked (next_of m pe) (prev_of m pe) (x # zs)" using assms by (auto simp: dlist_def)
  then show ?thesis using linked_ends [of "next_of m pe" "prev_of m pe" x zs] Cons by (simp add: list_get_dest_def list_fields)
qed (use assms in \<open>simp add: list_get_dest_def list_fields dlist_def\<close>)

end
