(* ===== verification/Plist_Atomic.thy ===== *)
theory Plist_Atomic
  imports Plist_Props "HOL-Library.Multiset"
begin

text \<open>
  The operations on persistent lists are failure-atomic: whenever the power fails, the recovery of the lane finds the sequence of objects before the operation
  or the one after it, and nothing but the words of the list has changed.
\<close>

definition atomic_op :: "redo_mem \<Rightarrow> list_events \<Rightarrow> (redo_mem \<Rightarrow> bool) \<Rightarrow> (redo_mem \<Rightarrow> bool) \<Rightarrow> bool" where
  "atomic_op m evs P Q \<longleftrightarrow> (\<forall>k m'. m' \<in> crash (run (take k evs) (boot m)) \<longrightarrow>
     (\<exists>a. recovered REDO_NUM_ENTRIES m' = Some a \<and> clean REDO_NUM_ENTRIES a \<and> (Q a \<or> k < length evs \<and> P a)))"

lemma staged_atomic:
  assumes "staged REDO_NUM_ENTRIES es U m m1 p" "\<And>a. (\<And>off. off \<notin> U \<Longrightarrow> a (Data off) = m (Data off)) \<Longrightarrow> P a"
    "\<And>a. (\<And>off. a (Data off) = commit es m1 (Data off)) \<Longrightarrow> Q a"
  shows "atomic_op m (staged_evs es p) P Q"
  unfolding atomic_op_def
proof (intro allI impI)
  fix k m' assume "m' \<in> crash (run (take k (staged_evs es p)) (boot m))"
  from staged_recovery [OF assms(1) this] obtain a where a: "recovered REDO_NUM_ENTRIES m' = Some a" "clean REDO_NUM_ENTRIES a"
    "k < length (staged_evs es p) \<and> (\<forall>off. off \<notin> U \<longrightarrow> a (Data off) = m (Data off)) \<or> (\<forall>off. a (Data off) = commit es m1 (Data off))" by (elim exE conjE)
  have "Q a \<or> k < length (staged_evs es p) \<and> P a" using a(3) assms(2,3) [of a] by blast
  then show "\<exists>a. recovered REDO_NUM_ENTRIES m' = Some a \<and> clean REDO_NUM_ENTRIES a \<and> (Q a \<or> k < length (staged_evs es p) \<and> P a)" using a(1,2) by blast
qed

lemma redo_last_direct:
  assumes "ok_updates REDO_NUM_ENTRIES (es1 @ es2)" "es2 \<noteq> []" "clean REDO_NUM_ENTRIES m" "fst ` set ws \<subseteq> set ps" "n = length es1 + length es2"
    "p = log_from 0 es1 @ direct ws ps @ log_from (length es1) es2"
  shows "redo_last m (n, p) = Some (staged_evs (es1 @ es2) p)" "staged REDO_NUM_ENTRIES (es1 @ es2) (fst ` set ws) m (commit ws m) p"
proof -
  show s: "staged REDO_NUM_ENTRIES (es1 @ es2) (fst ` set ws) m (commit ws m) p" unfolding assms(6) by (rule staged_direct [OF assms(1,3,4)]) simp
  have "cache (run p (boot m)) (LogOff (length (es1 @ es2) - 1)) = fst (last (es1 @ es2))"
  proof -
    obtain e es where e: "es2 = es @ [e]" using assms(2) by (cases es2 rule: rev_cases) auto
    show ?thesis unfolding assms(6) run_simps cache_log_from(1) by (simp add: e nth_append)
  qed
  then show "redo_last m (n, p) = Some (staged_evs (es1 @ es2) p)" by (rule redo_last_staged [OF s]) (simp add: assms(5))
qed

text \<open>An operation whose events are known: direct stores \<open>ws\<close> to words of no list, then the log. \<open>P\<close> and \<open>Q\<close> are about the words only.\<close>

definition words_pred :: "u64 list \<Rightarrow> (redo_mem \<Rightarrow> bool) \<Rightarrow> bool" where
  "words_pred V P \<longleftrightarrow> (\<forall>m a. P m \<longrightarrow> (\<forall>w\<in>set V. a (Data w) = m (Data w)) \<longrightarrow> P a)"

definition framed :: "u64 list \<Rightarrow> redo_mem \<Rightarrow> (redo_mem \<Rightarrow> bool) \<Rightarrow> redo_mem \<Rightarrow> bool" where
  "framed W m P a \<longleftrightarrow> P a \<and> (\<forall>off. off \<notin> set W \<longrightarrow> a (Data off) = m (Data off))"

lemma staged_framed:
  assumes "staged REDO_NUM_ENTRIES es (fst ` set ws) m (commit ws m) p" "fst ` set (ws @ es) \<subseteq> set W"
    "words_pred V P" "P m" "fst ` set ws \<inter> set V = {}" "words_pred V' Q" "Q (commit es (commit ws m))"
  shows "atomic_op m (staged_evs es p) (framed W m P) (framed W m Q)"
proof (rule staged_atomic [OF assms(1)])
  fix a assume a: "\<And>off. off \<notin> fst ` set ws \<Longrightarrow> a (Data off) = m (Data off)"
  have "a (Data w) = m (Data w)" if "w \<in> set V" for w using assms(5) that by (intro a) blast
  then have "P a" using assms(3,4) unfolding words_pred_def by blast
  moreover have "a (Data off) = m (Data off)" if "off \<notin> set W" for off using assms(2) that by (intro a) auto
  ultimately show "framed W m P a" by (simp add: framed_def)
next
  fix a assume a: "\<And>off. a (Data off) = commit es (commit ws m) (Data off)"
  then have "Q a" using assms(6,7) unfolding words_pred_def by blast
  moreover have "a (Data off) = m (Data off)" if "off \<notin> set W" for off
  proof -
    have "off \<notin> fst ` set es" "off \<notin> fst ` set ws" using assms(2) that by auto
    then show ?thesis unfolding a using commit_other [of off] by metis
  qed
  ultimately show "framed W m Q a" by (simp add: framed_def)
qed

lemma dlist_words_pred: "words_pred (list_words pe head xs) (dlist uuid pe head xs)"
  unfolding words_pred_def using dlist_cong by blast

lemma words_pred_conj: "words_pred V P \<Longrightarrow> words_pred V' Q \<Longrightarrow> words_pred (V @ V') (\<lambda>a. P a \<and> Q a)"
  unfolding words_pred_def by (metis UnCI set_append)

lemma log_atomic:
  assumes "ok_updates REDO_NUM_ENTRIES es" "clean REDO_NUM_ENTRIES m" "fst ` set es \<subseteq> set W" "words_pred V P" "P m" "words_pred V' Q" "Q (commit es m)"
  shows "\<exists>evs. redo_last m (length es, log_from 0 es) = Some evs \<and> atomic_op m evs (framed W m P) (framed W m Q)"
proof -
  have e: "es \<noteq> []" "fst ` set ([] :: update list) \<subseteq> set []" "log_from 0 es = log_from 0 [] @ direct [] [] @ log_from (length ([] :: update list)) es"
    "length es = length ([] :: update list) + length es" "ok_updates REDO_NUM_ENTRIES ([] @ es)" using assms(1) by (simp_all add: ok_updates_def direct_def)
  note R = redo_last_direct [OF e(5,1) assms(2) e(2,4,3)]
  have "Q (commit ([] @ es) (commit [] m))" using assms(7) by simp
  from staged_framed [OF R(2) _ assms(4,5) _ assms(6) this, of W] show ?thesis using R(1) assms(3) by auto
qed

lemma dlist_words: "dlist uuid pe head xs m \<Longrightarrow> (\<And>off. a (Data off) = m (Data off)) \<Longrightarrow> dlist uuid pe head xs a"
  by (rule dlist_cong)

subsection \<open>Words of the updates\<close>

lemma layout_tail: "list_layout pe head (y # xs) \<Longrightarrow> list_layout pe head xs"
  by (auto simp: list_layout_def list_words_def)

lemma layout_fresh:
  assumes "list_layout pe head (y # xs)"
  shows "set (entry_words (y + pe)) \<inter> set (list_words pe head xs) = {}" "y \<notin> set xs"
  using assms by (auto simp: list_layout_def list_words_def entry_words_def)

lemma words_unflagged: "list_layout pe head xs \<Longrightarrow> w \<in> set (list_words pe head xs) \<Longrightarrow> \<not> finish_flag w"
  by (simp add: list_layout_def list_all_iff)

lemma entry_in_words: "x \<in> set xs \<Longrightarrow> set (entry_words (x + pe)) \<subseteq> set (list_words pe head xs)" "{head, first_word head} \<subseteq> set (list_words pe head xs)"
  by (auto simp: list_words_def)

lemma head_es_words: "fst ` set (head_es uuid m head f) \<subseteq> {head, first_word head}" "length (head_es uuid m head f) \<le> 2" "head_es uuid m head f \<noteq> []"
  by (auto simp: head_es_def)

lemma insert_es_words:
  assumes "dlist uuid pe head xs m" "d = 0 \<or> d \<in> set xs"
  shows "fst ` set (insert_es uuid m pe head d before y) \<subseteq> set (list_words pe head xs)" "length (insert_es uuid m pe head d before y) \<le> 4"
    "insert_es uuid m pe head d before y \<noteq> []"
proof -
  have l: "linked (next_of m pe) (prev_of m pe) xs" "0 \<notin> set xs" using assms(1) by (simp_all add: dlist_def)
  have H: "fst ` set (head_es uuid m head f) \<subseteq> set (list_words pe head xs)" for f using head_es_words(1) entry_in_words(2) by blast
  show "fst ` set (insert_es uuid m pe head d before y) \<subseteq> set (list_words pe head xs)"
  proof (cases "d = 0")
    case True
    then show ?thesis using H by (simp add: insert_es_def)
  next
    case False
    then have d: "d \<in> set xs" using assms(2) by simp
    note n = ring_neighbours [OF l(1) d]
    have "{next_word pe d, prev_word pe d, next_word pe (prev_of m pe d), prev_word pe (next_of m pe d)} \<subseteq> set (list_words pe head xs)"
      using entry_in_words(1) [OF d, of pe head] entry_in_words(1) [OF n(1), of pe head] entry_in_words(1) [OF n(2), of pe head] by (simp add: entry_words_eq)
    then show ?thesis using H [of y] False by (cases "d = first_of m head") (simp_all add: insert_es_def)
  qed
  show "length (insert_es uuid m pe head d before y) \<le> 4" "insert_es uuid m pe head d before y \<noteq> []"
    using head_es_words(2,3) [of uuid m head y] by (simp_all add: insert_es_def)
qed

lemma insert_es_cong:
  assumes "\<And>w. w \<in> set (list_words pe head xs) \<Longrightarrow> m1 (Data w) = m (Data w)" "d = 0 \<or> d \<in> set xs"
  shows "insert_es uuid m1 pe head d before y = insert_es uuid m pe head d before y" "neighbours m1 pe d before y = neighbours m pe d before y"
proof -
  have h: "m1 (Data head) = m (Data head)" "first_of m1 head = first_of m head" using assms(1) entry_in_words(2) [of head pe xs] by simp_all
  have "next_of m1 pe d = next_of m pe d \<and> prev_of m1 pe d = prev_of m pe d" if "d \<noteq> 0"
    using assms entry_in_words(1) [of d xs pe head] that by (simp add: entry_words_eq)
  then show "insert_es uuid m1 pe head d before y = insert_es uuid m pe head d before y" "neighbours m1 pe d before y = neighbours m pe d before y"
    using h by (simp_all add: insert_es_def neighbours_def head_es_def)
qed

subsection \<open>An example\<close>

text \<open>The list of the objects 192 and 256 with its head at 64, in an otherwise empty memory; 128 is in no list.\<close>

definition ex_list :: redo_mem where
  "ex_list = (\<lambda>_. 0)(Data 64 := 7, Data 72 := 192, Data 192 := 7, Data 200 := 256, Data 208 := 7, Data 216 := 256,
     Data 256 := 7, Data 264 := 192, Data 272 := 7, Data 280 := 192)"

lemma ex_list_dlist: "dlist 7 0 64 [192, 256] ex_list" "list_layout 0 64 [192, 256]" "list_layout 0 64 [128, 192, 256]" "clean N ex_list"
  by (simp_all add: ex_list_def dlist_def linked_def has_uuid_def list_layout_def list_words_def entry_words_def clean_def finish_flag_def
      next_word_def prev_word_def next_uuid_def prev_uuid_def first_word_def REDO_FINISH_FLAG_def)

subsection \<open>Insertion and removal\<close>

definition put_spec :: "u64 \<Rightarrow> bool \<Rightarrow> u64 \<Rightarrow> u64 list \<Rightarrow> u64 list" where
  "put_spec dest before y xs = (if xs = [] then [y] else put_at before (if dest \<noteq> 0 then dest else if before then hd xs else last xs) y xs)"

lemma dlist_insert:
  assumes "list_layout pe head (y # xs)" "dlist uuid pe head xs m" "y \<noteq> 0" "has_uuid uuid pe m y" "uuid \<noteq> 0" "dest = 0 \<or> dest \<in> set xs"
    "d = (if dest \<noteq> 0 then dest else if xs = [] then 0 else if before then hd xs else last xs)"
  shows "dlist uuid pe head (put_spec dest before y xs) (commit (insert_es uuid m pe head d before y @ fill_es pe y (neighbours m pe d before y)) m)"
    "d = 0 \<or> d \<in> set xs"
proof -
  have z: "0 \<notin> set xs" using assms(2) by (simp add: dlist_def)
  show d: "d = 0 \<or> d \<in> set xs" using assms(6,7) by auto
  show "dlist uuid pe head (put_spec dest before y xs) (commit (insert_es uuid m pe head d before y @ fill_es pe y (neighbours m pe d before y)) m)"
  proof (cases "xs = []")
    case True
    then have "d = 0" using assms(6,7) by auto
    then show ?thesis using dlist_insert_first [of pe head y uuid m] assms(1-4) True by (simp add: put_spec_def insert_es_def neighbours_def)
  next
    case False
    then have "d \<in> set xs" "put_spec dest before y xs = put_at before d y xs" using assms(6,7) z by (auto simp: put_spec_def)
    then show ?thesis using dlist_insert_at [OF assms(1-5)] by simp
  qed
qed

lemma uuid_direct:
  assumes "ws = [(next_uuid pe y, uuid), (prev_uuid pe y, uuid)]"
  shows "uuid_stores uuid pe y = direct ws (entry_words (y + pe))" "fst ` set ws \<subseteq> set (entry_words (y + pe))" "has_uuid uuid pe (commit ws m) y"
  by (simp_all add: assms uuid_stores_def direct_def entry_words_eq has_uuid_def)

lemma ok_updates_words:
  assumes "list_layout pe head xs" "fst ` set es \<subseteq> set (list_words pe head xs)" "es \<noteq> []" "length es \<le> 63"
  shows "ok_updates REDO_NUM_ENTRIES es"
  using assms words_unflagged [OF assms(1)] by (fastforce simp: ok_updates_def REDO_NUM_ENTRIES_def LANE_SECTION_LEN_def)

text \<open>C22: \<open>list_insert\<close> is failure-atomic. Given a list \<open>xs\<close> and an object that is not in it, the call takes and releases the lock of the list and, wherever the power
  fails, recovery finds the list \<open>xs\<close> or the list with the object inserted before or after its destination, the first or the last object when the destination is
  null. After the last step it is the new list. No word outside of the list and the object changes.\<close>

theorem list_insert_atomic:
  assumes "dlist uuid pe head xs m" "list_layout pe head (oid_off oid # xs)" "oid_off oid \<noteq> 0" "uuid \<noteq> 0" "clean REDO_NUM_ENTRIES m"
    "oid_off dest = 0 \<or> oid_off dest \<in> set xs" "lk (head_lock head) = 0"
  shows "\<exists>evs. list_insert uuid lk m pe head dest before oid = Some (0, [MutexLock (head_lock head), MutexUnlock (head_lock head)], evs) \<and>
    atomic_op m evs (framed (list_words pe head (oid_off oid # xs)) m (dlist uuid pe head xs))
      (framed (list_words pe head (oid_off oid # xs)) m (dlist uuid pe head (put_spec (oid_off dest) before (oid_off oid) xs)))"
proof -
  define y where "y = oid_off oid"
  define d where "d = (if oid_off dest \<noteq> 0 then oid_off dest else if xs = [] then 0 else if before then hd xs else last xs)"
  define ws where "ws = [(next_uuid pe y, uuid), (prev_uuid pe y, uuid)]"
  define es1 where "es1 = insert_es uuid m pe head d before y"
  define es2 where "es2 = fill_es pe y (neighbours m pe d before y)"
  define p where "p = log_from 0 es1 @ direct ws (entry_words (y + pe)) @ log_from (length es1) es2"
  define W where "W = list_words pe head (y # xs)"
  note u = uuid_direct [OF ws_def]
  have lay: "list_layout pe head (y # xs)" using assms(2) by (simp add: y_def)
  note fresh = layout_fresh [OF lay]
  have wW: "fst ` set ws \<subseteq> set W" using u(2) by (auto simp: W_def list_words_def)
  have ag: "commit ws m (Data w) = m (Data w)" if "w \<in> set (list_words pe head xs)" for w
    using fresh(1) u(2) that by (intro commit_other) blast
  have d1: "dlist uuid pe head xs (commit ws m)" by (rule dlist_cong [OF assms(1) ag])
  note ins = dlist_insert [OF lay d1 assms(3) [folded y_def] u(3) assms(4,6) d_def]
  note c = insert_es_cong [of pe head xs "commit ws m" m, OF ag ins(2)]
  have e1: "fst ` set es1 \<subseteq> set (list_words pe head xs)" "length es1 \<le> 4" "es1 \<noteq> []" using insert_es_words [OF assms(1) ins(2)] by (simp_all add: es1_def)
  have sub: "fst ` set (es1 @ es2) \<subseteq> set W" using e1(1) by (auto simp: W_def list_words_def es2_def fill_es_def entry_words_eq)
  have ok: "ok_updates REDO_NUM_ENTRIES (es1 @ es2)" by (rule ok_updates_words [OF lay]) (use sub e1 in \<open>simp_all add: W_def es2_def fill_es_def\<close>)
  have "list_insert uuid lk m pe head dest before oid =
      map_option (\<lambda>evs. (0, [MutexLock (head_lock head), MutexUnlock (head_lock head)], evs)) (redo_last m (length es1 + length es2, p))"
    using assms(7) dest_of [OF assms(1), of dest before, folded d_def]
    by (simp add: list_insert_def Let_def list_insert_user_es list_fill_entry_es u(1) [unfolded y_def] p_def es1_def es2_def y_def fill_es_def split: prod.split)
  moreover have e2: "es2 \<noteq> []" by (simp add: es2_def fill_es_def)
  note R = redo_last_direct [OF ok e2 assms(5) u(2) refl p_def]
  have Q: "dlist uuid pe head (put_spec (oid_off dest) before y xs) (commit (es1 @ es2) (commit ws m))" using ins(1) by (simp add: es1_def es2_def c)
  have "atomic_op m (staged_evs (es1 @ es2) p) (framed W m (dlist uuid pe head xs)) (framed W m (dlist uuid pe head (put_spec (oid_off dest) before y xs)))"
    by (rule staged_framed [OF R(2) _ dlist_words_pred assms(1) _ dlist_words_pred Q]) (use sub wW fresh(1) u(2) in auto)
  ultimately show ?thesis using R(1) by (simp add: W_def y_def)
qed

theorem list_insert_atomic_witness:
  "\<exists>evs. list_insert 7 (\<lambda>_. 0) ex_list 0 64 \<lparr>pool_uuid_lo = 7, oid_off = 256\<rparr> True \<lparr>pool_uuid_lo = 7, oid_off = 128\<rparr> =
      Some (0, [MutexLock 80, MutexUnlock 80], evs) \<and>
    atomic_op ex_list evs (framed (list_words 0 64 [128, 192, 256]) ex_list (dlist 7 0 64 [192, 256]))
      (framed (list_words 0 64 [128, 192, 256]) ex_list (dlist 7 0 64 [192, 128, 256]))"
  using list_insert_atomic [of 7 0 64 "[192, 256]" ex_list "\<lparr>pool_uuid_lo = 7, oid_off = 128\<rparr>" "\<lparr>pool_uuid_lo = 7, oid_off = 256\<rparr>" "\<lambda>_. 0" True]
    ex_list_dlist by (simp add: put_spec_def head_lock_def)

lemma remove_es_bounds: "length (remove_es uuid m pe head y) \<le> 4" "remove_es uuid m pe head y \<noteq> []"
  using head_es_words(2,3) [of uuid m head 0] head_es_words(2) [of uuid m head "next_of m pe y"] by (simp_all add: remove_es_def)

lemma layout_remove:
  assumes "list_layout pe head xs" "y \<in> set xs"
  shows "list_layout pe head (y # remove1 y xs)" "set (list_words pe head (y # remove1 y xs)) = set (list_words pe head xs)"
proof -
  have m: "mset (list_words pe head (y # remove1 y xs)) = mset (list_words pe head xs)"
  proof -
    obtain us vs where "xs = us @ y # vs" "y \<notin> set us" using assms(2) by (metis split_list_first)
    then show ?thesis by (simp add: list_words_def remove1_append)
  qed
  from mset_eq_setD [OF m] show s: "set (list_words pe head (y # remove1 y xs)) = set (list_words pe head xs)" .
  show "list_layout pe head (y # remove1 y xs)" using assms(1) mset_eq_imp_distinct_iff [OF m] s by (simp add: list_layout_def list_all_iff)
qed

text \<open>C23: \<open>list_remove\<close> is failure-atomic: wherever the power fails, recovery finds the list with the object or without it, and after the last step without it.\<close>

theorem list_remove_atomic:
  assumes "dlist uuid pe head xs m" "list_layout pe head xs" "oid_off oid \<in> set xs" "uuid \<noteq> 0" "clean REDO_NUM_ENTRIES m" "lk (head_lock head) = 0"
  shows "\<exists>evs. list_remove uuid lk m pe head oid = Some (0, [MutexLock (head_lock head), MutexUnlock (head_lock head)], evs) \<and>
    atomic_op m evs (framed (list_words pe head xs) m (dlist uuid pe head xs)) (framed (list_words pe head xs) m (dlist uuid pe head (remove1 (oid_off oid) xs)))"
proof -
  define y where "y = oid_off oid"
  define es1 where "es1 = remove_es uuid m pe head y"
  define es2 where "es2 = fill_es pe y (0, 0)"
  have y: "y \<in> set xs" using assms(3) by (simp add: y_def)
  note r = dlist_remove [OF assms(2,1) y assms(4), folded es1_def]
  have sub: "fst ` set (es1 @ es2) \<subseteq> set (list_words pe head xs)"
    using r(2) entry_in_words(1) [OF y, of pe head] by (auto simp: es2_def fill_es_def entry_words_eq)
  have ok: "ok_updates REDO_NUM_ENTRIES (es1 @ es2)"
    by (rule ok_updates_words [OF assms(2) sub]) (use remove_es_bounds [of uuid m pe head y] in \<open>simp_all add: es1_def es2_def fill_es_def\<close>)
  have "commit (es1 @ es2) m (Data w) = commit es1 m (Data w)" if "w \<in> set (list_words pe head (remove1 y xs))" for w
    using layout_fresh(1) [OF layout_remove(1) [OF assms(2) y]] that by (simp add: es2_def fill_es_def entry_words_eq) auto
  then have Q: "dlist uuid pe head (remove1 y xs) (commit (es1 @ es2) m)" by (rule dlist_cong [OF r(1)])
  have "list_remove uuid lk m pe head oid =
      map_option (\<lambda>evs. (0, [MutexLock (head_lock head), MutexUnlock (head_lock head)], evs)) (redo_last m (length (es1 @ es2), log_from 0 (es1 @ es2)))"
    using assms(6) by (simp add: list_remove_def Let_def list_remove_single_es list_fill_entry_es log_from_append es1_def es2_def y_def fill_es_def)
  then show ?thesis using log_atomic [OF ok assms(5) sub dlist_words_pred assms(1) dlist_words_pred Q] by (auto simp: y_def)
qed

theorem list_remove_atomic_witness:
  "\<exists>evs. list_remove 7 (\<lambda>_. 0) ex_list 0 64 \<lparr>pool_uuid_lo = 7, oid_off = 192\<rparr> = Some (0, [MutexLock 80, MutexUnlock 80], evs) \<and>
    atomic_op ex_list evs (framed (list_words 0 64 [192, 256]) ex_list (dlist 7 0 64 [192, 256]))
      (framed (list_words 0 64 [192, 256]) ex_list (dlist 7 0 64 [256]))"
  using list_remove_atomic [of 7 0 64 "[192, 256]" ex_list "\<lparr>pool_uuid_lo = 7, oid_off = 192\<rparr>" "\<lambda>_. 0"] ex_list_dlist by (simp add: head_lock_def)

end
