(* ===== verification/Plist_Move.thy ===== *)
theory Plist_Move
  imports Plist_Atomic
begin

text \<open>
  Moving an object within a list or to another list. The whole log is computed from the memory before the move; that it has the effect of a removal followed
  by an insertion needs the special cases for neighbours in \<open>list_move\<close>.
\<close>

subsection \<open>Within one list\<close>

definition move_spec :: "u64 \<Rightarrow> bool \<Rightarrow> u64 \<Rightarrow> u64 list \<Rightarrow> u64 list" where
  "move_spec dest before y xs =
     (let d = (if dest \<noteq> 0 then dest else if before then hd xs else last xs) in if d = y then xs else put_at before d y (remove1 y xs))"

lemma atomic_nil:
  assumes "clean REDO_NUM_ENTRIES m" "Q m"
  shows "atomic_op m [] P Q"
proof -
  have "m' = m" if "m' \<in> crash (boot m)" for m' using that by (auto simp: crash_def)
  then show ?thesis using assms recover_clean [OF assms(1)] unfolding atomic_op_def by fastforce
qed

text \<open>The object is already next to its destination.\<close>

lemma move_before_neighbour:
  assumes "linked nx pv xs" "distinct xs" "d \<in> set xs" "y \<in> set xs" "d \<noteq> y" "pv d = y"
  shows "hd xs \<noteq> d \<Longrightarrow> put_at True d y (remove1 y xs) = xs"
    "hd xs = d \<Longrightarrow> \<exists>ws. xs = (d # ws) @ [y] \<and> put_at True d y (remove1 y xs) = [y] @ (d # ws)"
proof -
  obtain us vs where xs: "xs = us @ d # vs" using assms(3) by (metis split_list)
  have pv: "pv d = (if us \<noteq> [] then last us else last (d # vs))" using ring_split(1) [of nx pv us d vs] assms(1) by (simp add: xs)
  show "put_at True d y (remove1 y xs) = xs" if "hd xs \<noteq> d"
  proof -
    have us: "us \<noteq> []" using that by (auto simp: xs)
    then have u: "us = butlast us @ [y]" using pv assms(6) by (metis append_butlast_last_id)
    define ws where "ws = butlast us"
    have e: "xs = ws @ y # d # vs" using u xs by (simp add: ws_def)
    then have "y \<notin> set ws" "d \<notin> set ws" using assms(2) by auto
    then show ?thesis by (simp add: e remove1_append put_at_append)
  qed
  show "\<exists>ws. xs = (d # ws) @ [y] \<and> put_at True d y (remove1 y xs) = [y] @ (d # ws)" if "hd xs = d"
  proof -
    have "us = []" using that assms(2) by (cases us) (auto simp: xs)
    then have "vs \<noteq> []" "last vs = y" using pv assms(5,6) by (auto split: if_splits)
    then obtain ws where "vs = ws @ [y]" by (metis append_butlast_last_id)
    then have e: "xs = (d # ws) @ [y]" using xs \<open>us = []\<close> by simp
    then have "y \<notin> set ws" using assms(2) by auto
    then show ?thesis using e assms(5) by (simp add: remove1_append)
  qed
qed

lemma move_after_neighbour:
  assumes "linked nx pv xs" "distinct xs" "d \<in> set xs" "y \<in> set xs" "d \<noteq> y" "nx d = y"
  shows "hd xs \<noteq> y \<Longrightarrow> put_at False d y (remove1 y xs) = xs"
    "hd xs = y \<Longrightarrow> \<exists>ws. xs = [y] @ (ws @ [d]) \<and> put_at False d y (remove1 y xs) = (ws @ [d]) @ [y]"
proof -
  obtain us vs where xs: "xs = us @ d # vs" using assms(3) by (metis split_list)
  have nx: "nx d = (if vs \<noteq> [] then hd vs else hd (us @ [d]))" using ring_split(2) [of nx pv us d vs] assms(1) by (simp add: xs)
  show "put_at False d y (remove1 y xs) = xs" if "hd xs \<noteq> y"
  proof -
    have "vs \<noteq> []" using that nx assms(6) by (cases us) (auto simp: xs)
    then obtain ws where "vs = y # ws" using nx assms(6) by (cases vs) auto
    then have e: "xs = us @ d # y # ws" using xs by simp
    then have "y \<notin> set us" "d \<notin> set us" using assms(2) by auto
    then show ?thesis using assms(5) by (simp add: e remove1_append put_at_append)
  qed
  show "\<exists>ws. xs = [y] @ (ws @ [d]) \<and> put_at False d y (remove1 y xs) = (ws @ [d]) @ [y]" if h: "hd xs = y"
  proof -
    obtain z ws where z: "us = z # ws" using h assms(5) by (cases us) (auto simp: xs)
    then have us: "us = y # ws" using h by (simp add: xs)
    have "vs = []" using nx assms(2,6) us by (cases vs) (auto simp: xs)
    then have e: "xs = [y] @ (ws @ [d])" using xs us by simp
    then have "d \<notin> set ws" using assms(2) by auto
    then show ?thesis using e by (simp add: put_at_append)
  qed
qed

lemma dlist_rotate:
  assumes "list_layout pe head xs" "dlist uuid pe head xs m" "xs = us @ vs" "us \<noteq> []" "vs \<noteq> []" "uuid \<noteq> 0"
  shows "dlist uuid pe head (vs @ us) (commit (head_es uuid m head (hd vs)) m)"
proof -
  have d: "distinct xs" "0 \<notin> set xs" "m (Data head) = uuid" "linked (next_of m pe) (prev_of m pe) xs" "list_all (has_uuid uuid pe m) xs"
    using assms(2,3,4) by (auto simp: dlist_def)
  let ?m = "commit (head_es uuid m head (hd vs)) m"
  have m: "?m = m(Data (first_word head) := hd vs)" using d(3) assms(6) by (simp add: head_es_def)
  have v: "next_of ?m pe x = next_of m pe x" "prev_of ?m pe x = prev_of m pe x" "has_uuid uuid pe ?m x = has_uuid uuid pe m x" if "x \<in> set xs" for x
    using layout_head [OF assms(1) that] unfolding m has_uuid_def by simp_all
  have "linked (next_of m pe) (prev_of m pe) (vs @ us)" using d(4) linked_swap assms(3) by metis
  then have "linked (next_of ?m pe) (prev_of ?m pe) (vs @ us)" by (rule linked_cong [rotated]) (use v assms(3) in auto)
  moreover have "list_all (has_uuid uuid pe ?m) (vs @ us)" using d(5) v(3) assms(3) by (auto simp: list_all_iff)
  moreover have "?m (Data head) = uuid" using d(3) layout_words(5) [OF assms(1), of "hd us"] assms(3,4) by (simp add: m)
  moreover have "first_of ?m head = hd (vs @ us)" using assms(5) by (simp add: m)
  moreover have "distinct (vs @ us)" "0 \<notin> set (vs @ us)" using d(1,2) assms(3) by auto
  ultimately show ?thesis using assms(5) by (simp only: dlist_def append_is_Nil_conv if_False simp_thms)
qed

text \<open>The insertion reads the same before and after the removal.\<close>

lemma move_reads:
  assumes "list_layout pe head xs" "dlist uuid pe head xs m" "y \<in> set xs" "uuid \<noteq> 0" "d \<in> set xs" "d \<noteq> y"
    "before \<Longrightarrow> prev_of m pe d \<noteq> y" "\<not> before \<Longrightarrow> next_of m pe d \<noteq> y" "m' = commit (remove_es uuid m pe head y) m"
  shows "insert_es uuid m' pe head d before y = insert_es uuid m pe head d before y" "neighbours m' pe d before y = neighbours m pe d before y"
    "has_uuid uuid pe m' y"
proof -
  have d: "0 \<notin> set xs" "first_of m head = hd xs" "m (Data head) = uuid" "linked (next_of m pe) (prev_of m pe) xs" "has_uuid uuid pe m y"
    using assms(2,3) by (auto simp: dlist_def list_all_iff)
  have ne: "xs \<noteq> [y]" using assms(5,6) by auto
  note c = commit_remove [OF assms(1-4) ne assms(9)]
  note i = ring_inverse [OF d(4)]
  show "has_uuid uuid pe m' y" using c(3) [OF assms(3)] d(5) by simp
  have p: "prev_of m' pe d = prev_of m pe d" "d = first_of m' head \<longleftrightarrow> d = first_of m head" if before
    using c(2) [OF assms(5)] c(4) d(2) assms(6,7) that i(1) [OF assms(3)] by auto
  have n: "next_of m' pe d = next_of m pe d" if "\<not> before" using c(1) [OF assms(5)] assms(8) that i(2) [OF assms(3)] by auto
  show "insert_es uuid m' pe head d before y = insert_es uuid m pe head d before y" "neighbours m' pe d before y = neighbours m pe d before y"
    using p n c(5) d(3) by (cases before; simp add: insert_es_def neighbours_def head_es_def)+
qed

lemma dlist_move:
  assumes "list_layout pe head xs" "dlist uuid pe head xs m" "y \<in> set xs" "uuid \<noteq> 0" "d \<in> set xs" "d \<noteq> y"
    "before \<Longrightarrow> prev_of m pe d \<noteq> y" "\<not> before \<Longrightarrow> next_of m pe d \<noteq> y"
  shows "dlist uuid pe head (put_at before d y (remove1 y xs))
    (commit ((remove_es uuid m pe head y @ insert_es uuid m pe head d before y) @ fill_es pe y (neighbours m pe d before y)) m)"
proof -
  define m' where "m' = commit (remove_es uuid m pe head y) m"
  note r = move_reads [OF assms m'_def]
  have d1: "dlist uuid pe head (remove1 y xs) m'" using dlist_remove(1) [OF assms(1-4)] by (simp add: m'_def)
  have "distinct xs" "y \<noteq> 0" using assms(2,3) by (auto simp: dlist_def)
  then have "d \<in> set (remove1 y xs)" using assms(5,6) by (simp add: set_remove1_eq)
  from dlist_insert_at [OF layout_remove(1) [OF assms(1,3)] d1 \<open>y \<noteq> 0\<close> r(3) assms(4) this, where before = before]
  have "dlist uuid pe head (put_at before d y (remove1 y xs)) (commit (insert_es uuid m pe head d before y @ fill_es pe y (neighbours m pe d before y)) m')"
    by (simp add: r(1,2))
  then show ?thesis by (simp add: m'_def)
qed

lemma move_log_within:
  assumes "dlist uuid pe head xs m" "list_layout pe head xs" "oid_off oid \<in> set xs" "uuid \<noteq> 0" "d = oid_off dest" "d \<in> set xs" "y = oid_off oid"
    "xs' = (if d = y then xs else put_at before d y (remove1 y xs))"
  shows "case move_log uuid m pe head pe head dest before oid of
      None \<Rightarrow> xs' = xs
    | Some r \<Rightarrow> \<exists>es. r = (length es, log_from 0 es) \<and> es \<noteq> [] \<and> length es \<le> 63 \<and> fst ` set es \<subseteq> set (list_words pe head xs) \<and> dlist uuid pe head xs' (commit es m)"
proof -
  let ?P = "\<lambda>es. es \<noteq> [] \<and> length es \<le> 63 \<and> fst ` set es \<subseteq> set (list_words pe head xs) \<and> dlist uuid pe head xs' (commit es m)"
  have y: "y \<in> set xs" using assms(3,7) by simp
  have dl: "distinct xs" "first_of m head = hd xs" "linked (next_of m pe) (prev_of m pe) xs" using assms(1) y by (auto simp: dlist_def)
  have H: "head_es uuid m head f \<noteq> [] \<and> length (head_es uuid m head f) \<le> 63 \<and> fst ` set (head_es uuid m head f) \<subseteq> set (list_words pe head xs)" for f
    using head_es_words [of uuid m head f] entry_in_words(2) [of head pe xs] by auto
  consider "d = y" | "d \<noteq> y" before "prev_of m pe d = y" | "d \<noteq> y" "\<not> before" "next_of m pe d = y" |
    "d \<noteq> y" "before \<Longrightarrow> prev_of m pe d \<noteq> y" "\<not> before \<Longrightarrow> next_of m pe d \<noteq> y" by blast
  then show ?thesis
  proof cases
    case 1
    then show ?thesis using assms(8) assms(5,7) by (simp add: move_log_def)
  next
    case 2
    note mv = move_before_neighbour [OF dl(3,1) assms(6) y 2(1,3)]
    show ?thesis
    proof (cases "hd xs = d")
      case True
      obtain ws where w: "xs = (d # ws) @ [y]" "put_at True d y (remove1 y xs) = [y] @ (d # ws)" using mv(2) [OF True] by (elim exE conjE)
      have x': "xs' = [y] @ (d # ws)" using assms(8) 2(1,2) w(2) by (simp only: if_False simp_thms)
      have "dlist uuid pe head xs' (commit (head_es uuid m head y) m)" using dlist_rotate [OF assms(2,1) w(1) _ _ assms(4)] by (simp add: x')
      then show ?thesis using 2 True dl(2) assms(5,7) H [of y] by (auto simp: move_log_def list_fields list_update_head_es)
    next
      case False
      then show ?thesis using mv(1) 2 assms(8) dl(2) assms(5,7) by (simp add: move_log_def list_fields)
    qed
  next
    case 3
    note mv = move_after_neighbour [OF dl(3,1) assms(6) y 3(1,3)]
    show ?thesis
    proof (cases "hd xs = y")
      case True
      obtain ws where w: "xs = [y] @ (ws @ [d])" "put_at False d y (remove1 y xs) = (ws @ [d]) @ [y]" using mv(2) [OF True] by (elim exE conjE)
      have x': "xs' = (ws @ [d]) @ [y]" using assms(8) 3(1,2) w(2) by (simp only: if_False simp_thms)
      have "linked (next_of m pe) (prev_of m pe) ([] @ y # (ws @ [d]))" using dl(3) unfolding w(1) by simp
      from ring_split(2) [OF this] have "next_of m pe y = hd (ws @ [d])" by simp
      then have "dlist uuid pe head xs' (commit (head_es uuid m head (next_of m pe y)) m)" using dlist_rotate [OF assms(2,1) w(1) _ _ assms(4)] by (simp add: x')
      then show ?thesis using 3 True dl(2) assms(5,7) H [of "next_of m pe y"] by (auto simp: move_log_def list_fields list_update_head_es)
    next
      case False
      then show ?thesis using mv(1) 3 assms(8) dl(2) assms(5,7) by (simp add: move_log_def list_fields)
    qed
  next
    case 4
    define es where "es = (remove_es uuid m pe head y @ insert_es uuid m pe head d before y) @ fill_es pe y (neighbours m pe d before y)"
    have "dlist uuid pe head xs' (commit es m)" using dlist_move [OF assms(2,1) y assms(4,6) 4] assms(8) 4(1) by (simp add: es_def)
    moreover have "fst ` set es \<subseteq> set (list_words pe head xs)"
      using dlist_remove(2) [OF assms(2,1) y assms(4)] insert_es_words(1) [OF assms(1), of d before y] assms(6) entry_in_words(1) [OF y, of pe head]
      by (auto simp: es_def fill_es_def entry_words_eq)
    moreover have "length es \<le> 63"
      using remove_es_bounds(1) [of uuid m pe head y] insert_es_words(2) [OF assms(1), of d before y] assms(6) by (simp add: es_def fill_es_def)
    ultimately have "?P es" by (simp add: es_def fill_es_def)
    moreover have "move_log uuid m pe head pe head dest before oid = Some (length es, log_from 0 es)"
      using 4 assms(5,7) by (cases "neighbours m pe d before y") (auto simp: move_log_def list_fields list_remove_single_es list_insert_user_es list_fill_entry_es es_def
        log_from_append fill_es_def Let_def)
    ultimately show ?thesis by auto
  qed
qed

text \<open>C24: Moving an object within its list is failure-atomic. Wherever the power fails, recovery finds the old order or the order in which the object has been taken out
  and put before or after its destination; the cases in which the object is the destination, is next to it, or is the first or the only object are included.\<close>

theorem list_move_within_atomic:
  assumes "dlist uuid pe head xs m" "list_layout pe head xs" "oid_off oid \<in> set xs" "uuid \<noteq> 0" "clean REDO_NUM_ENTRIES m"
    "oid_off dest = 0 \<or> oid_off dest \<in> set xs" "lk (head_lock head) = 0"
  shows "\<exists>evs. list_move uuid lk m pe head pe head dest before oid = Some (0, [MutexLock (head_lock head), MutexUnlock (head_lock head)], evs) \<and>
    atomic_op m evs (framed (list_words pe head xs) m (dlist uuid pe head xs))
      (framed (list_words pe head xs) m (dlist uuid pe head (move_spec (oid_off dest) before (oid_off oid) xs)))"
proof -
  define dst where "dst = list_get_dest m head dest pe before"
  define xs' where "xs' = move_spec (oid_off dest) before (oid_off oid) xs"
  let ?W = "list_words pe head xs" and ?locks = "[MutexLock (head_lock head), MutexUnlock (head_lock head)]"
  have ne: "xs \<noteq> []" using assms(3) by auto
  have d: "oid_off dst = (if oid_off dest \<noteq> 0 then oid_off dest else if before then hd xs else last xs)" using dest_of [OF assms(1)] ne by (simp add: dst_def)
  then have din: "oid_off dst \<in> set xs" using assms(6) ne by auto
  have x': "xs' = (if oid_off dst = oid_off oid then xs else put_at before (oid_off dst) (oid_off oid) (remove1 (oid_off oid) xs))"
    by (simp add: xs'_def move_spec_def d Let_def)
  note L = move_log_within [OF assms(1-4) refl din refl x']
  have mv: "list_move uuid lk m pe head pe head dest before oid =
      (case move_log uuid m pe head pe head dst before oid of None \<Rightarrow> Some (0, ?locks, []) | Some r \<Rightarrow> map_option (\<lambda>evs. (0, ?locks, evs)) (redo_last m r))"
    using assms(7) by (simp add: list_move_def list_mutexes_lock_def list_mutexes_unlock_def dst_def Let_def split: option.split)
  show ?thesis
  proof (cases "move_log uuid m pe head pe head dst before oid")
    case None
    then have "xs' = xs" using L by simp
    then have "atomic_op m [] (framed ?W m (dlist uuid pe head xs)) (framed ?W m (dlist uuid pe head xs'))"
      using atomic_nil [OF assms(5)] assms(1) by (simp add: framed_def)
    then show ?thesis using mv None by (simp add: xs'_def)
  next
    case (Some r)
    then obtain es where es: "r = (length es, log_from 0 es)" "es \<noteq> []" "length es \<le> 63" "fst ` set es \<subseteq> set ?W" "dlist uuid pe head xs' (commit es m)" using L by auto
    have ok: "ok_updates REDO_NUM_ENTRIES es" by (rule ok_updates_words [OF assms(2) es(4,2,3)])
    from log_atomic [OF ok assms(5) es(4) dlist_words_pred assms(1) dlist_words_pred es(5)] show ?thesis using mv Some es(1) by (auto simp: xs'_def)
  qed
qed

theorem list_move_within_atomic_witness:
  "\<exists>evs. list_move 7 (\<lambda>_. 0) ex_list 0 64 0 64 \<lparr>pool_uuid_lo = 7, oid_off = 0\<rparr> False \<lparr>pool_uuid_lo = 7, oid_off = 192\<rparr> =
      Some (0, [MutexLock 80, MutexUnlock 80], evs) \<and>
    atomic_op ex_list evs (framed (list_words 0 64 [192, 256]) ex_list (dlist 7 0 64 [192, 256]))
      (framed (list_words 0 64 [192, 256]) ex_list (dlist 7 0 64 [256, 192]))"
  using list_move_within_atomic [of 7 0 64 "[192, 256]" ex_list "\<lparr>pool_uuid_lo = 7, oid_off = 192\<rparr>" "\<lparr>pool_uuid_lo = 7, oid_off = 0\<rparr>" "\<lambda>_. 0" False]
    ex_list_dlist by (simp add: move_spec_def head_lock_def)

subsection \<open>Between two lists\<close>

text \<open>The words of the two lists do not overlap, but for the entry of the object when both lists use the same one.\<close>

definition two_layouts :: "u64 \<Rightarrow> u64 \<Rightarrow> u64 list \<Rightarrow> u64 \<Rightarrow> u64 \<Rightarrow> u64 list \<Rightarrow> u64 \<Rightarrow> bool" where
  "two_layouts pe1 head1 xs pe2 head2 ys y \<longleftrightarrow> list_layout pe1 head1 xs \<and> list_layout pe2 head2 (y # ys) \<and>
     set (list_words pe1 head1 xs) \<inter> set (list_words pe2 head2 ys) = {} \<and> set (list_words pe1 head1 (remove1 y xs)) \<inter> set (list_words pe2 head2 (y # ys)) = {} \<and>
     (if pe1 = pe2 then True else set (list_words pe1 head1 xs) \<inter> set (list_words pe2 head2 (y # ys)) = {})"

lemma remove_es_cong:
  assumes "\<And>w. w \<in> set (list_words pe head xs) \<Longrightarrow> m1 (Data w) = m (Data w)" "y \<in> set xs"
  shows "remove_es uuid m1 pe head y = remove_es uuid m pe head y"
proof -
  have h: "m1 (Data head) = m (Data head)" "first_of m1 head = first_of m head" using assms(1) entry_in_words(2) [of head pe xs] by simp_all
  have "next_of m1 pe y = next_of m pe y" "prev_of m1 pe y = prev_of m pe y" using assms(1) entry_in_words(1) [OF assms(2), of pe head] by (simp_all add: entry_words_eq)
  then show ?thesis using h by (simp add: remove_es_def head_es_def)
qed

lemma removed_uuid:
  assumes "list_layout pe head xs" "dlist uuid pe head xs m" "y \<in> set xs" "uuid \<noteq> 0"
  shows "has_uuid uuid pe (commit (remove_es uuid m pe head y) m) y"
proof -
  have u: "has_uuid uuid pe m y" using assms(2,3) by (auto simp: dlist_def list_all_iff)
  show ?thesis
  proof (cases "xs = [y]")
    case True
    then have "next_of m pe y = y" "m (Data head) = uuid" using assms(2) by (simp_all add: dlist_def linked_def)
    then show ?thesis using u layout_head [OF assms(1,3)] assms(4) by (simp add: remove_es_def head_es_def has_uuid_def)
  next
    case False
    then show ?thesis using commit_remove(3) [OF assms False refl assms(3)] u by simp
  qed
qed

text \<open>The two lists after the updates of a move, which were all computed before.\<close>

lemma dlist_move_between:
  assumes "dlist uuid pe1 head1 xs m" "dlist uuid pe2 head2 ys m" "two_layouts pe1 head1 xs pe2 head2 ys y" "y \<in> set xs" "uuid \<noteq> 0"
    "dest = 0 \<or> dest \<in> set ys" "d = (if dest \<noteq> 0 then dest else if ys = [] then 0 else if before then hd ys else last ys)"
    "ws = (if pe1 = pe2 then [] else [(next_uuid pe2 y, uuid), (prev_uuid pe2 y, uuid)])"
    "es = (remove_es uuid m pe1 head1 y @ insert_es uuid m pe2 head2 d before y) @ fill_es pe2 y (neighbours m pe2 d before y)"
  shows "dlist uuid pe1 head1 (remove1 y xs) (commit es (commit ws m))" "dlist uuid pe2 head2 (put_spec dest before y ys) (commit es (commit ws m))"
    "fst ` set es \<subseteq> set (list_words pe1 head1 xs @ list_words pe2 head2 (y # ys))" "d = 0 \<or> d \<in> set ys"
proof -
  have T: "list_layout pe1 head1 xs" "list_layout pe2 head2 (y # ys)" "set (list_words pe1 head1 xs) \<inter> set (list_words pe2 head2 ys) = {}"
    "set (list_words pe1 head1 (remove1 y xs)) \<inter> set (list_words pe2 head2 (y # ys)) = {}"
    "pe1 \<noteq> pe2 \<Longrightarrow> set (list_words pe1 head1 xs) \<inter> set (list_words pe2 head2 (y # ys)) = {}" using assms(3) by (auto simp: two_layouts_def)
  have y0: "y \<noteq> 0" using assms(1,4) by (auto simp: dlist_def)
  show d: "d = 0 \<or> d \<in> set ys" using assms(6,7) by auto
  define m1 where "m1 = commit ws m"
  define m2 where "m2 = commit (remove_es uuid m pe1 head1 y) m1"
  have E: "set (entry_words (y + pe2)) \<subseteq> set (list_words pe2 head2 (y # ys))" by (rule entry_in_words(1)) simp
  have wsE: "fst ` set ws \<subseteq> set (entry_words (y + pe2))" by (simp add: assms(8) entry_words_eq)
  have a1: "m1 (Data w) = m (Data w)" if "w \<in> set (list_words pe1 head1 xs)" for w
  proof -
    have "w \<notin> fst ` set ws" using T(5) that wsE E by (cases "pe1 = pe2") (auto simp: assms(8))
    then show ?thesis by (simp add: m1_def commit_other)
  qed
  have a2: "m1 (Data w) = m (Data w)" if "w \<in> set (list_words pe2 head2 ys)" for w
    unfolding m1_def by (rule commit_other) (use layout_fresh(1) [OF T(2)] wsE that in blast)
  have r1: "remove_es uuid m1 pe1 head1 y = remove_es uuid m pe1 head1 y" using remove_es_cong [of pe1 head1 xs m1 m y] a1 assms(4) by blast
  have x1: "dlist uuid pe1 head1 xs m1" by (rule dlist_cong [OF assms(1) a1])
  note rm = dlist_remove [OF T(1) x1 assms(4,5), unfolded r1]
  have b: "m2 (Data w) = m1 (Data w)" if "w \<notin> set (list_words pe1 head1 xs)" for w
    unfolding m2_def by (rule commit_other) (use rm(2) that in blast)
  have b2: "m2 (Data w) = m (Data w)" if "w \<in> set (list_words pe2 head2 ys)" for w using b [of w] a2 [OF that] T(3) that by auto
  have y2: "dlist uuid pe2 head2 ys m2" by (rule dlist_cong [OF assms(2) b2])
  have u2: "has_uuid uuid pe2 m2 y"
  proof (cases "pe1 = pe2")
    case True
    then show ?thesis using removed_uuid [OF T(1) x1 assms(4,5)] unfolding r1 m2_def by simp
  next
    case False
    have "{next_uuid pe2 y, prev_uuid pe2 y} \<inter> set (list_words pe1 head1 xs) = {}" using T(5) [OF False] E by (auto simp: entry_words_eq)
    then show ?thesis using uuid_direct(3) [OF refl, where uuid = uuid and pe = pe2 and m = m and y = y] False by (simp add: has_uuid_def b m1_def assms(8))
  qed
  note ins = dlist_insert(1) [OF T(2) y2 y0 u2 assms(5-7)]
  have c: "insert_es uuid m2 pe2 head2 d before y = insert_es uuid m pe2 head2 d before y" "neighbours m2 pe2 d before y = neighbours m pe2 d before y"
    using insert_es_cong [of pe2 head2 ys m2 m d] b2 d by simp_all
  have m3: "commit es (commit ws m) = commit (insert_es uuid m2 pe2 head2 d before y @ fill_es pe2 y (neighbours m2 pe2 d before y)) m2"
    by (simp add: assms(9) m2_def m1_def c [unfolded m2_def m1_def])
  show "dlist uuid pe2 head2 (put_spec dest before y ys) (commit es (commit ws m))" unfolding m3 by (rule ins)
  have iw: "fst ` set (insert_es uuid m2 pe2 head2 d before y @ fill_es pe2 y (neighbours m2 pe2 d before y)) \<subseteq> set (list_words pe2 head2 (y # ys))"
    using insert_es_words(1) [OF y2 d, of before y] E by (auto simp: fill_es_def entry_words_eq list_words_def)
  show "dlist uuid pe1 head1 (remove1 y xs) (commit es (commit ws m))" unfolding m3
  proof (rule dlist_cong)
    show "dlist uuid pe1 head1 (remove1 y xs) m2" using rm(1) by (simp add: m2_def)
    fix w assume "w \<in> set (list_words pe1 head1 (remove1 y xs))"
    then show "commit (insert_es uuid m2 pe2 head2 d before y @ fill_es pe2 y (neighbours m2 pe2 d before y)) m2 (Data w) = m2 (Data w)"
      using T(4) iw by (intro commit_other) blast
  qed
  show "fst ` set es \<subseteq> set (list_words pe1 head1 xs @ list_words pe2 head2 (y # ys))" using rm(2) iw unfolding assms(9) c by auto
qed

text \<open>C25: Moving an object to another list is failure-atomic for both lists together. Wherever the power fails, recovery finds the object in the old list and not in the
  new one, or removed from the old list and inserted into the new one, never in none or in both. The locks are taken in the order of their addresses and released.\<close>

theorem list_move_between_atomic:
  assumes "dlist uuid pe1 head1 xs m" "dlist uuid pe2 head2 ys m" "two_layouts pe1 head1 xs pe2 head2 ys (oid_off oid)" "oid_off oid \<in> set xs" "uuid \<noteq> 0"
    "clean REDO_NUM_ENTRIES m" "oid_off dest = 0 \<or> oid_off dest \<in> set ys" "head1 \<noteq> head2" "lk (head_lock head1) = 0" "lk (head_lock head2) = 0"
  shows "\<exists>evs. list_move uuid lk m pe1 head1 pe2 head2 dest before oid =
      Some (0, [MutexLock (min (head_lock head1) (head_lock head2)), MutexLock (max (head_lock head1) (head_lock head2)),
        MutexUnlock (head_lock head2), MutexUnlock (head_lock head1)], evs) \<and>
    atomic_op m evs
      (framed (list_words pe1 head1 xs @ list_words pe2 head2 (oid_off oid # ys)) m (\<lambda>a. dlist uuid pe1 head1 xs a \<and> dlist uuid pe2 head2 ys a))
      (framed (list_words pe1 head1 xs @ list_words pe2 head2 (oid_off oid # ys)) m
        (\<lambda>a. dlist uuid pe1 head1 (remove1 (oid_off oid) xs) a \<and> dlist uuid pe2 head2 (put_spec (oid_off dest) before (oid_off oid) ys) a))"
proof -
  define y where "y = oid_off oid"
  define d where "d = (if oid_off dest \<noteq> 0 then oid_off dest else if ys = [] then 0 else if before then hd ys else last ys)"
  define ws where "ws = (if pe1 = pe2 then [] else [(next_uuid pe2 y, uuid), (prev_uuid pe2 y, uuid)])"
  define es1 where "es1 = remove_es uuid m pe1 head1 y @ insert_es uuid m pe2 head2 d before y"
  define es2 where "es2 = fill_es pe2 y (neighbours m pe2 d before y)"
  define p where "p = log_from 0 es1 @ direct ws (entry_words (y + pe2)) @ log_from (length es1) es2"
  define W where "W = list_words pe1 head1 xs @ list_words pe2 head2 (y # ys)"
  let ?locks = "[MutexLock (min (head_lock head1) (head_lock head2)), MutexLock (max (head_lock head1) (head_lock head2)),
        MutexUnlock (head_lock head2), MutexUnlock (head_lock head1)]"
  have T: "two_layouts pe1 head1 xs pe2 head2 ys y" and y: "y \<in> set xs" using assms(3,4) by (simp_all add: y_def)
  have lay: "list_layout pe1 head1 xs" "list_layout pe2 head2 (y # ys)" using T by (simp_all add: two_layouts_def)
  have es: "es1 @ es2 = (remove_es uuid m pe1 head1 y @ insert_es uuid m pe2 head2 d before y) @ fill_es pe2 y (neighbours m pe2 d before y)"
    by (simp add: es1_def es2_def)
  note mv = dlist_move_between [OF assms(1,2) T y assms(5,7) d_def ws_def es]
  have sub: "fst ` set (es1 @ es2) \<subseteq> set W" using mv(3) by (simp only: W_def)
  have wE: "fst ` set ws \<subseteq> set (entry_words (y + pe2))" by (simp add: ws_def entry_words_eq)
  have "w \<in> set W \<Longrightarrow> \<not> finish_flag w" for w using words_unflagged [OF lay(1)] words_unflagged [OF lay(2)] by (auto simp: W_def)
  then have "\<forall>e\<in>set (es1 @ es2). \<not> finish_flag (fst e)" using sub by auto
  moreover have "length (es1 @ es2) \<le> 63"
    using remove_es_bounds(1) [of uuid m pe1 head1 y] insert_es_words(2) [OF assms(2) mv(4), of before y] by (simp add: es1_def es2_def fill_es_def)
  ultimately have ok: "ok_updates REDO_NUM_ENTRIES (es1 @ es2)" by (simp add: ok_updates_def REDO_NUM_ENTRIES_def LANE_SECTION_LEN_def es2_def fill_es_def)
  have e2: "es2 \<noteq> []" by (simp add: es2_def fill_es_def)
  note R = redo_last_direct [OF ok e2 assms(6) wE refl p_def]
  have U: "fst ` set ws \<inter> set (list_words pe1 head1 xs @ list_words pe2 head2 ys) = {}"
  proof (cases "pe1 = pe2")
    case False
    have "set (entry_words (y + pe2)) \<subseteq> set (list_words pe2 head2 (y # ys))" by (rule entry_in_words(1)) simp
    moreover have "set (list_words pe1 head1 xs) \<inter> set (list_words pe2 head2 (y # ys)) = {}" using T False by (simp add: two_layouts_def)
    ultimately show ?thesis using layout_fresh(1) [OF lay(2)] wE unfolding set_append by blast
  qed (simp add: ws_def)
  have wW: "fst ` set (ws @ es1 @ es2) \<subseteq> set W" using sub wE entry_in_words(1) [of y "y # ys" pe2 head2] by (auto simp: W_def)
  have q: "dlist uuid pe1 head1 (remove1 y xs) (commit (es1 @ es2) (commit ws m)) \<and> dlist uuid pe2 head2 (put_spec (oid_off dest) before y ys) (commit (es1 @ es2) (commit ws m))"
    using mv(1,2) ..
  have A: "atomic_op m (staged_evs (es1 @ es2) p) (framed W m (\<lambda>a. dlist uuid pe1 head1 xs a \<and> dlist uuid pe2 head2 ys a))
      (framed W m (\<lambda>a. dlist uuid pe1 head1 (remove1 y xs) a \<and> dlist uuid pe2 head2 (put_spec (oid_off dest) before y ys) a))"
    by (rule staged_framed [OF R(2) wW words_pred_conj [OF dlist_words_pred dlist_words_pred] conjI [OF assms(1,2)] U
        words_pred_conj [OF dlist_words_pred dlist_words_pred] q])
  define dst where "dst = list_get_dest m head2 dest pe2 before"
  have dst: "oid_off dst = d" using dest_of [OF assms(2), of dest before, folded d_def] by (simp add: dst_def)
  have "move_log uuid m pe1 head1 pe2 head2 dst before oid = Some (length es1 + length es2, p)"
    using assms(8) by (cases "neighbours m pe2 d before y") (simp add: move_log_def list_remove_single_es list_insert_user_es [OF refl refl, where dest = dst, unfolded dst]
      dst list_fill_entry_es es1_def es2_def p_def log_from_append fill_es_def ws_def direct_def uuid_stores_def y_def Let_def)
  then have "list_move uuid lk m pe1 head1 pe2 head2 dest before oid = Some (0, ?locks, staged_evs (es1 @ es2) p)"
    using assms(8-10) R(1) by (auto simp: list_move_def list_mutexes_lock_def list_mutexes_unlock_def Let_def min_def max_def dst_def)
  then show ?thesis using A by (simp add: W_def y_def)
qed

text \<open>The second list of the example is empty, with its head at 512.\<close>

lemma ex_list_empty: "dlist 7 0 512 [] ex_list" "two_layouts 0 64 [192, 256] 0 512 [] 192"
  by (simp_all add: ex_list_def dlist_def linked_def two_layouts_def list_layout_def list_words_def entry_words_def finish_flag_def first_word_def REDO_FINISH_FLAG_def)

theorem list_move_between_atomic_witness:
  "\<exists>evs. list_move 7 (\<lambda>_. 0) ex_list 0 64 0 512 \<lparr>pool_uuid_lo = 7, oid_off = 0\<rparr> True \<lparr>pool_uuid_lo = 7, oid_off = 192\<rparr> =
      Some (0, [MutexLock 80, MutexLock 528, MutexUnlock 528, MutexUnlock 80], evs) \<and>
    atomic_op ex_list evs
      (framed (list_words 0 64 [192, 256] @ list_words 0 512 [192]) ex_list (\<lambda>a. dlist 7 0 64 [192, 256] a \<and> dlist 7 0 512 [] a))
      (framed (list_words 0 64 [192, 256] @ list_words 0 512 [192]) ex_list (\<lambda>a. dlist 7 0 64 [256] a \<and> dlist 7 0 512 [192] a))"
  using list_move_between_atomic [of 7 0 64 "[192, 256]" ex_list 0 512 "[]" "\<lparr>pool_uuid_lo = 7, oid_off = 192\<rparr>" "\<lparr>pool_uuid_lo = 7, oid_off = 0\<rparr>" "\<lambda>_. 0" True]
    ex_list_dlist ex_list_empty by (simp add: put_spec_def head_lock_def min_def max_def)

end
