(* ===== verification/Plist_New.thy ===== *)
theory Plist_New
  imports Plist_Atomic
begin

text \<open>
  Lists and the allocator: \<open>list_insert_new\<close> puts a new object into a list and \<open>list_remove_free\<close> takes one out that is to be freed. The lane records an object
  that is in no list in \<open>section->obj_offset\<close>, and the recovery of the lane frees it. No power failure leaves an object that is neither in the list nor recorded, or both.
\<close>

subsection \<open>Common\<close>

definition oid_es :: "u64 \<Rightarrow> u64 \<Rightarrow> u64 \<Rightarrow> bool \<Rightarrow> update list" where
  "oid_es uuid oidp y set_uuid = (if set_uuid then [(oidp, uuid)] else []) @ [(oidp + 8, y)]"

lemma list_set_oid_es:
  "list_set_oid_redo_log uuid m i oidp y inited =
     (i + length (oid_es uuid oidp y (\<not> inited \<or> m (Data oidp) \<noteq> uuid)), log_from i (oid_es uuid oidp y (\<not> inited \<or> m (Data oidp) \<noteq> uuid)))"
  by (simp add: list_set_oid_redo_log_def oid_es_def oid_at_def)

text \<open>The words of the record and of the object number: apart from the list, from each other, and aligned.\<close>

definition extra_words :: "u64 \<Rightarrow> u64 option \<Rightarrow> u64 list" where
  "extra_words sec oidp = sec # (case oidp of None \<Rightarrow> [] | Some p \<Rightarrow> [p, p + 8])"

definition extra_layout :: "u64 \<Rightarrow> u64 option \<Rightarrow> u64 list \<Rightarrow> bool" where
  "extra_layout sec oidp W \<longleftrightarrow> distinct (extra_words sec oidp) \<and> set (extra_words sec oidp) \<inter> set W = {} \<and> list_all (\<lambda>w. \<not> finish_flag w) (extra_words sec oidp)"

lemma store_last_direct:
  assumes "ok_updates REDO_NUM_ENTRIES (es1 @ es2 @ [(off, v)])" "clean REDO_NUM_ENTRIES m" "fst ` set ws \<subseteq> set ps" "n = length es1 + length es2"
    "p = log_from 0 es1 @ direct ws ps @ log_from (length es1) es2"
  shows "redo_store_last m (n, p) off v = Some (staged_evs (es1 @ es2 @ [(off, v)]) (p @ [Store (LogVal n) v]))"
    "staged REDO_NUM_ENTRIES (es1 @ es2 @ [(off, v)]) (fst ` set ws) m (commit ws m) (p @ [Store (LogVal n) v])"
proof -
  have "staged REDO_NUM_ENTRIES (es1 @ (es2 @ [(off, v)])) (fst ` set ws) m (commit ws m)
      (log_from 0 es1 @ direct ws ps @ (log_from (length es1) es2 @ [Store (LogVal (length es1 + length es2)) v]))"
    by (rule staged_direct [OF _ assms(2,3)]) (use assms(1) in auto)
  then show s: "staged REDO_NUM_ENTRIES (es1 @ es2 @ [(off, v)]) (fst ` set ws) m (commit ws m) (p @ [Store (LogVal n) v])" by (simp add: assms(4,5))
  show "redo_store_last m (n, p) off v = Some (staged_evs (es1 @ es2 @ [(off, v)]) (p @ [Store (LogVal n) v]))"
    using redo_store_last_staged [of "es1 @ es2" off v "fst ` set ws" m "commit ws m" p] s by (simp add: assms(4))
qed

lemma commit_commute:
  assumes "fst ` set es \<inter> fst ` set ws = {}"
  shows "commit es (commit ws m) (Data w) = commit ws (commit es m) (Data w)"
proof (cases "w \<in> fst ` set es")
  case True
  then have "w \<notin> fst ` set ws" using assms by blast
  then have "commit ws (commit es m) (Data w) = commit es m (Data w)" by (rule commit_other)
  moreover have "commit es (commit ws m) (Data w) = commit es m (Data w)" by (rule commit_agree) (simp add: True)
  ultimately show ?thesis by simp
next
  case False
  have "commit es (commit ws m) (Data w) = commit ws m (Data w)" by (rule commit_other [OF False])
  moreover have "commit ws (commit es m) (Data w) = commit ws m (Data w)" by (rule commit_agree) (simp add: commit_other [OF False])
  ultimately show ?thesis by simp
qed

lemma ok_updates_extra:
  assumes "list_layout pe head xs" "extra_layout sec oidp (list_words pe head xs)" "fst ` set es \<subseteq> set (list_words pe head xs) \<union> set (extra_words sec oidp)"
    "es \<noteq> []" "length es \<le> 63"
  shows "ok_updates REDO_NUM_ENTRIES es"
proof -
  have "\<not> finish_flag (fst e)" if "e \<in> set es" for e
  proof -
    have "fst e \<in> set (list_words pe head xs) \<or> fst e \<in> set (extra_words sec oidp)" using assms(3) that by blast
    then show ?thesis using words_unflagged [OF assms(1)] assms(2) by (auto simp: extra_layout_def list_all_iff)
  qed
  then show ?thesis using assms(4,5) by (simp add: ok_updates_def REDO_NUM_ENTRIES_def LANE_SECTION_LEN_def)
qed

text \<open>The recovery of the lane calls \<open>pfree\<close> exactly when the recovered memory records an object.\<close>

lemma lane_list_recovery_frees:
  "recovered REDO_NUM_ENTRIES m' = Some a \<Longrightarrow> \<exists>evs. lane_list_recovery m' sec = Some (evs, a (Data sec) \<noteq> 0) \<and> a = cache (run evs (boot m'))"
  by (auto simp: recovered_def lane_list_recovery_def)

subsection \<open>Removing an object that is freed\<close>

text \<open>C27: Removing an object that is to be freed never loses it. Up to the call of \<open>pfree\<close>, wherever the power fails, recovery finds the object in the list and no record
  in the lane, or the object removed from the list, its object number cleared and the object recorded in the lane. \<open>lane_list_recovery_frees\<close> is the next step.\<close>

theorem list_remove_free_no_leak:
  assumes "dlist uuid pe head xs m" "list_layout pe head xs" "y \<in> set xs" "uuid \<noteq> 0" "clean REDO_NUM_ENTRIES m" "m (Data sec) = 0"
    "extra_layout sec (Some oidp) (list_words pe head xs)" "oid_at m oidp = \<lparr>pool_uuid_lo = uuid, oid_off = y\<rparr>"
  shows "\<exists>evs. list_remove_free uuid m sec pe head (Inr oidp) = Some evs \<and>
    atomic_op m evs
      (framed (list_words pe head xs @ extra_words sec (Some oidp)) m (\<lambda>a. dlist uuid pe head xs a \<and> a (Data sec) = 0 \<and> a (Data (oidp + 8)) = y))
      (framed (list_words pe head xs @ extra_words sec (Some oidp)) m (\<lambda>a. dlist uuid pe head (remove1 y xs) a \<and> a (Data sec) = y \<and> a (Data (oidp + 8)) = 0))"
proof -
  define es1 where "es1 = remove_es uuid m pe head y"
  define es2 where "es2 = oid_es uuid oidp 0 False"
  define p where "p = log_from 0 es1 @ direct [] [] @ log_from (length es1) es2"
  define W where "W = list_words pe head xs @ extra_words sec (Some oidp)"
  have o: "m (Data oidp) = uuid" "m (Data (oidp + 8)) = y" using assms(8) by (simp_all add: oid_at_def)
  note r = dlist_remove [OF assms(2,1,3,4), folded es1_def]
  have ex: "sec \<noteq> oidp + 8" "sec \<notin> set (list_words pe head xs)" "oidp + 8 \<notin> set (list_words pe head xs)"
    using assms(7) by (auto simp: extra_layout_def extra_words_def)
  have sub: "fst ` set (es1 @ es2 @ [(sec, y)]) \<subseteq> set (list_words pe head xs) \<union> set (extra_words sec (Some oidp))"
    using r(2) by (auto simp: es2_def oid_es_def extra_words_def)
  have ok: "ok_updates REDO_NUM_ENTRIES (es1 @ es2 @ [(sec, y)])"
    by (rule ok_updates_extra [OF assms(2,7) sub]) (use remove_es_bounds [of uuid m pe head y] in \<open>simp_all add: es1_def es2_def oid_es_def\<close>)
  have e: "fst ` set ([] :: update list) \<subseteq> set []" by simp
  note S = store_last_direct [OF ok assms(5) e refl p_def]
  have ev: "list_remove_free uuid m sec pe head (Inr oidp) = redo_store_last m (length es1 + length es2, p) sec y"
    using assms(8) o by (simp add: list_remove_free_def Let_def list_remove_single_es list_set_oid_es p_def direct_def es1_def es2_def)
  let ?m = "commit (es1 @ es2 @ [(sec, y)]) (commit [] m)"
  have "?m (Data w) = commit es1 m (Data w)" if "w \<in> set (list_words pe head xs)" for w
    using ex that by (auto simp: es2_def oid_es_def)
  moreover have "set (list_words pe head (remove1 y xs)) \<subseteq> set (list_words pe head xs)" using layout_remove(2) [OF assms(2,3)] by (auto simp: list_words_def)
  ultimately have "dlist uuid pe head (remove1 y xs) ?m" by (intro dlist_cong [OF r(1)]) blast
  then have Q: "dlist uuid pe head (remove1 y xs) ?m \<and> ?m (Data sec) = y \<and> ?m (Data (oidp + 8)) = 0" using ex(1) by (simp add: es2_def oid_es_def)
  have P: "dlist uuid pe head xs m \<and> m (Data sec) = 0 \<and> m (Data (oidp + 8)) = y" using assms(1,6) o by simp
  have wp: "words_pred (list_words pe head zs @ [sec, oidp + 8]) (\<lambda>a. dlist uuid pe head zs a \<and> a (Data sec) = u \<and> a (Data (oidp + 8)) = v)" for zs u v
    by (rule words_pred_conj [OF dlist_words_pred]) (simp add: words_pred_def)
  have "atomic_op m (staged_evs (es1 @ es2 @ [(sec, y)]) (p @ [Store (LogVal (length es1 + length es2)) y]))
      (framed W m (\<lambda>a. dlist uuid pe head xs a \<and> a (Data sec) = 0 \<and> a (Data (oidp + 8)) = y))
      (framed W m (\<lambda>a. dlist uuid pe head (remove1 y xs) a \<and> a (Data sec) = y \<and> a (Data (oidp + 8)) = 0))"
    by (rule staged_framed [OF S(2) _ wp P _ wp Q]) (use sub in \<open>auto simp: W_def\<close>)
  then show ?thesis using ev S(1) by (simp add: W_def)
qed

text \<open>The example with the object number of 192 at 1040; the record is the word 1024.\<close>

lemma ex_list_free: "dlist 7 0 64 [192, 256] (ex_list(Data 1040 := 7, Data 1048 := 192))" "clean N (ex_list(Data 1040 := 7, Data 1048 := 192))"
    "extra_layout 1024 (Some 1040) (list_words 0 64 [192, 256])" "(ex_list(Data 1040 := 7, Data 1048 := 192)) (Data 1024) = 0"
    "oid_at (ex_list(Data 1040 := 7, Data 1048 := 192)) 1040 = \<lparr>pool_uuid_lo = 7, oid_off = 192\<rparr>"
  using ex_list_dlist(4) [of N] by (simp_all add: ex_list_def dlist_def linked_def has_uuid_def list_words_def entry_words_def clean_def finish_flag_def oid_at_def
      next_word_def prev_word_def next_uuid_def prev_uuid_def first_word_def REDO_FINISH_FLAG_def extra_layout_def extra_words_def)

theorem list_remove_free_no_leak_witness:
  "\<exists>evs. list_remove_free 7 (ex_list(Data 1040 := 7, Data 1048 := 192)) 1024 0 64 (Inr 1040) = Some evs \<and>
    atomic_op (ex_list(Data 1040 := 7, Data 1048 := 192)) evs
      (framed (list_words 0 64 [192, 256] @ extra_words 1024 (Some 1040)) (ex_list(Data 1040 := 7, Data 1048 := 192))
        (\<lambda>a. dlist 7 0 64 [192, 256] a \<and> a (Data 1024) = 0 \<and> a (Data 1048) = 192))
      (framed (list_words 0 64 [192, 256] @ extra_words 1024 (Some 1040)) (ex_list(Data 1040 := 7, Data 1048 := 192))
        (\<lambda>a. dlist 7 0 64 [256] a \<and> a (Data 1024) = 192 \<and> a (Data 1048) = 0))"
  using list_remove_free_no_leak [OF ex_list_free(1) ex_list_dlist(2), of 192 1024 1040] ex_list_free by simp

subsection \<open>Inserting a new object\<close>

definition new_entry :: "u64 \<Rightarrow> u64 \<Rightarrow> u64 \<Rightarrow> u64 \<times> u64 \<Rightarrow> update list" where
  "new_entry uuid pe y np = [(next_uuid pe y, uuid), (next_word pe y, fst np), (prev_uuid pe y, uuid), (prev_word pe y, snd np)]"

lemma fill_entry_persist_direct: "list_fill_entry_persist uuid (y + pe) n v = direct (new_entry uuid pe y (n, v)) (entry_words (y + pe))"
  by (simp add: list_fill_entry_persist_def direct_def new_entry_def next_uuid_def next_word_def prev_uuid_def prev_word_def)

lemma new_entry_words: "fst ` set (new_entry uuid pe y np) = set (entry_words (y + pe))"
  by (auto simp: new_entry_def entry_words_eq)

lemma put_spec_set: "set (put_spec dest before y xs) \<subseteq> insert y (set xs)"
proof -
  have "set (put_at before d y zs) \<subseteq> insert y (set zs)" for d zs by (induction zs) auto
  then show ?thesis by (auto simp: put_spec_def split: if_splits)
qed

text \<open>It does not matter that the entry of a new object is written before the log is applied.\<close>

lemma dlist_insert_new:
  assumes "list_layout pe head (y # xs)" "dlist uuid pe head xs m" "y \<noteq> 0" "uuid \<noteq> 0" "dest = 0 \<or> dest \<in> set xs"
    "d = (if dest \<noteq> 0 then dest else if xs = [] then 0 else if before then hd xs else last xs)"
  shows "dlist uuid pe head (put_spec dest before y xs)
    (commit (insert_es uuid m pe head d before y) (commit (new_entry uuid pe y (neighbours m pe d before y)) m))"
proof -
  define ws where "ws = [(next_uuid pe y, uuid), (prev_uuid pe y, uuid)]"
  define np where "np = neighbours m pe d before y"
  define es where "es = insert_es uuid m pe head d before y"
  note u = uuid_direct [OF ws_def]
  note fresh = layout_fresh [OF assms(1)]
  have ag: "commit ws m (Data w) = m (Data w)" if "w \<in> set (list_words pe head xs)" for w
    using fresh(1) u(2) that by (intro commit_other) blast
  have d1: "dlist uuid pe head xs (commit ws m)" by (rule dlist_cong [OF assms(2) ag])
  note ins = dlist_insert [OF assms(1) d1 assms(3) u(3) assms(4-6)]
  note c = insert_es_cong [of pe head xs "commit ws m" m, OF ag ins(2)]
  have D: "dlist uuid pe head (put_spec dest before y xs) (commit (fill_es pe y np) (commit es (commit ws m)))" using ins(1) by (simp add: c es_def np_def)
  have f: "fst ` set (fill_es pe y np) \<subseteq> set (entry_words (y + pe))" by (simp add: fill_es_def entry_words_eq)
  have disj: "fst ` set es \<inter> fst ` set (fill_es pe y np) = {}" using insert_es_words(1) [OF assms(2) ins(2), of before y] fresh(1) f by (auto simp: es_def)
  have "y \<in> set (y # xs)" by simp
  note ne = layout_neq [OF assms(1) this this]
  have N: "commit (fill_es pe y np) (commit ws m) (Data w) = commit (new_entry uuid pe y np) m (Data w)" for w
    using ne by (auto simp: fill_es_def ws_def new_entry_def)
  have "commit es (commit (new_entry uuid pe y np) m) (Data w) = commit (fill_es pe y np) (commit es (commit ws m)) (Data w)" for w
    unfolding commit_commute [OF disj, symmetric] by (rule commit_agree) (simp add: N)
  then have "dlist uuid pe head (put_spec dest before y xs) (commit es (commit (new_entry uuid pe y np) m))" by (rule dlist_words [OF D])
  then show ?thesis by (simp add: es_def np_def)
qed

text \<open>C26: Putting a new object into a list never loses it. From the end of the allocation, which recorded the object in the lane, wherever the power fails recovery finds
  the old list and the object recorded, or the object in the list at its place, the record cleared and the object number of the caller, if it is in the pool, set
  to the object.\<close>

theorem list_insert_new_no_leak:
  assumes "dlist uuid pe head xs m" "list_layout pe head (y # xs)" "m (Data sec) = y" "y \<noteq> 0" "uuid \<noteq> 0" "clean REDO_NUM_ENTRIES m"
    "oid_off dest = 0 \<or> oid_off dest \<in> set xs" "extra_layout sec oidp (list_words pe head (y # xs))"
  shows "\<exists>evs. list_insert_new uuid 0 m sec pe head dest before oidp = Some (0, evs) \<and>
    atomic_op m evs
      (framed (list_words pe head (y # xs) @ extra_words sec oidp) m (\<lambda>a. dlist uuid pe head xs a \<and> a (Data sec) = y))
      (framed (list_words pe head (y # xs) @ extra_words sec oidp) m
        (\<lambda>a. dlist uuid pe head (put_spec (oid_off dest) before y xs) a \<and> a (Data sec) = 0 \<and>
          (case oidp of None \<Rightarrow> True | Some p \<Rightarrow> oid_at a p = \<lparr>pool_uuid_lo = uuid, oid_off = y\<rparr>)))"
proof -
  define d where "d = (if oid_off dest \<noteq> 0 then oid_off dest else if xs = [] then 0 else if before then hd xs else last xs)"
  define np where "np = neighbours m pe d before y"
  define ws where "ws = new_entry uuid pe y np"
  define es1 where "es1 = insert_es uuid m pe head d before y"
  define es2 where "es2 = (case oidp of None \<Rightarrow> [] | Some p \<Rightarrow> oid_es uuid p y True)"
  define p where "p = log_from 0 es1 @ direct ws (entry_words (y + pe)) @ log_from (length es1) es2"
  define W where "W = list_words pe head (y # xs) @ extra_words sec oidp"
  let ?m = "commit (es1 @ es2 @ [(sec, 0)]) (commit ws m)"
  let ?oid = "\<lambda>a. a (Data sec) = 0 \<and> (case oidp of None \<Rightarrow> True | Some p \<Rightarrow> oid_at a p = \<lparr>pool_uuid_lo = uuid, oid_off = y\<rparr>)"
  have din: "d = 0 \<or> d \<in> set xs" using assms(7) by (auto simp: d_def)
  note fresh = layout_fresh [OF assms(2)]
  have e1: "fst ` set es1 \<subseteq> set (list_words pe head xs)" "length es1 \<le> 4" using insert_es_words [OF assms(1) din] by (simp_all add: es1_def)
  have e2: "fst ` set es2 \<union> {sec} \<subseteq> set (extra_words sec oidp)" "length es2 \<le> 2" by (auto simp: es2_def oid_es_def extra_words_def split: option.split)
  have wsW: "fst ` set ws \<subseteq> set (entry_words (y + pe))" by (simp add: ws_def new_entry_words)
  have sub: "fst ` set (es1 @ es2 @ [(sec, 0)]) \<subseteq> set (list_words pe head (y # xs)) \<union> set (extra_words sec oidp)"
    using e1(1) e2(1) by (auto simp: list_words_def)
  have ok: "ok_updates REDO_NUM_ENTRIES (es1 @ es2 @ [(sec, 0)])" by (rule ok_updates_extra [OF assms(2,8) sub]) (use e1(2) e2(2) in simp_all)
  note S = store_last_direct [OF ok assms(6) wsW refl p_def]
  have ev: "list_insert_new uuid 0 m sec pe head dest before oidp = map_option (Pair 0) (redo_store_last m (length es1 + length es2, p) sec 0)"
    using dest_of [OF assms(1), of dest before, folded d_def]
    by (cases np; cases oidp) (simp_all add: list_insert_new_def Let_def assms(3) list_insert_user_es list_set_oid_es fill_entry_persist_direct p_def es1_def es2_def ws_def np_def)
  have X: "set (extra_words sec oidp) \<inter> set (list_words pe head (y # xs)) = {}" using assms(8) by (simp add: extra_layout_def)
  have "?m (Data w) = commit es1 (commit ws m) (Data w)" if "w \<in> set (list_words pe head (y # xs))" for w
  proof -
    have "w \<notin> fst ` set (es2 @ [(sec, 0)])" using X e2(1) that by auto
    from commit_other [OF this] show ?thesis by simp
  qed
  moreover have "set (list_words pe head (put_spec (oid_off dest) before y xs)) \<subseteq> set (list_words pe head (y # xs))"
    using put_spec_set [of "oid_off dest" before y xs] by (auto simp: list_words_def)
  ultimately have "dlist uuid pe head (put_spec (oid_off dest) before y xs) ?m"
    by (intro dlist_cong [OF dlist_insert_new [OF assms(2,1,4,5,7) d_def, folded np_def es1_def ws_def]]) blast
  moreover have "?oid ?m" using assms(8) by (auto simp: es2_def oid_es_def oid_at_def extra_layout_def extra_words_def split: option.split)
  ultimately have Q: "dlist uuid pe head (put_spec (oid_off dest) before y xs) ?m \<and> ?oid ?m" by blast
  have P: "dlist uuid pe head xs m \<and> m (Data sec) = y" using assms(1,3) by simp
  have wP: "words_pred (list_words pe head xs @ [sec]) (\<lambda>a. dlist uuid pe head xs a \<and> a (Data sec) = y)"
    by (rule words_pred_conj [OF dlist_words_pred]) (simp add: words_pred_def)
  have wQ: "words_pred (list_words pe head zs @ extra_words sec oidp) (\<lambda>a. dlist uuid pe head zs a \<and> ?oid a)" for zs
    by (rule words_pred_conj [OF dlist_words_pred]) (simp add: words_pred_def extra_words_def oid_at_def split: option.split)
  have "set (entry_words (y + pe)) \<subseteq> set (list_words pe head (y # xs))" by (rule entry_in_words(1)) simp
  then have fr: "fst ` set ws \<inter> set (list_words pe head xs @ [sec]) = {}" using fresh(1) wsW X e2(1) unfolding set_append list.set by blast
  have "atomic_op m (staged_evs (es1 @ es2 @ [(sec, 0)]) (p @ [Store (LogVal (length es1 + length es2)) 0]))
      (framed W m (\<lambda>a. dlist uuid pe head xs a \<and> a (Data sec) = y))
      (framed W m (\<lambda>a. dlist uuid pe head (put_spec (oid_off dest) before y xs) a \<and> ?oid a))"
    by (rule staged_framed [OF S(2) _ wP P fr wQ Q]) (use sub wsW in \<open>auto simp: W_def list_words_def\<close>)
  then show ?thesis using ev S(1) by (simp add: W_def)
qed

lemma ex_list_new: "dlist 7 0 64 [192, 256] (ex_list(Data 1024 := 128))" "clean N (ex_list(Data 1024 := 128))"
    "extra_layout 1024 (Some 1040) (list_words 0 64 [128, 192, 256])"
  using ex_list_dlist(4) [of N] by (simp_all add: ex_list_def dlist_def linked_def has_uuid_def list_words_def entry_words_def clean_def finish_flag_def
      next_word_def prev_word_def next_uuid_def prev_uuid_def first_word_def REDO_FINISH_FLAG_def extra_layout_def extra_words_def)

theorem list_insert_new_no_leak_witness:
  "\<exists>evs. list_insert_new 7 0 (ex_list(Data 1024 := 128)) 1024 0 64 \<lparr>pool_uuid_lo = 7, oid_off = 192\<rparr> False (Some 1040) = Some (0, evs) \<and>
    atomic_op (ex_list(Data 1024 := 128)) evs
      (framed (list_words 0 64 [128, 192, 256] @ extra_words 1024 (Some 1040)) (ex_list(Data 1024 := 128))
        (\<lambda>a. dlist 7 0 64 [192, 256] a \<and> a (Data 1024) = 128))
      (framed (list_words 0 64 [128, 192, 256] @ extra_words 1024 (Some 1040)) (ex_list(Data 1024 := 128))
        (\<lambda>a. dlist 7 0 64 [192, 128, 256] a \<and> a (Data 1024) = 0 \<and> oid_at a 1040 = \<lparr>pool_uuid_lo = 7, oid_off = 128\<rparr>))"
  using list_insert_new_no_leak [OF ex_list_new(1) ex_list_dlist(3), of 1024 "\<lparr>pool_uuid_lo = 7, oid_off = 192\<rparr>" "Some 1040" False] ex_list_new
  by (simp add: put_spec_def)

end
