(* ===== verification/Spec2Isabelle.thy ===== *)
theory Spec2Isabelle
  imports Persistency Pool_Props Interface Kernel_Client Heap_Degrade Cuckoo_Type Pvector_Props Heap_Classes_Props Plist_Move Plist_New
begin

text \<open>
  A verification development of PMTest, a checker for programs that use persistent memory, and of the parts of NVML's libpmemobj that PMTest instruments.

  \<^bold>\<open>The program.\<close> A program under test records a trace: assignments to persistent memory, cache flushes, fences, transaction marks and
  checker calls (\<open>isPersist\<close>, \<open>isOrderedBefore\<close>, transaction checkers). \<open>src/include/global.h\<close> has the macros, \<open>src/src/pmtest.cc\<close> the C interface that
  stores the entries in a buffer per section, the pool of worker threads that take buffers from queues, and \<open>VeriProc\<close>, which checks one buffer. For kernel
  code, \<open>src/src/kernel_module.c\<close> passes the entries through a kfifo to the process \<open>src/src/kernel_client.cc\<close>. The copy of NVML under \<open>src/nvml\<close> is
  instrumented with the macros; its libpmemobj keeps the heap, the redo log and the volatile and persistent data structures that the allocator uses.

  \<^bold>\<open>Shared vocabulary.\<close> \<open>Prelude\<close> has the machine types and generic lemmas. \<open>Fast_Vector\<close> is \<open>FastVector\<close> of \<open>src/include/common.hh\<close>; the locale
  \<open>vector_spec\<close> is its contract as a list, interpreted as \<open>fv\<close>. \<open>Icl\<close> is the interface of the \<open>boost::icl\<close> containers, which are not in the sources: the
  record of operations is a parameter \<open>C\<close> of the engine, the locale \<open>icl\<close> states their documented behaviour, and lists of segments are a model of it.

  \<^bold>\<open>The checking engine.\<close> \<open>Trace\<close> has \<open>Metadata\<close> and the creators \<open>C_createMetadata_*\<close>. \<open>Engine\<close> has the locals of \<open>VeriProc\<close> as the record
  \<open>vstate\<close>, one definition per handler \<open>VeriProc_*\<close> and the frame loop. \<open>Engine_Spec\<close> is the specification byte by byte. \<open>Engine_Trace\<close> and
  \<open>Engine_Props\<close> show that the verdicts are functions of the last entry that touched each byte, that the engine refines the specification, and that the frame
  loop is one sequential pass without the flushes after the last fence. \<open>Tx_Props\<close> is about the transaction checker, exclusion and the ranges of the
  counters, and shows that a stray end switches the transaction checker off. \<open>Persistency\<close> relates the verdicts to all write-back schedules that the hardware may
  choose, in which only flushes that a fence completes force a write-back: \<open>isPersist\<close> is exact in a run of \<open>VeriProc\<close>, \<open>isOrderedBefore\<close> is sound under a condition on
  the late range, and without it every trace has an extension whose verdict is wrong.

  \<^bold>\<open>The worker pool.\<close> \<open>Worker_Pool\<close> has one step per access to a shared variable, for the client thread and each worker; \<open>Pool_Inv\<close> has the invariants by
  rule induction and \<open>Pool_Props\<close> the results: traces are verified exactly once and in order, \<open>getVeri\<close> waits for all of them, workers make progress and
  terminate; and two runs in which the start of the workers races with initialisation or shutdown. Progress is a bound on the number of own steps of a worker.

  \<^bold>\<open>Interface and kernel mode.\<close> \<open>Interface\<close> has the C interface and the macros over a store of buffers and the variable registry. \<open>Kernel_Fifo\<close> is the
  device as a step relation, with the Linux kfifo as the parameter \<open>F\<close> and its behaviour as the locale \<open>kfifo\<close>; \<open>Kernel_Races\<close> has two runs that go wrong
  and \<open>Kernel_Client\<close> the process that reads the device.

  \<^bold>\<open>libpmemobj: crash consistency.\<close> \<open>Pmem\<close> is the memory with stores, flushes and drains and the values that a power failure can leave. A function of the
  library is the list of its memory operations. \<open>Redo_Log\<close> and \<open>Redo_Props\<close> are \<open>redo.c\<close>; \<open>Memops\<close> is \<open>memops.c\<close>, with the atomicity of
  \<open>operation_process\<close> at every power failure. \<open>Plist\<close> is \<open>list.c\<close>, circular lists of objects that are changed through the redo log of a lane, and
  \<open>Plist_Props\<close> describes a list by its sequence of objects and an operation by the updates in its log. \<open>Plist_Atomic\<close> shows that insertion and removal are
  failure-atomic, \<open>Plist_Move\<close> the same for moves within a list and between two lists, and \<open>Plist_New\<close> that no power failure loses an object between the
  allocator and a list. Locks are a parameter; the allocation before \<open>list_insert_new\<close> and the \<open>pfree\<close> after \<open>list_remove_free\<close> are not part of them.

  \<^bold>\<open>libpmemobj: data structures.\<close> \<open>Critbit\<close> and \<open>Ctree\<close> are \<open>ctree.c\<close>, a sorted map. \<open>Bucket\<close> and \<open>Bucket_Props\<close> are \<open>bucket.c\<close>; the locale
  \<open>block_container\<close> is what the heap relies on of a container, and \<open>ctree_container\<close> its interpretation for crit-bit trees. \<open>Cuckoo\<close> is \<open>cuckoo.c\<close> and
  \<open>Cuckoo_Props\<close> shows that it stores a map, by the multiset of its live slots, and two ways in which an insertion damages the table; \<open>Cuckoo_Type\<close> shows
  that no call makes the table ill-formed while allocations succeed. Both hold up to the wrap-around of the 32-bit size, \<open>size_wraps\<close>. \<open>Pvector\<close> is \<open>pvector.c\<close> and \<open>Pvector_Props\<close> shows that it stores a list, with an iterator, and that
  opening it finds the list again.

  \<^bold>\<open>libpmemobj: the heap.\<close> \<open>Heap_Run\<close>, \<open>Heap_Init\<close>, \<open>Heap_Blocks\<close>, \<open>Heap_Drain\<close>, \<open>Heap_Zones\<close> and \<open>Heap_Degrade\<close> are functions of \<open>heap.c\<close>: reading
  the bitmaps of runs, initialising runs and zones, moving and freeing blocks, draining and degrading. \<open>Memblock\<close> and \<open>Memblock_Props\<close> are \<open>memblock.c\<close>.
  \<open>Heap_Classes\<close> has the allocation classes and the double free when one cannot be created, and \<open>Heap_Classes_Props\<close> shows that every size that runs can serve gets a class that serves it.

  \<^bold>\<open>Bounds and fuel.\<close> Integers have the width of the C types where they can wrap; sizes of structures that the code only compares are natural numbers.
  \<open>None\<close> is undefined behaviour of C, a failed assertion or \<open>FATAL\<close>. Loops are structural or have a termination proof. Two loops have fuel: \<open>drain_bucket\<close>,
  for which the limit of the loop is enough because every block moved has a unit, and \<open>traverse_loop\<close>, for which the number of blocks of the run is enough; the
  theorems about them show that the functions return. \<open>reduce_waste\<close> ends with \<open>None\<close> beyond \<open>RUNSIZE\<close>, where the loop of the code would go on; the theorem on
  allocation classes shows that this is not reached.

  \<^bold>\<open>Not modelled.\<close> In \<open>heap.c\<close>: boot, clean-up, consistency check, the refill of buckets and the Valgrind functions. In libpmemobj: lanes, the
  allocator interface, persistent locks, transactions and pools, which build on files, thread-local state and the layout of lanes. The other libraries, tools,
  tests, benchmarks and examples of NVML and jemalloc do not take part in checking; libpmem is the instructions that \<open>Pmem\<close> gives a meaning. The log output of
  debug builds, time measurement and the test programs of PMTest have no effect on the results.
\<close>

end
